(* ===== verification/GoPrelude.thy ===== *)
theory GoPrelude
  imports Main "HOL-Library.Word" "HOL-Library.Finite_Map" "HOL-Library.List_Lexorder"
    "HOL-Library.Char_ord" "HOL-Library.Sublist" "HOL-Library.Signed_Division"
begin

text \<open>
  The prelude of the event_watch development: the Go machine integers, byte strings, maps and
  error values that every component uses, and the lemma collections the component proofs share.

  \<^item> Go's \<open>int\<close> and \<open>int64\<close> are \<open>64 word\<close> read with \<open>sint\<close>; a \<open>uint64\<close> that is only
    compared or counted is a \<open>nat\<close>, with \<open>mod 2 ^ 64\<close> written where the code can wrap.
  \<^item> A Go string is a list of bytes (\<open>char list\<close>).
  \<^item> A Go map is a finite map (\<open>fmap\<close>); \<open>fm_items\<close> lists it in key order, as
    \<open>encoding/json\<close> and \<open>sort.Strings\<close> do.
  \<^item> A Go \<open>error\<close> is a value of \<open>gerr\<close>, a fallible result a sum.
\<close>

section \<open>Lemma collections\<close>

named_theorems go_string \<open>evaluation of the string helpers\<close>
named_theorems codec_simps \<open>JSON encoders and decoders of the stored states\<close>
named_theorems store_simps \<open>what a store operation leaves of each part of a topic\<close>
named_theorems hub_simps \<open>what a hub operation leaves of each part of the registry\<close>

section \<open>Integers\<close>

type_synonym i64 = "64 word"

definition in_i64 :: "int \<Rightarrow> bool" where
  "in_i64 i \<longleftrightarrow> - (2 ^ 63) \<le> i \<and> i < 2 ^ 63"

text \<open>The conversion \<open>int(x)\<close> of a \<open>uint64\<close>: values from \<open>2 ^ 63\<close> on come out negative.\<close>

definition int_of_u64 :: "nat \<Rightarrow> int" where
  "int_of_u64 n = (let m = int n mod 2 ^ 64 in if m < 2 ^ 63 then m else m - 2 ^ 64)"

lemma in_i64_sint [simp]: "in_i64 (sint (w :: i64))"
  using sint_ge [of w] sint_less [of w] by (simp add: in_i64_def)

lemma sint_i64_of_int: "in_i64 i \<Longrightarrow> sint (word_of_int i :: i64) = i"
  by (simp add: in_i64_def sint_sbintrunc' signed_take_bit_int_eq_self)

lemma word_of_sint_i64 [simp]: "word_of_int (sint (w :: i64)) = w"
  by simp

lemma int_of_u64_small: "n < 2 ^ 63 \<Longrightarrow> int_of_u64 n = int n"
proof -
  assume "n < 2 ^ 63"
  then have "int n < 2 ^ 63" by (metis of_nat_less_iff of_nat_numeral of_nat_power)
  then show ?thesis by (simp add: int_of_u64_def)
qed

lemma int_div_Suc:
  assumes "0 < (k :: int)"
  shows "(p + 1) div k = p div k + (if (p + 1) mod k = 0 then 1 else 0)"
proof -
  define q r where "q = p div k" and "r = p mod k"
  have p: "p = k * q + r" and r: "0 \<le> r" "r < k" using assms by (simp_all add: q_def r_def)
  show ?thesis
  proof (cases "r = k - 1")
    case True
    then have "p + 1 = k * (q + 1) + 0" using p by (simp add: algebra_simps)
    then have "(p + 1) div k = q + 1" "(p + 1) mod k = 0"
      using assms by (metis int_div_pos_eq order_refl, metis int_mod_pos_eq order_refl)
    then show ?thesis by (simp add: q_def)
  next
    case False
    then have e: "p + 1 = k * q + (r + 1)" "0 \<le> r + 1" "r + 1 < k" using p r by auto
    then have "(p + 1) div k = q" "(p + 1) mod k = r + 1"
      by (rule int_div_pos_eq, rule int_mod_pos_eq)
    then show ?thesis using r by (simp add: q_def)
  qed
qed

lemma int_div_bounds:
  assumes "0 < (k :: int)"
  shows "k * (p div k) \<le> p" "p < k * (p div k) + k"
proof -
  have "p = k * (p div k) + p mod k" by simp
  moreover have "0 \<le> p mod k" "p mod k < k" using assms by simp_all
  ultimately show "k * (p div k) \<le> p" "p < k * (p div k) + k" by linarith+
qed

section \<open>Byte strings\<close>

fun index_byte :: "string \<Rightarrow> char \<Rightarrow> nat option" where
  "index_byte [] c = None"
| "index_byte (x # xs) c = (if x = c then Some 0 else map_option Suc (index_byte xs c))"

text \<open>\<open>strings.Split\<close> with a one-byte separator: always at least one part.\<close>

fun split_on :: "char \<Rightarrow> string \<Rightarrow> string list" where
  "split_on c [] = [[]]"
| "split_on c (x # xs) =
     (if x = c then [] # split_on c xs
      else (case split_on c xs of [] \<Rightarrow> [[x]] | p # ps \<Rightarrow> (x # p) # ps))"

definition cut_prefix :: "string \<Rightarrow> string \<Rightarrow> string option" where
  "cut_prefix s p = (if prefix p s then Some (drop (length p) s) else None)"

lemma split_on_nonempty [simp]: "split_on c s \<noteq> []"
  by (induction s) (auto split: list.splits)

lemma index_byte_None: "index_byte s c = None \<longleftrightarrow> c \<notin> set s"
  by (induction s) auto

lemma index_byte_Some:
  "index_byte s c = Some i \<Longrightarrow> i < length s \<and> s ! i = c \<and> c \<notin> set (take i s)"
  by (induction s arbitrary: i) (fastforce split: if_splits)+

lemma index_byte_append: "c \<notin> set xs \<Longrightarrow> index_byte (xs @ c # ys) c = Some (length xs)"
  by (induction xs) auto

lemma split_on_no_sep: "c \<notin> set s \<Longrightarrow> split_on c s = [s]"
  by (induction s) auto

lemma split_on_append: "c \<notin> set xs \<Longrightarrow> split_on c (xs @ c # ys) = xs # split_on c ys"
  by (induction xs) auto

lemma split_on_no_sep_parts: "p \<in> set (split_on c s) \<Longrightarrow> c \<notin> set p"
  by (induction s arbitrary: p) (auto split: list.splits if_splits)

lemma hd_split_on: "hd (split_on c s) = takeWhile (\<lambda>x. x \<noteq> c) s"
  by (induction s) (auto split: list.splits simp: neq_Nil_conv)

lemma split_on_chars: "(\<Union>p \<in> set (split_on c s). set p) = set s - {c}"
proof (induction s)
  case (Cons x xs)
  then show ?case by (cases "split_on c xs") auto
qed simp

subsection \<open>Decimal numbers, as \<open>fmt\<close> prints them and \<open>strconv\<close> reads them\<close>

definition digit_char :: "nat \<Rightarrow> char" where
  "digit_char d = char_of (48 + d)"

definition digit_val :: "char \<Rightarrow> nat" where
  "digit_val c = of_char c - 48"

definition is_digit :: "char \<Rightarrow> bool" where
  "is_digit c \<longleftrightarrow> 48 \<le> (of_char c :: nat) \<and> (of_char c :: nat) \<le> 57"

definition digits_val :: "string \<Rightarrow> nat" where
  "digits_val s = foldl (\<lambda>n c. 10 * n + digit_val c) 0 s"

fun show_nat :: "nat \<Rightarrow> string" where
  "show_nat n = (if n < 10 then [digit_char n] else show_nat (n div 10) @ [digit_char (n mod 10)])"

declare show_nat.simps [simp del]

definition show_int :: "int \<Rightarrow> string" where
  "show_int i = (if i < 0 then ''-'' @ show_nat (nat (- i)) else show_nat (nat i))"

text \<open>\<open>fmt.Sscanf(s, "%d", &n)\<close> into a zero \<open>uint64\<close>: blanks, then digits; 0 when there are none or too many.\<close>

definition is_blank :: "char \<Rightarrow> bool" where
  "is_blank c \<longleftrightarrow> (of_char c :: nat) \<in> {9, 11, 12, 13, 32}"

definition sscanf_d :: "string \<Rightarrow> nat" where
  "sscanf_d s = (let ds = takeWhile is_digit (dropWhile is_blank s) in if digits_val ds < 2 ^ 64 then digits_val ds else 0)"

lemma of_char_digit_char: "d < 10 \<Longrightarrow> (of_char (digit_char d) :: nat) = 48 + d"
  by (simp add: digit_char_def)

lemma is_digit_digit_char [simp]: "d < 10 \<Longrightarrow> is_digit (digit_char d)"
  by (simp add: is_digit_def of_char_digit_char)

lemma digit_val_digit_char [simp]: "d < 10 \<Longrightarrow> digit_val (digit_char d) = d"
  by (simp add: digit_val_def of_char_digit_char)

lemma digits_val_snoc: "digits_val (s @ [c]) = 10 * digits_val s + digit_val c"
  by (simp add: digits_val_def)

lemma show_nat_nonempty [simp]: "show_nat n \<noteq> []"
  by (subst show_nat.simps) simp

lemma show_nat_digits: "c \<in> set (show_nat n) \<Longrightarrow> is_digit c"
proof (induction n arbitrary: c rule: show_nat.induct)
  case (1 n)
  then show ?case by (subst (asm) (2) show_nat.simps) (auto split: if_splits)
qed

lemma digits_val_show_nat [simp]: "digits_val (show_nat n) = n"
proof (induction n rule: show_nat.induct)
  case (1 n)
  show ?case
  proof (cases "n < 10")
    case True
    then show ?thesis by (subst show_nat.simps) (simp add: digits_val_def)
  next
    case False
    with 1 show ?thesis by (subst show_nat.simps) (simp add: digits_val_snoc)
  qed
qed

lemma is_digit_not_slash: "is_digit c \<Longrightarrow> c \<noteq> CHR ''/''"
  by (auto simp: is_digit_def)

section \<open>Maps\<close>

definition fm_items :: "('k :: linorder, 'v) fmap \<Rightarrow> ('k \<times> 'v) list" where
  "fm_items m = map (\<lambda>k. (k, the (fmlookup m k))) (sorted_list_of_fset (fmdom m))"

definition fm_of_items :: "('k \<times> 'v) list \<Rightarrow> ('k, 'v) fmap" where
  "fm_of_items kvs = foldl (\<lambda>m (k, v). fmupd k v m) fmempty kvs"

lemma fmlookup_foldl_fmupd:
  "fmlookup (foldl (\<lambda>m (k, v). fmupd k v m) m kvs) x = (fmlookup m ++ map_of (rev kvs)) x"
  by (induction kvs arbitrary: m) (auto simp: map_add_def split: option.splits)

lemma fmlookup_fm_of_items: "fmlookup (fm_of_items kvs) x = map_of (rev kvs) x"
  by (simp add: fm_of_items_def fmlookup_foldl_fmupd map_add_def split: option.splits)

lemma map_fst_fm_items [simp]: "map fst (fm_items m) = sorted_list_of_fset (fmdom m)"
  by (simp add: fm_items_def comp_def)

lemma map_of_graph: "map_of (map (\<lambda>k. (k, f k)) ks) x = (if x \<in> set ks then Some (f x) else None)"
  by (induction ks) auto

lemma fm_of_items_items [simp]: "fm_of_items (fm_items m) = m"
proof (rule fmap_ext)
  fix x
  have "fmlookup (fm_of_items (fm_items m)) x =
      map_of (map (\<lambda>k. (k, the (fmlookup m k))) (rev (sorted_list_of_fset (fmdom m)))) x"
    by (simp add: fmlookup_fm_of_items fm_items_def rev_map)
  also have "\<dots> = fmlookup m x"
    by (auto simp: map_of_graph fmlookup_dom_iff)
  finally show "fmlookup (fm_of_items (fm_items m)) x = fmlookup m x" .
qed

lemma fm_items_empty [simp]: "fm_items fmempty = []"
  by (simp add: fm_items_def sorted_list_of_fset.rep_eq)

lemma fm_items_Nil_iff: "fm_items m = [] \<longleftrightarrow> m = fmempty"
  by (metis fm_items_empty fm_of_items_items)

lemma fmdom_strict_sorted: "sorted_wrt (<) (sorted_list_of_fset (fmdom m))"
  by (simp add: sorted_list_of_fset.rep_eq)

section \<open>Errors\<close>

datatype gerr =
    ErrInvalidTopic
  | ErrNotFound
  | ErrUnknownType
  | ErrUnauthenticated
  | ErrMsg string

fun err_text :: "gerr \<Rightarrow> string" where
  "err_text ErrInvalidTopic = ''invalid topic''"
| "err_text ErrNotFound = ''not found''"
| "err_text ErrUnknownType = ''no reducer registered for object type''"
| "err_text ErrUnauthenticated = ''unauthenticated''"
| "err_text (ErrMsg m) = m"

section \<open>Lists that grow at the end and are capped at the front\<close>

text \<open>
  The reducers keep a bounded tail of a list: append, then \<open>xs[len(xs)-cap:]\<close> when it is
  longer than the cap.
\<close>

definition cap_tail :: "nat \<Rightarrow> 'a list \<Rightarrow> 'a list" where
  "cap_tail n xs = (if n < length xs then drop (length xs - n) xs else xs)"

lemma length_cap_tail [simp]: "length (cap_tail n xs) = min n (length xs)"
  by (simp add: cap_tail_def)

lemma cap_tail_suffix: "\<exists>ys. xs = ys @ cap_tail n xs"
  by (metis append_Nil append_take_drop_id cap_tail_def)

lemma cap_tail_snoc: "cap_tail n (cap_tail n xs @ [x]) = cap_tail n (xs @ [x])"
proof (cases "n < length xs")
  case True
  then show ?thesis by (simp add: cap_tail_def Suc_diff_le)
next
  case False
  then show ?thesis by (simp add: cap_tail_def)
qed

lemma last_cap_tail: "0 < n \<Longrightarrow> xs \<noteq> [] \<Longrightarrow> last (cap_tail n xs) = last xs"
  by (simp add: cap_tail_def)

section \<open>Contiguous runs of sequence numbers\<close>

text \<open>\<open>seq_run a xs\<close>: the list \<open>xs\<close> is \<open>a, a + 1, \<dots>\<close>; what a gap-free stream looks like.\<close>

definition seq_run :: "nat \<Rightarrow> nat list \<Rightarrow> bool" where
  "seq_run a xs \<longleftrightarrow> xs = [a ..< a + length xs]"

lemma seq_run_Nil [simp]: "seq_run a []"
  by (simp add: seq_run_def)

lemma seq_run_upt [simp]: "seq_run a [a ..< b]"
  by (cases "a \<le> b") (simp_all add: seq_run_def)

lemma seq_run_snoc: "seq_run a (xs @ [x]) \<longleftrightarrow> seq_run a xs \<and> x = a + length xs"
  by (auto simp: seq_run_def)

lemma seq_run_nth: "seq_run a xs \<Longrightarrow> i < length xs \<Longrightarrow> xs ! i = a + i"
  by (metis nth_upt seq_run_def nat_add_left_cancel_less)

end
