(* ===== verification/GoTime.thy ===== *)
theory GoTime
  imports GoPrelude
begin

text \<open>
  What the program uses of Go's \<open>time\<close> package. A \<open>time.Time\<close> is an instant, the number of
  nanoseconds since January 1, year 1, 00:00 UTC, so that the zero \<open>Time\<close> is \<open>0\<close>; a
  \<open>time.Duration\<close> is a 64-bit word of nanoseconds. \<open>MarshalJSON\<close> and \<open>Format\<close> print RFC 3339
  text in UTC and fail outside the years 0 to 9999; \<open>time.Parse(time.RFC3339Nano, _)\<close> reads the
  strict RFC 3339 grammar with any zone offset. The one fact the stored states rest on is the
  round trip \<open>parse_time (format_time t) = Some t\<close>.
\<close>

type_synonym time = int

definition is_zero_time :: "time \<Rightarrow> bool" where
  "is_zero_time t \<longleftrightarrow> t = 0"

text \<open>\<open>t.Add(d)\<close>, and \<open>t.Sub(u)\<close>, which saturates at the ends of the 64-bit range.\<close>

definition time_add :: "time \<Rightarrow> i64 \<Rightarrow> time" where
  "time_add t d = t + sint d"

definition time_sub :: "time \<Rightarrow> time \<Rightarrow> i64" where
  "time_sub t u = word_of_int (max (- (2 ^ 63)) (min (2 ^ 63 - 1) (t - u)))"

definition milliseconds :: "i64 \<Rightarrow> i64" where
  "milliseconds d = word_of_int (sint d sdiv 1000000)"

abbreviation "second_ns \<equiv> 1000000000 :: int"
abbreviation "day_ns \<equiv> 86400000000000 :: int"

lemma sint_time_sub:
  "sint (time_sub t u) = max (- (2 ^ 63)) (min (2 ^ 63 - 1) (t - u))"
  unfolding time_sub_def by (rule sint_i64_of_int) (auto simp: in_i64_def)

section \<open>The calendar\<close>

definition is_leap :: "int \<Rightarrow> bool" where
  "is_leap y \<longleftrightarrow> y mod 4 = 0 \<and> (y mod 100 \<noteq> 0 \<or> y mod 400 = 0)"

text \<open>Days from January 1, year 1 to January 1 of year \<open>y\<close>.\<close>

definition days_before_year :: "int \<Rightarrow> int" where
  "days_before_year y = (let p = y - 1 in 365 * p + p div 4 - p div 100 + p div 400)"

definition year_of_day :: "int \<Rightarrow> int" where
  "year_of_day d =
     (let y = (400 * d) div 146097 + 1
      in if d < days_before_year y then y - 1
         else if d < days_before_year (y + 1) then y else y + 1)"

definition month_lengths :: "int \<Rightarrow> nat list" where
  "month_lengths y = [31, if is_leap y then 29 else 28, 31, 30, 31, 30, 31, 31, 30, 31, 30, 31]"

text \<open>Split a day of the year into (month, day), both from 0.\<close>

fun split_months :: "nat list \<Rightarrow> nat \<Rightarrow> nat \<times> nat" where
  "split_months [] d = (0, d)"
| "split_months (l # ls) d =
     (if d < l then (0, d) else (let (m, r) = split_months ls (d - l) in (Suc m, r)))"

lemma days_before_year_Suc:
  "days_before_year (y + 1) = days_before_year y + (if is_leap y then 366 else 365)"
proof -
  have inc: "y div k = (y - 1) div k + (if y mod k = 0 then 1 else 0)" if "0 < k" for k :: int
    using int_div_Suc[OF that, of "y - 1"] by (simp only: diff_add_cancel)
  have dvd: "y mod 400 = 0 \<Longrightarrow> y mod 100 = 0" "y mod 100 = 0 \<Longrightarrow> y mod 4 = 0"
    using dvd_trans[of 100 400 y] dvd_trans[of 4 100 y] by (simp_all add: mod_eq_0_iff_dvd)
  have "days_before_year (y + 1) = 365 * y + y div 4 - y div 100 + y div 400"
    by (simp add: days_before_year_def)
  also have "\<dots> = days_before_year y + 365 + (if y mod 4 = 0 then 1 else 0)
      - (if y mod 100 = 0 then 1 else 0) + (if y mod 400 = 0 then 1 else 0)"
  proof -
    have sum: "365 * y + A - B + C = 365 * (y - 1) + a - b + c + 365 + u - v + w"
      if "A = a + u" "B = b + v" "C = c + w" for A B C a b c u v w :: int
      using that by simp
    show ?thesis unfolding days_before_year_def Let_def by (rule sum; rule inc; simp)
  qed
  also have "\<dots> = days_before_year y + (if is_leap y then 366 else 365)"
  proof -
    have "n + 365 + (if P then 1 else 0) - (if Q then 1 else 0) + (if R then 1 else 0) =
        n + (if P \<and> (\<not> Q \<or> R) then 366 else (365 :: int))"
      if "R \<Longrightarrow> Q" "Q \<Longrightarrow> P" for n P Q R
      by (cases P; cases Q; cases R) (use that in simp_all)
    from this[OF dvd] show ?thesis unfolding is_leap_def .
  qed
  finally show ?thesis .
qed

lemma days_before_year_bounds:
  "146097 * (y - 1) - 699 \<le> 400 * days_before_year y"
  "400 * days_before_year y \<le> 146097 * (y - 1) + 396"
proof -
  define p a b c where "p = y - 1" and "a = p div 4" and "b = p div 100" and "c = p div 400"
  have "4 * a \<le> p" "p < 4 * a + 4" "100 * b \<le> p" "p < 100 * b + 100" "400 * c \<le> p" "p < 400 * c + 400"
    using int_div_bounds[of 4 p] int_div_bounds[of 100 p] int_div_bounds[of 400 p]
    by (simp_all add: a_def b_def c_def)
  moreover have "days_before_year y = 365 * p + a - b + c"
    by (simp add: days_before_year_def Let_def p_def a_def b_def c_def)
  ultimately show "146097 * (y - 1) - 699 \<le> 400 * days_before_year y"
    "400 * days_before_year y \<le> 146097 * (y - 1) + 396" by (simp_all add: p_def)
qed

lemma year_of_day_bounds:
  "days_before_year (year_of_day d) \<le> d" "d < days_before_year (year_of_day d + 1)"
proof -
  define y where "y = (400 * d) div 146097 + 1"
  have y: "146097 * (y - 1) \<le> 400 * d" "400 * d < 146097 * y"
    using int_div_bounds[of 146097 "400 * d"] by (simp_all add: y_def)
  have lo: "days_before_year (y - 1) \<le> d" and hi: "d < days_before_year (y + 2)"
    using y days_before_year_bounds[of "y - 1"] days_before_year_bounds[of "y + 2"] by simp_all
  have yd: "year_of_day d = (if d < days_before_year y then y - 1
         else if d < days_before_year (y + 1) then y else y + 1)"
    by (simp add: year_of_day_def y_def Let_def)
  show "days_before_year (year_of_day d) \<le> d" using lo by (simp add: yd)
  show "d < days_before_year (year_of_day d + 1)" using hi by (simp add: yd add.commute)
qed

lemma split_months_sum:
  "d < sum_list ls \<Longrightarrow> split_months ls d = (m, r) \<Longrightarrow>
     m < length ls \<and> r < ls ! m \<and> sum_list (take m ls) + r = d"
proof (induction ls arbitrary: d m r)
  case (Cons l ls)
  show ?case
  proof (cases "d < l")
    case True
    with Cons.prems show ?thesis by auto
  next
    case False
    obtain m' r' where s: "split_months ls (d - l) = (m', r')" by fastforce
    from False Cons.prems s have "m = Suc m'" "r = r'" "d - l < sum_list ls" by auto
    with Cons.IH[OF _ s] False show ?thesis by auto
  qed
qed simp

lemma sum_month_lengths: "sum_list (month_lengths y) = (if is_leap y then 366 else 365)"
  by (simp add: month_lengths_def)

section \<open>RFC 3339 text\<close>

definition pad_digits :: "nat \<Rightarrow> nat \<Rightarrow> string" where
  "pad_digits w n = map (\<lambda>i. digit_char (n div 10 ^ (w - 1 - i) mod 10)) [0..<w]"

text \<open>Nanoseconds print without trailing zeros, and not at all when they are 0.\<close>

definition trim_zeros :: "string \<Rightarrow> string" where
  "trim_zeros s = rev (dropWhile (\<lambda>c. c = CHR ''0'') (rev s))"

definition format_frac :: "nat \<Rightarrow> string" where
  "format_frac ns = (if ns = 0 then [] else CHR ''.'' # trim_zeros (pad_digits 9 ns))"

definition valid_year :: "time \<Rightarrow> bool" where
  "valid_year t \<longleftrightarrow> 0 \<le> year_of_day (t div day_ns) \<and> year_of_day (t div day_ns) \<le> 9999"

definition format_time :: "time \<Rightarrow> string" where
  "format_time t =
     (let day = t div day_ns; ns = nat (t mod day_ns); y = year_of_day day;
          (m, d) = split_months (month_lengths y) (nat (day - days_before_year y));
          s = ns div 1000000000
      in pad_digits 4 (nat y) @ ''-'' @ pad_digits 2 (m + 1) @ ''-'' @ pad_digits 2 (d + 1)
         @ ''T'' @ pad_digits 2 (s div 3600) @ '':'' @ pad_digits 2 (s div 60 mod 60)
         @ '':'' @ pad_digits 2 (s mod 60) @ format_frac (ns mod 1000000000) @ ''Z'')"

text \<open>\<open>Time.MarshalJSON\<close>: the text, or an error outside the years 0 to 9999.\<close>

definition marshal_time_text :: "time \<Rightarrow> string option" where
  "marshal_time_text t = (if valid_year t then Some (format_time t) else None)"

definition parse_num :: "string \<Rightarrow> nat option" where
  "parse_num s = (if s \<noteq> [] \<and> list_all is_digit s then Some (digits_val s) else None)"

definition frac_ns :: "string \<Rightarrow> nat" where
  "frac_ns ds = digits_val (take 9 (ds @ replicate 9 (CHR ''0'')))"

text \<open>The optional fraction: its nanoseconds and the rest of the text.\<close>

definition parse_frac :: "string \<Rightarrow> (nat \<times> string) option" where
  "parse_frac s =
     (case s of
        c # r \<Rightarrow> if c = CHR ''.'' then
                   (let ds = takeWhile is_digit r
                    in if ds = [] then None else Some (frac_ns ds, drop (length ds) r))
                 else Some (0, s)
      | [] \<Rightarrow> Some (0, s))"

text \<open>The zone: \<open>Z\<close> or \<open>+hh:mm\<close> / \<open>-hh:mm\<close>, as seconds east of UTC.\<close>

definition parse_zone :: "string \<Rightarrow> int option" where
  "parse_zone s =
     (if s = ''Z'' then Some 0
      else if length s = 6 \<and> (s ! 0 = CHR ''+'' \<or> s ! 0 = CHR ''-'') \<and> s ! 3 = CHR '':'' then
        (case (parse_num (take 2 (drop 1 s)), parse_num (drop 4 s)) of
           (Some h, Some m) \<Rightarrow>
             if h \<le> 24 \<and> m < 60 then
               Some ((if s ! 0 = CHR ''-'' then -1 else 1) * (int h * 3600 + int m * 60))
             else None
         | _ \<Rightarrow> None)
      else None)"

definition mk_time :: "nat \<Rightarrow> nat \<Rightarrow> nat \<Rightarrow> nat \<Rightarrow> nat \<Rightarrow> nat \<Rightarrow> nat \<Rightarrow> int \<Rightarrow> time option" where
  "mk_time y mo d h mi s ns zone =
     (if 1 \<le> mo \<and> mo \<le> 12 \<and> 1 \<le> d \<and> d \<le> month_lengths (int y) ! (mo - 1)
         \<and> h < 24 \<and> mi < 60 \<and> s < 60 then
        Some ((days_before_year (int y) + int (sum_list (take (mo - 1) (month_lengths (int y))))
                + int d - 1) * day_ns
              + (int h * 3600 + int mi * 60 + int s - zone) * second_ns + int ns)
      else None)"

definition parse_time :: "string \<Rightarrow> time option" where
  "parse_time t =
     (if length t < 20 \<or> t ! 4 \<noteq> CHR ''-'' \<or> t ! 7 \<noteq> CHR ''-'' \<or> t ! 10 \<noteq> CHR ''T''
         \<or> t ! 13 \<noteq> CHR '':'' \<or> t ! 16 \<noteq> CHR '':'' then None
      else
        (case (parse_num (take 4 t), parse_num (take 2 (drop 5 t)), parse_num (take 2 (drop 8 t)),
               parse_num (take 2 (drop 11 t)), parse_num (take 2 (drop 14 t)),
               parse_num (take 2 (drop 17 t)), parse_frac (drop 19 t)) of
           (Some y, Some mo, Some d, Some h, Some mi, Some s, Some (ns, r)) \<Rightarrow>
             (case parse_zone r of Some z \<Rightarrow> mk_time y mo d h mi s ns z | None \<Rightarrow> None)
         | _ \<Rightarrow> None))"

subsection \<open>The round trip\<close>

lemma length_pad_digits [simp]: "length (pad_digits w n) = w"
  by (simp add: pad_digits_def)

lemma pad_digits_all [simp]: "list_all is_digit (pad_digits w n)"
  by (simp add: pad_digits_def list_all_iff)

lemma pad_digits_Suc: "pad_digits (Suc w) n = pad_digits w (n div 10) @ [digit_char (n mod 10)]"
proof -
  have "map (\<lambda>i. digit_char (n div 10 ^ (w - i) mod 10)) [0..<w] =
        map (\<lambda>i. digit_char (n div 10 div 10 ^ (w - 1 - i) mod 10)) [0..<w]"
  proof (rule map_cong)
    fix i assume "i \<in> set [0..<w]"
    then have "w - i = Suc (w - 1 - i)" by auto
    then show "digit_char (n div 10 ^ (w - i) mod 10) =
               digit_char (n div 10 div 10 ^ (w - 1 - i) mod 10)"
      by (simp add: div_mult2_eq)
  qed simp
  then show ?thesis by (simp add: pad_digits_def)
qed

lemma digits_val_pad: "n < 10 ^ w \<Longrightarrow> digits_val (pad_digits w n) = n"
proof (induction w arbitrary: n)
  case 0
  then show ?case by (simp add: pad_digits_def digits_val_def)
next
  case (Suc w)
  then have "n div 10 < 10 ^ w" by (simp add: less_mult_imp_div_less mult.commute)
  with Suc.IH show ?case by (simp add: pad_digits_Suc digits_val_snoc)
qed

lemma parse_num_pad [simp]: "0 < w \<Longrightarrow> n < 10 ^ w \<Longrightarrow> parse_num (pad_digits w n) = Some n"
  using length_pad_digits[of w n] unfolding parse_num_def
  by (metis digits_val_pad length_greater_0_conv pad_digits_all)

lemma trim_zeros_pad: "trim_zeros s @ replicate (length s - length (trim_zeros s)) (CHR ''0'') = s"
proof -
  define z where "z = takeWhile (\<lambda>c. c = CHR ''0'') (rev s)"
  have s: "s = trim_zeros s @ rev z"
    unfolding z_def trim_zeros_def by (metis rev_append rev_rev_ident takeWhile_dropWhile_id)
  have "\<forall>c \<in> set z. c = CHR ''0''" by (auto simp: z_def dest: set_takeWhileD)
  then have "rev z = replicate (length z) (CHR ''0'')"
    by (metis length_rev replicate_eqI set_rev)
  moreover have "length s - length (trim_zeros s) = length z"
    using arg_cong[OF s, of length] by simp
  ultimately show ?thesis using s by simp
qed

lemma trim_zeros_digits: "list_all is_digit s \<Longrightarrow> list_all is_digit (trim_zeros s)"
  by (metis list_all_append trim_zeros_pad)

lemma length_trim_zeros: "length (trim_zeros s) \<le> length s"
  by (metis le_add1 length_append trim_zeros_pad)

lemma frac_ns_trim: "n < 10 ^ 9 \<Longrightarrow> frac_ns (trim_zeros (pad_digits 9 n)) = n"
proof -
  assume n: "n < 10 ^ 9"
  define s where "s = pad_digits 9 n"
  have len: "length s = 9" by (simp add: s_def)
  let ?k = "9 - length (trim_zeros s)"
  have "length (trim_zeros s) \<le> 9" using length_trim_zeros[of s] len by simp
  then have "take 9 (trim_zeros s @ replicate 9 (CHR ''0'')) =
      trim_zeros s @ replicate ?k (CHR ''0'')" by simp
  also have "\<dots> = s" using trim_zeros_pad[of s] len by simp
  finally show ?thesis using n by (simp add: frac_ns_def digits_val_pad s_def)
qed

lemma trim_zeros_nonempty: "0 < n \<Longrightarrow> n < 10 ^ 9 \<Longrightarrow> trim_zeros (pad_digits 9 n) \<noteq> []"
proof
  assume n: "0 < n" "n < 10 ^ 9" and "trim_zeros (pad_digits 9 n) = []"
  then have "frac_ns [] = n" using frac_ns_trim[of n] by simp
  moreover have "frac_ns [] = 0" 
    by (simp add: frac_ns_def digits_val_def digit_val_def numeral_eq_Suc)
  ultimately show False using n by simp
qed

lemma parse_frac_format:
  assumes "ns < 10 ^ 9"
  shows "parse_frac (format_frac ns @ ''Z'') = Some (ns, ''Z'')"
proof (cases "ns = 0")
  case True
  then show ?thesis by (simp add: parse_frac_def format_frac_def)
next
  case False
  define t where "t = trim_zeros (pad_digits 9 ns)"
  have "list_all is_digit t" by (simp add: t_def trim_zeros_digits)
  moreover have "\<not> is_digit (CHR ''Z'')" by (simp add: is_digit_def)
  ultimately have "takeWhile is_digit (t @ ''Z'') = t"
    by (simp add: list_all_iff)
  moreover have "t \<noteq> []" using False assms trim_zeros_nonempty by (simp add: t_def)
  ultimately show ?thesis
    using False assms frac_ns_trim[of ns]
    by (simp add: parse_frac_def format_frac_def t_def[symmetric] Let_def)
qed

lemma format_time_split:
  assumes "length a = 4" "length b = 2" "length c = 2" "length d = 2" "length e = 2" "length f = 2"
    and "parse_frac r = Some (ns, ''Z'')" and "r \<noteq> []"
  shows "parse_time (a @ CHR ''-'' # b @ CHR ''-'' # c @ CHR ''T'' # d @ CHR '':'' # e
      @ CHR '':'' # f @ r) =
    (case (parse_num a, parse_num b, parse_num c, parse_num d, parse_num e, parse_num f) of
       (Some y, Some mo, Some dd, Some h, Some mi, Some s) \<Rightarrow> mk_time y mo dd h mi s ns 0
     | _ \<Rightarrow> None)"
proof -
  have "Suc 0 \<le> length r" using assms(8) by (cases r) auto
  then show ?thesis
    using assms(1-7)
    by (auto simp: parse_time_def nth_append parse_zone_def split: option.split)
qed

lemma parse_format_time:
  assumes "valid_year t"
  shows "parse_time (format_time t) = Some t"
proof -
  define day ns y where "day = t div day_ns" and "ns = nat (t mod day_ns)" and "y = year_of_day day"
  define doy where "doy = nat (day - days_before_year y)"
  obtain m d where md: "split_months (month_lengths y) doy = (m, d)" by fastforce
  have y: "0 \<le> y" "y \<le> 9999" using assms by (simp_all add: valid_year_def y_def day_def)
  have doy: "int doy = day - days_before_year y" "doy < sum_list (month_lengths y)"
    using year_of_day_bounds[of day] days_before_year_Suc[of y]
    by (auto simp: doy_def y_def sum_month_lengths)
  have M: "m < 12" "d < month_lengths y ! m" "sum_list (take m (month_lengths y)) + d = doy"
    using split_months_sum[OF doy(2) md] by (simp_all add: month_lengths_def)
  have d: "d < 31" using M(1,2) by (auto simp: month_lengths_def less_Suc_eq numeral_eq_Suc split: if_splits)
  have t: "t = day * day_ns + int ns" by (simp add: day_def ns_def)
  have ns: "ns < 86400000000000" by (simp add: ns_def nat_less_iff)
  define s where "s = ns div 1000000000"
  have s: "s < 86400" using ns by (simp add: s_def less_mult_imp_div_less)
  have hms: "s div 3600 < 24" "s div 60 mod 60 < 60" "s mod 60 < 60"
    using s by (simp_all add: less_mult_imp_div_less)
  have s_eq: "s div 3600 * 3600 + s div 60 mod 60 * 60 + s mod 60 = s"
  proof -
    have "s div 3600 = s div 60 div 60" by (simp add: div_mult2_eq[symmetric])
    moreover have "s div 60 div 60 * 60 + s div 60 mod 60 = s div 60" by simp
    moreover have "s div 60 * 60 + s mod 60 = s" by simp
    ultimately show ?thesis by linarith
  qed
  have "parse_time (format_time t) =
      mk_time (nat y) (m + 1) (d + 1) (s div 3600) (s div 60 mod 60) (s mod 60) (ns mod 1000000000) 0"
    using y M(1) d hms parse_frac_format[of "ns mod 1000000000"]
    by (simp add: format_time_def day_def[symmetric] y_def[symmetric] doy_def[symmetric] md
        ns_def[symmetric] s_def[symmetric] format_time_split Let_def)
  also have "\<dots> = Some ((days_before_year y + int doy) * day_ns
      + int (s div 3600 * 3600 + s div 60 mod 60 * 60 + s mod 60) * second_ns + int (ns mod 1000000000))"
    using y M hms by (auto simp: mk_time_def algebra_simps)
  also have "\<dots> = Some (day * day_ns + (int s * second_ns + int (ns mod 1000000000)))"
    by (simp only: s_eq doy) simp
  also have "int s * second_ns + int (ns mod 1000000000) = int ns"
    by (metis div_mult_mod_eq of_nat_add of_nat_mult of_nat_numeral s_def)
  finally show ?thesis using t by simp
qed

end
