(* ===== verification/GoJson.thy ===== *)
theory GoJson
  imports GoTime
begin

text \<open>
  What the program uses of \<open>encoding/json\<close>: JSON values, the float64 that an untyped number
  decodes to, \<open>json.RawMessage\<close>, and the field decoders and encoders of typed structs.

  The text layer is not modelled: a JSON text is the value it denotes (strings are valid UTF-8,
  so the text round trip keeps them). A number literal keeps its digits: \<open>JNum m k\<close> denotes
  \<open>m / 10 ^ k\<close>, and \<open>k = 0\<close> says the literal has neither fraction nor exponent, which is what
  decides whether it may be decoded into an integer field. Keys are matched exactly. A
  \<open>json.RawMessage\<close> is empty, malformed text, or a value.
\<close>

datatype json =
    JNull
  | JBool bool
  | JNum int nat
  | JStr string
  | JArr "json list"
  | JObj "(string \<times> json) list"

datatype raw = RNil | RBad | RJson json

section \<open>float64\<close>

text \<open>
  A finite float64 is \<open>(q, e)\<close>, the number \<open>q * 2 ^ e\<close>. A literal rounds to the nearest one
  with a 53-bit significand, ties to even; one too large for a float64 is an error.
\<close>

type_synonym f64 = "int \<times> int"

fun bit_len :: "nat \<Rightarrow> nat" where
  "bit_len n = (if n = 0 then 0 else Suc (bit_len (n div 2)))"

declare bit_len.simps [simp del]

definition scale2 :: "nat \<Rightarrow> nat \<Rightarrow> int \<Rightarrow> nat \<times> nat" where
  "scale2 n d e = (if 0 \<le> e then (n, d * 2 ^ nat e) else (n * 2 ^ nat (- e), d))"

definition round_half_even :: "nat \<Rightarrow> nat \<Rightarrow> nat" where
  "round_half_even n d =
     (let q = n div d; r = n mod d
      in if 2 * r < d then q else if d < 2 * r then q + 1 else q + q mod 2)"

definition f64_exponent :: "nat \<Rightarrow> nat \<Rightarrow> int" where
  "f64_exponent n d =
     (let e = int (bit_len n) - int (bit_len d) - 53; (a, b) = scale2 n d e
      in max (-1074) (if 2 ^ 53 * b \<le> a then e + 1 else e))"

definition f64_of_ratio :: "nat \<Rightarrow> nat \<Rightarrow> nat \<times> int" where
  "f64_of_ratio n d =
     (if n = 0 then (0, 0)
      else (let e = f64_exponent n d; (a, b) = scale2 n d e in (round_half_even a b, e)))"

definition f64_of_num :: "int \<Rightarrow> nat \<Rightarrow> f64 option" where
  "f64_of_num m k =
     (let (q, e) = f64_of_ratio (nat \<bar>m\<bar>) (10 ^ k)
      in if 971 < e \<or> (e = 971 \<and> 2 ^ 53 \<le> q) then None else Some (sgn m * int q, e))"

definition f64_trunc :: "f64 \<Rightarrow> int" where
  "f64_trunc f = (case f of (q, e) \<Rightarrow>
     if 0 \<le> e then q * 2 ^ nat e else sgn q * (\<bar>q\<bar> div 2 ^ nat (- e)))"

text \<open>
  \<open>int64(x)\<close> of a float64 out of the int64 range is implementation-specific in Go; the model
  takes the amd64 result, the least int64.
\<close>

definition f64_to_i64 :: "f64 \<Rightarrow> i64" where
  "f64_to_i64 f = (let v = f64_trunc f in word_of_int (if in_i64 v then v else - (2 ^ 63)))"

lemma f64_trunc_scaled: "f64_trunc (sgn m * int (nat \<bar>m\<bar> * 2 ^ j), - int j) = m"
proof (cases "j = 0")
  case True
  then show ?thesis by (simp add: f64_trunc_def mult_sgn_abs)
next
  case False
  then have "f64_trunc (sgn m * int (nat \<bar>m\<bar> * 2 ^ j), - int j) =
      sgn (sgn m * (\<bar>m\<bar> * 2 ^ j)) * (\<bar>sgn m * (\<bar>m\<bar> * 2 ^ j)\<bar> div 2 ^ j)"
    by (simp add: f64_trunc_def)
  also have "\<dots> = sgn m * \<bar>m\<bar>" by (cases "m = 0") (simp_all add: abs_mult sgn_mult)
  finally show ?thesis by (simp add: sgn_mult_abs)
qed

lemma bit_len_bounds: "0 < n \<Longrightarrow> 2 ^ (bit_len n - 1) \<le> n \<and> n < 2 ^ bit_len n \<and> 0 < bit_len n"
proof (induction n rule: bit_len.induct)
  case (1 n)
  show ?case
  proof (cases "n div 2 = 0")
    case True
    with 1(2) have "n = 1" by simp
    then show ?thesis by (simp add: bit_len.simps)
  next
    case False
    with 1 have IH: "2 ^ (bit_len (n div 2) - 1) \<le> n div 2" "n div 2 < 2 ^ bit_len (n div 2)"
      "0 < bit_len (n div 2)" by simp_all
    then obtain b where b: "bit_len (n div 2) = Suc b" by (cases "bit_len (n div 2)") auto
    moreover have "bit_len n = Suc (bit_len (n div 2))" using 1(2) by (subst bit_len.simps) simp
    moreover have "n = 2 * (n div 2) + n mod 2" "n mod 2 < 2" by simp_all
    ultimately show ?thesis using IH by simp linarith
  qed
qed

lemma bit_len_le: "n < 2 ^ k \<Longrightarrow> bit_len n \<le> k"
proof (rule ccontr)
  assume n: "n < 2 ^ k" and "\<not> bit_len n \<le> k"
  then have k: "k \<le> bit_len n - 1" by simp
  have "0 < n" using \<open>\<not> bit_len n \<le> k\<close> by (cases n) (simp_all add: bit_len.simps)
  then have "2 ^ (bit_len n - 1) \<le> n" using bit_len_bounds by blast
  moreover have "(2 :: nat) ^ k \<le> 2 ^ (bit_len n - 1)" using k by (rule power_increasing) simp
  ultimately show False using n by linarith
qed

text \<open>Integers of at most 53 bits are float64 values: decoding them loses nothing.\<close>

lemma f64_of_small_int:
  assumes "\<bar>m\<bar> \<le> 2 ^ 53"
  shows "\<exists>f. f64_of_num m 0 = Some f \<and> f64_trunc f = m"
proof (cases "m = 0")
  case True
  then show ?thesis by (simp add: f64_of_num_def f64_of_ratio_def f64_trunc_def)
next
  case False
  define n where "n = nat \<bar>m\<bar>"
  have n: "0 < n" "n \<le> 2 ^ 53" using assms False by (simp_all add: n_def nat_le_iff)
  have L: "2 ^ (bit_len n - 1) \<le> n" "n < 2 ^ bit_len n" "0 < bit_len n"
    using bit_len_bounds[OF n(1)] by auto
  have "bit_len n \<le> 54" by (rule bit_len_le) (use n(2) in simp)
  have one: "bit_len 1 = 1" by (simp add: bit_len.simps)
  define e0 where "e0 = int (bit_len n) - 54"
  have e0: "scale2 n 1 e0 = (n * 2 ^ (54 - bit_len n), 1)"
    using \<open>bit_len n \<le> 54\<close> by (auto simp: scale2_def e0_def nat_diff_distrib)
  have big: "2 ^ 53 \<le> n * 2 ^ (54 - bit_len n)"
  proof -
    have "(2 :: nat) ^ 53 = 2 ^ (bit_len n - 1) * 2 ^ (54 - bit_len n)"
      using L(3) \<open>bit_len n \<le> 54\<close> by (simp flip: power_add)
    also have "\<dots> \<le> n * 2 ^ (54 - bit_len n)" using L(1) by (rule mult_right_mono) simp
    finally show ?thesis .
  qed
  have "int (bit_len n) - int (bit_len 1) - 53 = e0" by (simp only: one e0_def)
  then have "f64_exponent n 1 = max (-1074) (e0 + 1)"
    unfolding f64_exponent_def Let_def using big by (simp only: e0 prod.case mult_1_right if_True)
  then have e: "f64_exponent n 1 = e0 + 1" using L(3) by (simp add: e0_def)
  show ?thesis
  proof (cases "bit_len n = 54")
    case True
    then have "n = 2 ^ 53" using L(1) n(2) by simp
    then have "f64_of_ratio n 1 = (2 ^ 52, 1)" using True e
      by (simp add: f64_of_ratio_def e0_def scale2_def round_half_even_def Let_def)
    then have "f64_of_num m 0 = Some (sgn m * 2 ^ 52, 1)"
      by (simp add: f64_of_num_def n_def)
    moreover have "f64_trunc (sgn m * 2 ^ 52, 1) = m"
    proof -
      have "\<bar>m\<bar> = 2 ^ 53" using \<open>n = 2 ^ 53\<close> by (simp add: n_def nat_eq_iff)
      then show ?thesis using sgn_mult_abs[of m] by (simp add: f64_trunc_def)
    qed
    ultimately show ?thesis by blast
  next
    case False
    with \<open>bit_len n \<le> 54\<close> have "bit_len n \<le> 53" by simp
    then have s: "scale2 n 1 (e0 + 1) = (n * 2 ^ (53 - bit_len n), 1)"
      by (auto simp: scale2_def e0_def nat_diff_distrib)
    then have "f64_of_ratio n 1 = (n * 2 ^ (53 - bit_len n), e0 + 1)"
      using n(1) e by (simp add: f64_of_ratio_def round_half_even_def Let_def)
    then have f: "f64_of_num m 0 = Some (sgn m * int (n * 2 ^ (53 - bit_len n)), e0 + 1)"
      using \<open>bit_len n \<le> 53\<close> by (simp add: f64_of_num_def n_def e0_def)
    have "f64_trunc (sgn m * int (n * 2 ^ (53 - bit_len n)), e0 + 1) = m"
      using f64_trunc_scaled[of m "53 - bit_len n"] \<open>bit_len n \<le> 53\<close>
      by (simp add: n_def[symmetric] e0_def)
    with f show ?thesis by blast
  qed
qed

lemma in_i64_small: "\<bar>m\<bar> \<le> 2 ^ 53 \<Longrightarrow> in_i64 m"
  unfolding in_i64_def abs_le_iff by simp

text \<open>An int64 that \<open>json.Marshal\<close> prints and an untyped decode reads back through float64.\<close>

lemma f64_i64_roundtrip:
  assumes "\<bar>m\<bar> \<le> 2 ^ 53"
  shows "map_option f64_to_i64 (f64_of_num m 0) = Some (word_of_int m)"
  using f64_of_small_int[OF assms] in_i64_small[OF assms] by (auto simp: f64_to_i64_def)

section \<open>Objects and payloads\<close>

text \<open>A repeated key: the last one wins.\<close>

fun jget :: "(string \<times> json) list \<Rightarrow> string \<Rightarrow> json option" where
  "jget [] k = None"
| "jget ((k', v) # o1) k =
     (case jget o1 k of Some w \<Rightarrow> Some w | None \<Rightarrow> if k' = k then Some v else None)"

lemma jget_append [simp]:
  "jget (a @ b) k = (case jget b k of Some w \<Rightarrow> Some w | None \<Rightarrow> jget a k)"
  by (induction a) (auto split: option.splits)

lemma jget_map_of: "jget o1 k = map_of (rev o1) k"
  by (induction o1) (auto simp: map_add_def split: option.splits)

text \<open>
  \<open>p := map[string]any{}; if len(payload) > 0 { _ = json.Unmarshal(payload, &p) }\<close>: anything but
  an object leaves the map empty. A lookup of an absent key is nil, like the JSON \<open>null\<close>.
\<close>

type_synonym payload = "string \<rightharpoonup> json"

definition payload_map :: "raw \<Rightarrow> payload" where
  "payload_map r = (case r of RJson (JObj o1) \<Rightarrow> jget o1 | _ \<Rightarrow> Map.empty)"

definition pget :: "payload \<Rightarrow> string \<Rightarrow> json" where
  "pget p k = (case p k of Some v \<Rightarrow> v | None \<Rightarrow> JNull)"

definition as_string :: "json \<Rightarrow> string option" where
  "as_string j = (case j of JStr s \<Rightarrow> Some s | _ \<Rightarrow> None)"

definition as_bool :: "json \<Rightarrow> bool option" where
  "as_bool j = (case j of JBool b \<Rightarrow> Some b | _ \<Rightarrow> None)"

definition as_float64 :: "json \<Rightarrow> f64 option" where
  "as_float64 j = (case j of JNum m k \<Rightarrow> f64_of_num m k | _ \<Rightarrow> None)"

definition as_map :: "json \<Rightarrow> payload option" where
  "as_map j = (case j of JObj o1 \<Rightarrow> Some (jget o1) | _ \<Rightarrow> None)"

definition as_array :: "json \<Rightarrow> json list option" where
  "as_array j = (case j of JArr xs \<Rightarrow> Some xs | _ \<Rightarrow> None)"

lemma payload_map_simps [simp]:
  "payload_map RNil = Map.empty" "payload_map RBad = Map.empty"
  "payload_map (RJson JNull) = Map.empty" "payload_map (RJson (JObj o1)) = jget o1"
  by (simp_all add: payload_map_def)

lemma as_string_simps [simp]:
  "as_string (JStr s) = Some s" "as_string JNull = None" "as_string (JBool b) = None"
  "as_string (JNum m k) = None" "as_string (JArr xs) = None" "as_string (JObj o1) = None"
  by (simp_all add: as_string_def)

lemma as_float64_simps [simp]:
  "as_float64 (JNum m k) = f64_of_num m k" "as_float64 (JStr s) = None" "as_float64 JNull = None"
  by (simp_all add: as_float64_def)

text \<open>
  An untyped decode (\<open>map[string]any\<close>) fails on a number no float64 holds. Marshalling such a map
  again writes its numbers from their float64 and its keys sorted, the last value of a repeated key;
  \<open>f64_json\<close> writes the exact decimal of the float64, where Go writes the shortest decimal that
  reads back as the same float64.
\<close>

definition f64_json :: "f64 \<Rightarrow> json" where
  "f64_json f = (case f of (q, e) \<Rightarrow>
     if 0 \<le> e then JNum (q * 2 ^ nat e) 0 else JNum (q * 5 ^ nat (- e)) (nat (- e)))"

primrec floats_ok :: "json \<Rightarrow> bool" where
  "floats_ok JNull = True"
| "floats_ok (JBool b) = True"
| "floats_ok (JNum m k) = (f64_of_num m k \<noteq> None)"
| "floats_ok (JStr s) = True"
| "floats_ok (JArr xs) = list_all id (map floats_ok xs)"
| "floats_ok (JObj kvs) = list_all snd (map (map_prod id floats_ok) kvs)"

primrec reencode :: "json \<Rightarrow> json" where
  "reencode JNull = JNull"
| "reencode (JBool b) = JBool b"
| "reencode (JNum m k) = (case f64_of_num m k of Some f \<Rightarrow> f64_json f | None \<Rightarrow> JNull)"
| "reencode (JStr s) = JStr s"
| "reencode (JArr xs) = JArr (map reencode xs)"
| "reencode (JObj kvs) = JObj (fm_items (fm_of_items (map (map_prod id reencode) kvs)))"

text \<open>\<open>var m map[string]any; json.Unmarshal(body, &m)\<close>: the object, empty for \<open>null\<close>, or an error.\<close>

definition dec_any_map :: "raw \<Rightarrow> (string \<times> json) list option" where
  "dec_any_map body =
     (case body of
        RJson JNull \<Rightarrow> Some []
      | RJson (JObj o1) \<Rightarrow> if floats_ok (JObj o1) then Some o1 else None
      | _ \<Rightarrow> None)"

section \<open>Typed decoding and encoding\<close>

text \<open>
  Decoding a JSON value into a typed field gives the field's value and whether it went without an
  error; \<open>null\<close> (and an absent key) leaves the zero value, a value of another kind is an error.
\<close>

type_synonym 'a decoded = "'a \<times> bool"

definition dec_string :: "json \<Rightarrow> string decoded" where
  "dec_string j = (case j of JNull \<Rightarrow> ([], True) | JStr s \<Rightarrow> (s, True) | _ \<Rightarrow> ([], False))"

definition dec_bool :: "json \<Rightarrow> bool decoded" where
  "dec_bool j = (case j of JNull \<Rightarrow> (False, True) | JBool b \<Rightarrow> (b, True) | _ \<Rightarrow> (False, False))"

definition dec_i64 :: "json \<Rightarrow> i64 decoded" where
  "dec_i64 j =
     (case j of
        JNull \<Rightarrow> (0, True)
      | JNum m k \<Rightarrow> if k = 0 \<and> in_i64 m then (word_of_int m, True) else (0, False)
      | _ \<Rightarrow> (0, False))"

definition dec_time :: "json \<Rightarrow> time decoded" where
  "dec_time j =
     (case j of
        JNull \<Rightarrow> (0, True)
      | JStr s \<Rightarrow> (case parse_time s of Some t \<Rightarrow> (t, True) | None \<Rightarrow> (0, False))
      | _ \<Rightarrow> (0, False))"

definition dec_list :: "(json \<Rightarrow> 'a decoded) \<Rightarrow> json \<Rightarrow> 'a list decoded" where
  "dec_list d j =
     (case j of
        JNull \<Rightarrow> ([], True)
      | JArr xs \<Rightarrow> (map (fst \<circ> d) xs, list_all (snd \<circ> d) xs)
      | _ \<Rightarrow> ([], False))"

definition dec_map :: "(json \<Rightarrow> 'a decoded) \<Rightarrow> json \<Rightarrow> (string, 'a) fmap decoded" where
  "dec_map d j =
     (case j of
        JNull \<Rightarrow> (fmempty, True)
      | JObj kvs \<Rightarrow> (fm_of_items (map (\<lambda>(k, v). (k, fst (d v))) kvs), list_all (snd \<circ> d \<circ> snd) kvs)
      | _ \<Rightarrow> (fmempty, False))"

text \<open>A struct decoder reads its fields from an object: \<open>jfield\<close> is \<open>null\<close> for an absent key.\<close>

definition jfield :: "(string \<times> json) list \<Rightarrow> string \<Rightarrow> json" where
  "jfield o1 k = (case jget o1 k of Some v \<Rightarrow> v | None \<Rightarrow> JNull)"

definition dec_struct :: "((string \<Rightarrow> json) \<Rightarrow> 'a decoded) \<Rightarrow> json \<Rightarrow> 'a decoded" where
  "dec_struct d j =
     (case j of
        JNull \<Rightarrow> d (\<lambda>_. JNull)
      | JObj o1 \<Rightarrow> d (jfield o1)
      | _ \<Rightarrow> (fst (d (\<lambda>_. JNull)), False))"

definition enc_i64 :: "i64 \<Rightarrow> json" where
  "enc_i64 w = JNum (sint w) 0"

definition enc_time :: "time \<Rightarrow> json option" where
  "enc_time t = map_option JStr (marshal_time_text t)"

text \<open>A field tagged \<open>omitempty\<close> is left out when its value is empty.\<close>

definition opt_field :: "bool \<Rightarrow> string \<Rightarrow> json \<Rightarrow> (string \<times> json) list" where
  "opt_field present k v = (if present then [(k, v)] else [])"

definition opt_string :: "string \<Rightarrow> string \<Rightarrow> (string \<times> json) list" where
  "opt_string k s = opt_field (s \<noteq> []) k (JStr s)"

definition opt_i64 :: "string \<Rightarrow> i64 \<Rightarrow> (string \<times> json) list" where
  "opt_i64 k w = opt_field (w \<noteq> 0) k (enc_i64 w)"

definition opt_list :: "string \<Rightarrow> json list \<Rightarrow> (string \<times> json) list" where
  "opt_list k xs = opt_field (xs \<noteq> []) k (JArr xs)"

lemma dec_string_simps [codec_simps]: "dec_string (JStr s) = (s, True)" "dec_string JNull = ([], True)"
  by (simp_all add: dec_string_def)

lemma dec_bool_simps [codec_simps]: "dec_bool (JBool b) = (b, True)" "dec_bool JNull = (False, True)"
  by (simp_all add: dec_bool_def)

lemma dec_i64_simps [codec_simps]: "dec_i64 (enc_i64 w) = (w, True)" "dec_i64 JNull = (0, True)"
  by (simp_all add: dec_i64_def enc_i64_def)

lemma enc_time_valid: "enc_time t = (if valid_year t then Some (JStr (format_time t)) else None)"
  by (simp add: enc_time_def marshal_time_text_def)

lemma dec_time_simps [codec_simps]:
  "valid_year t \<Longrightarrow> dec_time (JStr (format_time t)) = (t, True)" "dec_time JNull = (0, True)"
  by (simp_all add: dec_time_def parse_format_time)

lemma dec_list_simps [codec_simps]:
  "dec_list d (JArr xs) = (map (fst \<circ> d) xs, list_all (snd \<circ> d) xs)" "dec_list d JNull = ([], True)"
  by (simp_all add: dec_list_def)

lemma dec_struct_simps [codec_simps]: "dec_struct d (JObj o1) = d (jfield o1)"
  by (simp add: dec_struct_def)

lemma jget_opt [codec_simps]:
  "jget (opt_string k' s) k = (if k' = k \<and> s \<noteq> [] then Some (JStr s) else None)"
  "jget (opt_i64 k' w) k = (if k' = k \<and> w \<noteq> 0 then Some (enc_i64 w) else None)"
  "jget (opt_list k' xs) k = (if k' = k \<and> xs \<noteq> [] then Some (JArr xs) else None)"
  "jget (opt_field b k' v) k = (if k' = k \<and> b then Some v else None)"
  by (simp_all add: opt_string_def opt_i64_def opt_list_def opt_field_def)

text \<open>What a decoder reads back of a field that the encoder left out when it was empty.\<close>

lemma dec_opt [codec_simps]:
  "dec_string (case (if c \<and> s \<noteq> [] then Some (JStr s) else None) of Some v \<Rightarrow> v | None \<Rightarrow> JNull) =
     (if c then s else [], True)"
  "dec_i64 (case (if c \<and> w \<noteq> 0 then Some (enc_i64 w) else None) of Some v \<Rightarrow> v | None \<Rightarrow> JNull) =
     (if c then w else 0, True)"
  by (auto simp: codec_simps)

section \<open>Raw messages\<close>

text \<open>
  \<open>var s T; if len(raw) > 0 { err = json.Unmarshal(raw, &s) }\<close>, and \<open>return json.Marshal(s)\<close>.
\<close>

definition load_raw :: "(json \<Rightarrow> 'a decoded) \<Rightarrow> raw \<Rightarrow> 'a decoded" where
  "load_raw d r =
     (case r of
        RNil \<Rightarrow> (fst (d JNull), True)
      | RBad \<Rightarrow> (fst (d JNull), False)
      | RJson j \<Rightarrow> d j)"

definition marshal_error :: gerr where
  "marshal_error = ErrMsg ''json: error calling MarshalJSON for type time.Time''"

definition unmarshal_error :: gerr where
  "unmarshal_error = ErrMsg ''json: cannot unmarshal''"

definition marshal_result :: "json option \<Rightarrow> raw \<times> gerr option" where
  "marshal_result r = (case r of Some j \<Rightarrow> (RJson j, None) | None \<Rightarrow> (RNil, Some marshal_error))"

lemma load_raw_simps [codec_simps]: "load_raw d RNil = (fst (d JNull), True)" "load_raw d (RJson j) = d j"
  by (simp_all add: load_raw_def)

lemma map_fst_enc [codec_simps]:
  assumes "\<And>x. x \<in> set xs \<Longrightarrow> d (enc x) = (x, True)"
  shows "map (fst \<circ> d) (map enc xs) = xs" "list_all (snd \<circ> d) (map enc xs)"
  using assms by (induction xs) auto

lemma those_map_Some: "those (map f xs) = Some ys \<longleftrightarrow> map f xs = map Some ys"
proof (induction xs arbitrary: ys)
  case (Cons x xs)
  then show ?case by (cases ys) (auto split: option.splits)
qed auto

lemma those_map_if:
  "those (map (\<lambda>x. if P x then Some (f x) else None) xs) =
     (if list_all P xs then Some (map f xs) else None)"
  by (induction xs) auto

end
