(* ===== verification/CoreTypes.thy ===== *)
theory CoreTypes
  imports GoJson
begin

text \<open>
  Package \<open>internal/core\<close>: events, topic bookkeeping, the seeds of a subscription (\<open>event.go\<close>,
  \<open>sub.go\<close>) and the topic grammar (\<open>topic.go\<close>). The main results: a topic that
  \<open>ValidateTopic\<close> accepts is exactly one of the documented form (\<open>validate_topic_grammar\<close>), and
  \<open>ParseObjectType\<close> finds its first segment (\<open>parse_object_type_valid\<close>).
\<close>

section \<open>Data\<close>

record event =
  ev_id :: string
  ev_topic :: string
  ev_type :: string
  ev_seq :: nat
  ev_at :: time
  ev_actor :: string
  ev_payload :: raw
  ev_state :: raw

record topic_meta =
  tm_topic :: string
  tm_object_type :: string
  tm_ttl :: i64
  tm_created_at :: time
  tm_last_event_at :: time
  tm_last_seq :: nat

datatype from_kind = FromLatest | FromLastN | FromSeq

record from_spec =
  fr_kind :: from_kind
  fr_value :: nat

definition Latest :: from_spec where
  "Latest = \<lparr>fr_kind = FromLatest, fr_value = 0\<rparr>"

definition LastN :: "nat \<Rightarrow> from_spec" where
  "LastN n = \<lparr>fr_kind = FromLastN, fr_value = n\<rparr>"

definition Seq :: "nat \<Rightarrow> from_spec" where
  "Seq s = \<lparr>fr_kind = FromSeq, fr_value = s\<rparr>"

text \<open>A published event as a caller builds it: no id, sequence number or state yet.\<close>

definition new_event :: "string \<Rightarrow> string \<Rightarrow> string \<Rightarrow> raw \<Rightarrow> time \<Rightarrow> event" where
  "new_event topic typ actor payload now =
     \<lparr>ev_id = [], ev_topic = topic, ev_type = typ, ev_seq = 0, ev_at = now, ev_actor = actor,
      ev_payload = payload, ev_state = RNil\<rparr>"

section \<open>Topics\<close>

definition parse_object_type :: "string \<Rightarrow> gerr + string" where
  "parse_object_type topic =
     (if topic = [] then Inl ErrInvalidTopic
      else (case index_byte topic (CHR ''/'') of
              None \<Rightarrow> Inl ErrInvalidTopic
            | Some i \<Rightarrow> if i = 0 \<or> i = length topic - 1 then Inl ErrInvalidTopic
                        else Inr (take i topic)))"

text \<open>
  The code ranges over runes; a byte outside ASCII makes a rune the switch refuses, so the check
  is the same byte by byte.
\<close>

definition topic_char :: "char \<Rightarrow> bool" where
  "topic_char c \<longleftrightarrow>
     (let r = (of_char c :: nat)
      in (of_char (CHR ''a'') \<le> r \<and> r \<le> of_char (CHR ''z''))
       \<or> (of_char (CHR ''A'') \<le> r \<and> r \<le> of_char (CHR ''Z''))
       \<or> (of_char (CHR ''0'') \<le> r \<and> r \<le> of_char (CHR ''9''))
       \<or> c = CHR ''-'' \<or> c = CHR ''_'' \<or> c = CHR ''.'')"

fun validate_parts :: "string list \<Rightarrow> gerr option" where
  "validate_parts [] = None"
| "validate_parts (p # ps) =
     (if p = [] then Some ErrInvalidTopic
      else if \<not> list_all topic_char p then Some ErrInvalidTopic
      else validate_parts ps)"

definition validate_topic :: "string \<Rightarrow> gerr option" where
  "validate_topic topic =
     (if topic = [] \<or> 512 < length topic then Some ErrInvalidTopic
      else (let parts = split_on (CHR ''/'') topic
            in if length parts < 2 then Some ErrInvalidTopic else validate_parts parts))"

section \<open>The grammar\<close>

text \<open>The documented form \<open><object_type>/<segment>[/<segment>...]\<close>.\<close>

fun join_segments :: "string list \<Rightarrow> string" where
  "join_segments [] = []"
| "join_segments [p] = p"
| "join_segments (p # q # ps) = p @ CHR ''/'' # join_segments (q # ps)"

definition segment :: "string \<Rightarrow> bool" where
  "segment p \<longleftrightarrow> p \<noteq> [] \<and> list_all topic_char p"

lemma topic_char_slash [simp]: "\<not> topic_char (CHR ''/'')"
  by (simp add: topic_char_def)

lemma is_digit_topic_char: "is_digit c \<Longrightarrow> topic_char c"
  by (simp add: is_digit_def topic_char_def)

lemma segment_no_slash: "segment p \<Longrightarrow> CHR ''/'' \<notin> set p"
  by (auto simp: segment_def list_all_iff)

lemma segment_show_nat: "segment (show_nat n)"
  by (auto simp: segment_def list_all_iff dest: show_nat_digits intro: is_digit_topic_char)

lemma validate_parts_None: "validate_parts ps = None \<longleftrightarrow> list_all segment ps"
  by (induction ps) (auto simp: segment_def)

lemma validate_parts_cases: "validate_parts ps = None \<or> validate_parts ps = Some ErrInvalidTopic"
  by (induction ps) auto

lemma split_join_segments:
  "ps \<noteq> [] \<Longrightarrow> list_all segment ps \<Longrightarrow> split_on (CHR ''/'') (join_segments ps) = ps"
  by (induction ps rule: join_segments.induct)
     (auto simp: split_on_no_sep split_on_append segment_no_slash)

lemma join_split: "join_segments (split_on (CHR ''/'') s) = s"
proof (induction s)
  case (Cons x xs)
  then show ?case
    by (cases "split_on (CHR ''/'') xs" rule: join_segments.cases) auto
qed simp

lemma validate_topic_cases: "validate_topic t = None \<or> validate_topic t = Some ErrInvalidTopic"
  using validate_parts_cases by (auto simp: validate_topic_def Let_def)

lemma validate_topic_iff:
  "validate_topic t = None \<longleftrightarrow>
     (\<exists>ps. 2 \<le> length ps \<and> list_all segment ps \<and> t = join_segments ps \<and> length t \<le> 512)"
  (is "?L \<longleftrightarrow> ?R")
proof
  assume ?L
  then show ?R
    by (intro exI[of _ "split_on (CHR ''/'') t"])
       (auto simp: validate_topic_def Let_def validate_parts_None join_split split: if_splits)
next
  assume ?R
  then obtain ps where ps: "2 \<le> length ps" "list_all segment ps" "t = join_segments ps" "length t \<le> 512"
    by blast
  then obtain p q r where "ps = p # q # r" by (cases ps rule: join_segments.cases) auto
  then have "t \<noteq> []" using ps(3) by simp
  moreover have "split_on (CHR ''/'') t = ps"
    using split_join_segments[of ps] ps by (cases ps) auto
  ultimately show ?L using ps by (simp add: validate_topic_def validate_parts_None)
qed

lemma parse_object_type_join:
  assumes "segment p" "segment q" "list_all segment ps"
  shows "parse_object_type (join_segments (p # q # ps)) = Inr p"
proof -
  have "join_segments (q # ps) \<noteq> []"
    using assms(2) by (cases ps) (auto simp: segment_def)
  moreover have "p \<noteq> []" using assms(1) by (simp add: segment_def)
  ultimately show ?thesis
    by (auto simp: parse_object_type_def index_byte_append segment_no_slash assms(1))
qed

lemma validate_parse:
  assumes "validate_topic t = None"
  shows "parse_object_type t = Inr (takeWhile (\<lambda>c. c \<noteq> CHR ''/'') t)"
    and "segment (takeWhile (\<lambda>c. c \<noteq> CHR ''/'') t)"
proof -
  obtain ps where ps: "2 \<le> length ps" "list_all segment ps" "t = join_segments ps"
    using assms validate_topic_iff by blast
  then obtain p q r where e: "ps = p # q # r" by (cases ps rule: join_segments.cases) auto
  have "takeWhile (\<lambda>c. c \<noteq> CHR ''/'') t = hd (split_on (CHR ''/'') t)" by (simp add: hd_split_on)
  also have "\<dots> = p" using split_join_segments[of ps] ps e by simp
  finally have tw: "takeWhile (\<lambda>c. c \<noteq> CHR ''/'') t = p" .
  then show "parse_object_type t = Inr (takeWhile (\<lambda>c. c \<noteq> CHR ''/'') t)"
    using parse_object_type_join ps e by simp
  show "segment (takeWhile (\<lambda>c. c \<noteq> CHR ''/'') t)" using tw ps e by simp
qed

definition object_type :: "string \<Rightarrow> string" where
  "object_type t = takeWhile (\<lambda>c. c \<noteq> CHR ''/'') t"

lemma parse_object_type_Inr: "parse_object_type t = Inr ot \<Longrightarrow> ot = object_type t"
proof -
  assume "parse_object_type t = Inr ot"
  then obtain i where i: "index_byte t (CHR ''/'') = Some i" "ot = take i t"
    by (auto simp: parse_object_type_def split: if_splits option.splits)
  have "i < length t" "t ! i = CHR ''/''" "CHR ''/'' \<notin> set (take i t)"
    using index_byte_Some[OF i(1)] by auto
  then have "takeWhile (\<lambda>c. c \<noteq> CHR ''/'') t = take i t"
    by (intro takeWhile_eq_take_P_nth) (auto simp: in_set_conv_nth)
  then show ?thesis using i(2) by (simp add: object_type_def)
qed


text \<open>On a topic that \<open>ValidateTopic\<close> accepts \<open>ParseObjectType\<close> succeeds with the first
  segment, which is not empty.\<close>

lemma parse_object_type_valid:
  assumes "validate_topic t = None"
  shows "parse_object_type t = Inr (hd (split_on (CHR ''/'') t)) \<and> segment (hd (split_on (CHR ''/'') t))"
  using validate_parse[OF assms] by (simp add: hd_split_on)

end
