(* ===== verification/Reducers.thy ===== *)
theory Reducers
  imports CoreTypes
begin

text \<open>
  Package \<open>internal/computed\<close> (\<open>reducer.go\<close>) and the shape the reducers of \<open>internal/objtypes\<close>
  share. A reducer loads its state from the stored JSON, steps it by the event and stores it again.
  The locale \<open>json_reducer\<close> states the contract, and proves once that folding events through the
  stored JSON is the same as folding the typed state, an event whose state cannot be marshalled
  being skipped.
\<close>

section \<open>The shape of an \<open>Apply\<close>\<close>

type_synonym reducer = "raw \<Rightarrow> event \<Rightarrow> raw \<times> gerr option"

text \<open>
  The object-type reducers return the stored state and the error when it does not unmarshal; the
  field reducers ignore the error and go on with what was decoded.
\<close>

definition apply_strict ::
    "(json \<Rightarrow> 'a decoded) \<Rightarrow> ('a \<Rightarrow> json option) \<Rightarrow> (event \<Rightarrow> 'a \<Rightarrow> 'a) \<Rightarrow> reducer" where
  "apply_strict d enc step r e =
     (let (s, ok) = load_raw d r
      in if ok then marshal_result (enc (step e s)) else (r, Some unmarshal_error))"

definition apply_lenient ::
    "(json \<Rightarrow> 'a decoded) \<Rightarrow> ('a \<Rightarrow> json option) \<Rightarrow> (event \<Rightarrow> 'a \<Rightarrow> 'a) \<Rightarrow> reducer" where
  "apply_lenient d enc step r e = (let (s, _) = load_raw d r in marshal_result (enc (step e s)))"

text \<open>\<open>getStr\<close> and \<open>getInt\<close>, local to the reducers: a payload field of another kind reads as zero.\<close>

definition get_str :: "payload \<Rightarrow> string \<Rightarrow> string" where
  "get_str p k = (case as_string (pget p k) of Some v \<Rightarrow> v | None \<Rightarrow> [])"

definition get_int :: "payload \<Rightarrow> string \<Rightarrow> i64" where
  "get_int p k = (case as_float64 (pget p k) of Some v \<Rightarrow> f64_to_i64 v | None \<Rightarrow> 0)"

fun add_unique :: "string list \<Rightarrow> string \<Rightarrow> string list" where
  "add_unique xs v = (if v \<in> set xs then xs else xs @ [v])"

definition remove_string :: "string list \<Rightarrow> string \<Rightarrow> string list" where
  "remove_string xs v = filter (\<lambda>x. x \<noteq> v) xs"

lemma add_unique_set [simp]: "set (add_unique xs v) = insert v (set xs)"
  by auto

lemma add_unique_distinct [simp]: "distinct (add_unique xs v) = distinct xs"
  by auto

lemma remove_string_set [simp]: "set (remove_string xs v) = set xs - {v}"
  by (auto simp: remove_string_def)

lemma remove_string_distinct [simp]: "distinct xs \<Longrightarrow> distinct (remove_string xs v)"
  by (simp add: remove_string_def)

declare add_unique.simps [simp del]

section \<open>The registry\<close>

type_synonym registry = "(string, reducer) fmap"

definition registry_register :: "(string \<times> reducer) list \<Rightarrow> registry \<Rightarrow> registry" where
  "registry_register reducers r = foldl (\<lambda>m (ot, red). fmupd ot red m) r reducers"

definition registry_for :: "registry \<Rightarrow> string \<Rightarrow> gerr + reducer" where
  "registry_for r ot = (case fmlookup r ot of None \<Rightarrow> Inl ErrUnknownType | Some red \<Rightarrow> Inr red)"

definition registry_apply :: "registry \<Rightarrow> reducer" where
  "registry_apply r state e =
     (case parse_object_type (ev_topic e) of
        Inl err \<Rightarrow> (state, Some err)
      | Inr ot \<Rightarrow>
          (case registry_for r ot of
             Inl _ \<Rightarrow> (state, None)
           | Inr red \<Rightarrow> red state e))"

lemma registry_apply_type:
  "parse_object_type (ev_topic e) = Inr ot \<Longrightarrow> fmlookup r ot = Some red \<Longrightarrow>
   registry_apply r state e = red state e"
  by (simp add: registry_apply_def registry_for_def)

lemma registry_apply_unknown:
  "parse_object_type (ev_topic e) = Inr ot \<Longrightarrow> fmlookup r ot = None \<Longrightarrow>
   registry_apply r state e = (state, None)"
  by (simp add: registry_apply_def registry_for_def)

section \<open>Folding a stream\<close>

text \<open>What is stored after an event: the new state, or the old one on an error or a nil state.\<close>

definition kept :: "raw \<Rightarrow> raw \<times> gerr option \<Rightarrow> raw" where
  "kept r res = (case res of (next, err) \<Rightarrow> if err = None \<and> next \<noteq> RNil then next else r)"

definition raw_fold :: "reducer \<Rightarrow> raw \<Rightarrow> event list \<Rightarrow> raw" where
  "raw_fold red r es = foldl (\<lambda>r e. kept r (red r e)) r es"

text \<open>The typed step, skipped where the new state has no JSON (a time outside the years 0 to 9999).\<close>

definition typed_step :: "('a \<Rightarrow> json option) \<Rightarrow> (event \<Rightarrow> 'a \<Rightarrow> 'a) \<Rightarrow> event \<Rightarrow> 'a \<Rightarrow> 'a" where
  "typed_step enc step e s = (if enc (step e s) = None then s else step e s)"

definition typed_fold :: "('a \<Rightarrow> json option) \<Rightarrow> (event \<Rightarrow> 'a \<Rightarrow> 'a) \<Rightarrow> 'a \<Rightarrow> event list \<Rightarrow> 'a" where
  "typed_fold enc step s es = foldl (\<lambda>s e. typed_step enc step e s) s es"

text \<open>The stored text \<open>r\<close> stands for the typed state \<open>s\<close>.\<close>

definition stands_for :: "(json \<Rightarrow> 'a decoded) \<Rightarrow> ('a \<Rightarrow> json option) \<Rightarrow> raw \<Rightarrow> 'a \<Rightarrow> bool" where
  "stands_for d enc r s \<longleftrightarrow> (r = RNil \<and> s = fst (d JNull)) \<or> (\<exists>j. enc s = Some j \<and> r = RJson j)"

lemma raw_fold_simps [simp]:
  "raw_fold red r [] = r" "raw_fold red r (e # es) = raw_fold red (kept r (red r e)) es"
  "raw_fold red r (es @ [e]) = kept (raw_fold red r es) (red (raw_fold red r es) e)"
  by (simp_all add: raw_fold_def)

lemma typed_fold_simps [simp]:
  "typed_fold enc step s [] = s"
  "typed_fold enc step s (e # es) = typed_fold enc step (typed_step enc step e s) es"
  "typed_fold enc step s (es @ [e]) = typed_step enc step e (typed_fold enc step s es)"
  by (simp_all add: typed_fold_def)

text \<open>An invariant of the step is one of the fold; where every state has a JSON the fold is plain.\<close>

lemma typed_fold_invariant:
  assumes "P s" "\<And>e s. P s \<Longrightarrow> P (step e s)"
  shows "P (typed_fold enc step s es)"
  using assms(1) by (induction es arbitrary: s) (auto simp: typed_step_def assms(2))

lemma typed_fold_total:
  assumes "\<And>e. e \<in> set es \<Longrightarrow> Q e" "P s" "\<And>e s. P s \<Longrightarrow> Q e \<Longrightarrow> P (step e s)" "\<And>s. P s \<Longrightarrow> enc s \<noteq> None"
  shows "typed_fold enc step s es = foldl (\<lambda>s e. step e s) s es \<and> P (typed_fold enc step s es)"
  using assms(1,2)
proof (induction es arbitrary: s)
  case (Cons e es)
  then have p: "P (step e s)" "enc (step e s) \<noteq> None" using assms(3,4) by simp_all
  then have "typed_step enc step e s = step e s" by (auto simp: typed_step_def)
  then show ?case using Cons.IH[OF _ p(1)] Cons.prems(1) by (auto simp del: foldl_Cons simp: foldl_Cons[of _ s])
qed simp

locale json_reducer =
  fixes d :: "json \<Rightarrow> 'a decoded" and enc :: "'a \<Rightarrow> json option" and step :: "event \<Rightarrow> 'a \<Rightarrow> 'a"
    and apply_fn :: reducer
  assumes roundtrip: "enc s = Some j \<Longrightarrow> d j = (s, True)"
    and applies: "load_raw d r = (s, True) \<Longrightarrow> apply_fn r e = marshal_result (enc (step e s))"
begin

lemma stands_for_load: "stands_for d enc r s \<Longrightarrow> load_raw d r = (s, True)"
  by (auto simp: stands_for_def load_raw_def roundtrip)

lemma apply_stands_for:
  assumes "stands_for d enc r s"
  shows "stands_for d enc (kept r (apply_fn r e)) (typed_step enc step e s)"
  using assms applies[OF stands_for_load[OF assms], of e]
  by (auto simp: kept_def marshal_result_def typed_step_def stands_for_def split: option.splits)

lemma raw_fold_stands_for:
  "stands_for d enc r s \<Longrightarrow> stands_for d enc (raw_fold apply_fn r es) (typed_fold enc step s es)"
  by (induction es arbitrary: r s) (simp_all add: apply_stands_for)

lemma stands_for_unique: "stands_for d enc r s \<Longrightarrow> stands_for d enc r s' \<Longrightarrow> s = s'"
  using stands_for_load by (metis prod.inject)

text \<open>A client that decodes the stored state reads the typed fold of the events.\<close>

lemma load_raw_fold:
  "load_raw d (raw_fold apply_fn RNil es) = (typed_fold enc step (fst (d JNull)) es, True)"
  by (rule stands_for_load, rule raw_fold_stands_for) (simp add: stands_for_def)

end

lemma apply_strict_applies: "load_raw d r = (s, True) \<Longrightarrow> apply_strict d enc step r e = marshal_result (enc (step e s))"
  by (simp add: apply_strict_def)

lemma apply_lenient_applies: "load_raw d r = (s, True) \<Longrightarrow> apply_lenient d enc step r e = marshal_result (enc (step e s))"
  by (simp add: apply_lenient_def)

text \<open>What a decoder meets of the times in an encoded state.\<close>

lemma enc_time_Some: "enc_time t = Some v \<longleftrightarrow> valid_year t \<and> v = JStr (format_time t)"
  by (auto simp: enc_time_valid)

text \<open>How the decoders read an object the encoders built.\<close>

lemmas struct_codec = dec_struct_def jfield_def enc_time_Some codec_simps

lemma valid_year_zero [simp]: "valid_year 0"
  by (simp add: valid_year_def year_of_day_def)

lemma dec_list_those:
  assumes "\<And>x j. enc x = Some j \<Longrightarrow> d j = (x, True)" "those (map enc xs) = Some js"
  shows "dec_list d (JArr js) = (xs, True)"
proof -
  from assms(2) have "map (fst \<circ> d) js = xs \<and> list_all (snd \<circ> d) js"
    by (induction xs arbitrary: js) (auto split: option.splits dest!: assms(1))
  then show ?thesis by (simp add: dec_list_def)
qed

text \<open>A list field that is left out when empty.\<close>

lemma dec_opt_list:
  assumes "\<And>x j. enc x = Some j \<Longrightarrow> d j = (x, True)" "those (map enc xs) = Some js"
  shows "dec_list d (case (if js \<noteq> [] then Some (JArr js) else None) of Some v \<Rightarrow> v | None \<Rightarrow> JNull) = (xs, True)"
  using dec_list_those[OF assms] assms(2)
  by (cases xs) (auto simp: dec_list_def split: option.splits)

lemma dec_opt_strings:
  "dec_list dec_string (case (if xs \<noteq> [] then Some (JArr (map JStr xs)) else None) of Some v \<Rightarrow> v | None \<Rightarrow> JNull)
     = (xs, True)"
  using dec_opt_list[of "\<lambda>x. Some (JStr x)" dec_string xs "map JStr xs"]
  by (simp add: codec_simps those_map_Some)

lemma those_total: "list_all (\<lambda>x. f x \<noteq> None) xs \<Longrightarrow> \<exists>ys. those (map f xs) = Some ys"
  by (induction xs) auto

lemma list_all_cap_tail: "list_all P xs \<Longrightarrow> list_all P (cap_tail n xs)"
  by (auto simp: list_all_iff cap_tail_def dest: in_set_dropD)

section \<open>Last writes\<close>

text \<open>A part of a state that an event either overwrites or leaves alone holds its last write.\<close>

definition last_write :: "('e \<Rightarrow> 'w option) \<Rightarrow> 'w \<Rightarrow> 'e list \<Rightarrow> 'w" where
  "last_write w d es = foldl (\<lambda>v e. case w e of Some x \<Rightarrow> x | None \<Rightarrow> v) d es"

lemma last_write_snoc [simp]:
  "last_write w d (es @ [e]) = (case w e of Some x \<Rightarrow> x | None \<Rightarrow> last_write w d es)"
  "last_write w d [] = d"
  by (simp_all add: last_write_def split: option.split)

lemma last_write_split:
  "last_write w d es = v \<longleftrightarrow>
     (\<exists>xs e ys. es = xs @ e # ys \<and> w e = Some v \<and> (\<forall>y \<in> set ys. w y = None))
     \<or> (v = d \<and> (\<forall>y \<in> set es. w y = None))"
proof (induction es arbitrary: v rule: rev_induct)
  case (snoc e es)
  show ?case
  proof (cases "w e")
    case None
    have "(\<exists>xs e' ys. es @ [e] = xs @ e' # ys \<and> w e' = Some v \<and> (\<forall>y \<in> set ys. w y = None)) \<longleftrightarrow>
        (\<exists>xs e' ys. es = xs @ e' # ys \<and> w e' = Some v \<and> (\<forall>y \<in> set ys. w y = None))" (is "?L \<longleftrightarrow> ?R")
    proof
      assume ?L
      then obtain xs e' ys where l: "es @ [e] = xs @ e' # ys" "w e' = Some v" "\<forall>y \<in> set ys. w y = None"
        by blast
      then obtain ys' where "ys = ys' @ [e]" using None by (cases ys rule: rev_cases) auto
      with l show ?R by auto
    next
      assume ?R
      then obtain xs e' ys where "es = xs @ e' # ys" "w e' = Some v" "\<forall>y \<in> set ys. w y = None"
        by blast
      then show ?L using None by (intro exI[of _ xs] exI[of _ e'] exI[of _ "ys @ [e]"]) auto
    qed
    with snoc None show ?thesis by auto
  next
    case (Some x)
    have "(\<exists>xs e' ys. es @ [e] = xs @ e' # ys \<and> w e' = Some v \<and> (\<forall>y \<in> set ys. w y = None)) \<longleftrightarrow> x = v"
      (is "?L \<longleftrightarrow> _")
    proof
      assume ?L
      then obtain xs e' ys where l: "es @ [e] = xs @ e' # ys" "w e' = Some v" "\<forall>y \<in> set ys. w y = None"
        by blast
      then have "ys = []" using Some by (cases ys rule: rev_cases) auto
      with l Some show "x = v" by simp
    next
      assume "x = v"
      then show ?L using Some by (intro exI[of _ es] exI[of _ e] exI[of _ "[]"]) simp
    qed
    with Some show ?thesis by auto
  qed
qed auto

end
