(* ===== verification/FieldReducers.thy ===== *)
theory FieldReducers
  imports Reducers "HOL-Library.Multiset"
begin

text \<open>
  The scalar fields of \<open>internal/objtypes/field.go\<close>: a string, an integer and a time whose value is
  the fold of the topic's events. Integers are 64-bit words and wrap as Go's do.
\<close>

text \<open>\<open>numberAsInt64\<close>: an untyped number has been decoded to a float64.\<close>

definition number_as_int64 :: "json \<Rightarrow> i64 option" where
  "number_as_int64 v = map_option f64_to_i64 (as_float64 v)"

section \<open>String fields\<close>

record str_state =
  ss_value :: string
  ss_exists :: bool
  ss_updated_at :: time

definition str_dec :: "json \<Rightarrow> str_state decoded" where
  "str_dec = dec_struct (\<lambda>f.
     (let (v, ok1) = dec_string (f ''value''); (x, ok2) = dec_bool (f ''exists'');
          (u, ok3) = dec_time (f ''updated_at'')
      in (\<lparr>ss_value = v, ss_exists = x, ss_updated_at = u\<rparr>, ok1 \<and> ok2 \<and> ok3)))"

definition str_enc :: "str_state \<Rightarrow> json option" where
  "str_enc s = (case enc_time (ss_updated_at s) of
       None \<Rightarrow> None
     | Some u \<Rightarrow> Some (JObj [(''value'', JStr (ss_value s)), (''exists'', JBool (ss_exists s)), (''updated_at'', u)]))"

definition str_step :: "event \<Rightarrow> str_state \<Rightarrow> str_state" where
  "str_step e s0 =
     (let s = s0\<lparr>ss_updated_at := ev_at e\<rparr>; p = payload_map (ev_payload e)
      in if ev_type e = ''str_set'' then
           (case as_string (pget p ''value'') of
              Some v \<Rightarrow> s\<lparr>ss_value := v, ss_exists := True\<rparr>
            | None \<Rightarrow> s)
         else if ev_type e = ''str_delete'' then s\<lparr>ss_value := [], ss_exists := False\<rparr>
         else s)"

definition str_apply :: reducer where
  "str_apply = apply_lenient str_dec str_enc str_step"

section \<open>Integer fields\<close>

record int_state =
  is_value :: i64
  is_exists :: bool
  is_updated_at :: time

definition int_dec :: "json \<Rightarrow> int_state decoded" where
  "int_dec = dec_struct (\<lambda>f.
     (let (v, ok1) = dec_i64 (f ''value''); (x, ok2) = dec_bool (f ''exists'');
          (u, ok3) = dec_time (f ''updated_at'')
      in (\<lparr>is_value = v, is_exists = x, is_updated_at = u\<rparr>, ok1 \<and> ok2 \<and> ok3)))"

definition int_enc :: "int_state \<Rightarrow> json option" where
  "int_enc s = (case enc_time (is_updated_at s) of
       None \<Rightarrow> None
     | Some u \<Rightarrow> Some (JObj [(''value'', enc_i64 (is_value s)), (''exists'', JBool (is_exists s)), (''updated_at'', u)]))"

definition int_delta :: "payload \<Rightarrow> i64" where
  "int_delta p = (case number_as_int64 (pget p ''delta'') of Some v \<Rightarrow> v | None \<Rightarrow> 1)"

definition int_step :: "event \<Rightarrow> int_state \<Rightarrow> int_state" where
  "int_step e s0 =
     (let s = s0\<lparr>is_updated_at := ev_at e\<rparr>; p = payload_map (ev_payload e)
      in if ev_type e = ''int_set'' then
           (case number_as_int64 (pget p ''value'') of
              Some v \<Rightarrow> s\<lparr>is_value := v, is_exists := True\<rparr>
            | None \<Rightarrow> s)
         else if ev_type e = ''int_incr'' then s\<lparr>is_value := is_value s + int_delta p, is_exists := True\<rparr>
         else if ev_type e = ''int_decr'' then s\<lparr>is_value := is_value s - int_delta p, is_exists := True\<rparr>
         else if ev_type e = ''int_delete'' then s\<lparr>is_value := 0, is_exists := False\<rparr>
         else s)"

definition int_apply :: reducer where
  "int_apply = apply_lenient int_dec int_enc int_step"

section \<open>Time fields\<close>

record time_state =
  ts_value :: time
  ts_exists :: bool
  ts_updated_at :: time

definition time_dec :: "json \<Rightarrow> time_state decoded" where
  "time_dec = dec_struct (\<lambda>f.
     (let (v, ok1) = dec_time (f ''value''); (x, ok2) = dec_bool (f ''exists'');
          (u, ok3) = dec_time (f ''updated_at'')
      in (\<lparr>ts_value = v, ts_exists = x, ts_updated_at = u\<rparr>, ok1 \<and> ok2 \<and> ok3)))"

definition time_enc :: "time_state \<Rightarrow> json option" where
  "time_enc s = (case (enc_time (ts_value s), enc_time (ts_updated_at s)) of
       (Some v, Some u) \<Rightarrow> Some (JObj [(''value'', v), (''exists'', JBool (ts_exists s)), (''updated_at'', u)])
     | _ \<Rightarrow> None)"

text \<open>\<open>time.Duration(v) * time.Second\<close> is a 64-bit product: it wraps.\<close>

definition time_step :: "event \<Rightarrow> time_state \<Rightarrow> time_state" where
  "time_step e s0 =
     (let s = s0\<lparr>ts_updated_at := ev_at e\<rparr>; p = payload_map (ev_payload e)
      in if ev_type e = ''time_set'' then
           (case as_string (pget p ''value'') of
              Some v \<Rightarrow>
                (case parse_time v of
                   Some t \<Rightarrow> s\<lparr>ts_value := t, ts_exists := True\<rparr>
                 | None \<Rightarrow> s)
            | None \<Rightarrow> s)
         else if ev_type e = ''time_now'' then s\<lparr>ts_value := ev_at e, ts_exists := True\<rparr>
         else if ev_type e = ''time_add'' then
           (case number_as_int64 (pget p ''seconds'') of
              Some v \<Rightarrow> s\<lparr>ts_value := time_add (ts_value s) (v * 1000000000), ts_exists := True\<rparr>
            | None \<Rightarrow> s)
         else if ev_type e = ''time_delete'' then s\<lparr>ts_value := 0, ts_exists := False\<rparr>
         else s)"

definition time_apply :: reducer where
  "time_apply = apply_lenient time_dec time_enc time_step"

section \<open>The reducer contract\<close>

lemma str_roundtrip: "str_enc s = Some j \<Longrightarrow> str_dec j = (s, True)"
  by (auto simp: str_enc_def str_dec_def struct_codec split: option.splits)

lemma int_roundtrip: "int_enc s = Some j \<Longrightarrow> int_dec j = (s, True)"
  by (auto simp: int_enc_def int_dec_def struct_codec split: option.splits)

lemma time_roundtrip: "time_enc s = Some j \<Longrightarrow> time_dec j = (s, True)"
  by (auto simp: time_enc_def time_dec_def struct_codec split: option.splits)

interpretation str_red: json_reducer str_dec str_enc str_step str_apply
  by unfold_locales (simp_all add: str_roundtrip str_apply_def apply_lenient_applies)

interpretation int_red: json_reducer int_dec int_enc int_step int_apply
  by unfold_locales (simp_all add: int_roundtrip int_apply_def apply_lenient_applies)

interpretation time_red: json_reducer time_dec time_enc time_step time_apply
  by unfold_locales (simp_all add: time_roundtrip time_apply_def apply_lenient_applies)

section \<open>Values of the fields\<close>

text \<open>What one event writes to a string field: a value, its absence, or nothing.\<close>

definition str_write :: "event \<Rightarrow> string option option" where
  "str_write e =
     (if ev_type e = ''str_set'' then map_option Some (as_string (pget (payload_map (ev_payload e)) ''value''))
      else if ev_type e = ''str_delete'' then Some None
      else None)"

definition str_value :: "str_state \<Rightarrow> string option" where
  "str_value s = (if ss_exists s then Some (ss_value s) else None)"

lemma str_step_value:
  "str_value (str_step e s) = (case str_write e of Some w \<Rightarrow> w | None \<Rightarrow> str_value s)"
  "ss_updated_at (str_step e s) = ev_at e"
  by (auto simp: str_step_def str_write_def str_value_def Let_def split: option.splits)

lemma str_enc_None: "str_enc s = None \<longleftrightarrow> \<not> valid_year (ss_updated_at s)"
  by (simp add: str_enc_def enc_time_valid)

lemma int_enc_None: "int_enc s = None \<longleftrightarrow> \<not> valid_year (is_updated_at s)"
  by (simp add: int_enc_def enc_time_valid)

lemma str_fold_value:
  assumes "\<forall>e \<in> set es. valid_year (ev_at e)"
  shows "str_value (typed_fold str_enc str_step s es) = last_write str_write (str_value s) es"
  using assms
  by (induction es rule: rev_induct)
     (simp_all add: typed_step_def str_enc_None str_step_value split: option.split)

text \<open>What one event adds to an integer field.\<close>

definition int_change :: "event \<Rightarrow> i64" where
  "int_change e =
     (if ev_type e = ''int_incr'' then int_delta (payload_map (ev_payload e))
      else if ev_type e = ''int_decr'' then - int_delta (payload_map (ev_payload e))
      else 0)"

lemma int_step_counter:
  assumes "ev_type e = ''int_incr'' \<or> ev_type e = ''int_decr''"
  shows "int_step e s = \<lparr>is_value = is_value s + int_change e, is_exists = True, is_updated_at = ev_at e\<rparr>"
  using assms by (auto simp: int_step_def int_change_def Let_def)

lemma int_fold_counter:
  assumes "\<forall>e \<in> set es. (ev_type e = ''int_incr'' \<or> ev_type e = ''int_decr'') \<and> valid_year (ev_at e)"
  shows "is_value (typed_fold int_enc int_step s es) = is_value s + (\<Sum>e \<leftarrow> es. int_change e)
    \<and> is_exists (typed_fold int_enc int_step s es) = (is_exists s \<or> es \<noteq> [])"
  using assms
  by (induction es rule: rev_induct) (auto simp: typed_step_def int_enc_None int_step_counter)

definition field_event :: "string \<Rightarrow> string \<Rightarrow> (string \<times> json) list \<Rightarrow> event" where
  "field_event topic typ o1 = new_event topic typ [] (RJson (JObj o1)) 0"

section \<open>Properties\<close>

text \<open>A string field reads as its last write: the stored state decodes, and its value is that
  of the last \<open>str_set\<close> with a string value, absent when a \<open>str_delete\<close> came after it or when there
  was none.\<close>

lemma str_field_last_write:
  assumes "\<forall>e \<in> set es. valid_year (ev_at e)"
  shows "\<exists>s. load_raw str_dec (raw_fold str_apply RNil es) = (s, True)
    \<and> (str_value s = v \<longleftrightarrow>
        (\<exists>xs e ys. es = xs @ e # ys \<and> str_write e = Some v \<and> (\<forall>y \<in> set ys. str_write y = None))
        \<or> (v = None \<and> (\<forall>y \<in> set es. str_write y = None)))"
proof -
  have "str_value (fst (str_dec JNull)) = None"
    by (simp add: str_dec_def str_value_def dec_struct_def codec_simps)
  then show ?thesis
    using str_red.load_raw_fold[of es] str_fold_value[OF assms, of "fst (str_dec JNull)"]
    by (simp add: last_write_split)
qed

lemma str_field_last_write_example:
  "\<exists>s. load_raw str_dec (raw_fold str_apply RNil
      [field_event ''str/a'' ''str_set'' [(''value'', JStr ''x'')], field_event ''str/a'' ''str_set'' [(''value'', JStr ''y'')]])
     = (s, True) \<and> str_value s = Some ''y''"
proof -
  let ?es = "[field_event ''str/a'' ''str_set'' [(''value'', JStr ''x'')],
    field_event ''str/a'' ''str_set'' [(''value'', JStr ''y'')]]"
  have v: "\<forall>e \<in> set ?es. valid_year (ev_at e)" by (simp add: field_event_def new_event_def)
  obtain s where s: "load_raw str_dec (raw_fold str_apply RNil ?es) = (s, True)"
    "str_value s = Some ''y'' \<longleftrightarrow>
      (\<exists>xs e ys. ?es = xs @ e # ys \<and> str_write e = Some (Some ''y'') \<and> (\<forall>y \<in> set ys. str_write y = None))
      \<or> (Some ''y'' = None \<and> (\<forall>y \<in> set ?es. str_write y = None))"
    using str_field_last_write[OF v, of "Some ''y''"] by blast
  have "\<exists>xs e ys. ?es = xs @ e # ys \<and> str_write e = Some (Some ''y'') \<and> (\<forall>y \<in> set ys. str_write y = None)"
    by (intro exI[of _ "[hd ?es]"] exI[of _ "?es ! 1"] exI[of _ "[]"])
       (simp add: str_write_def field_event_def new_event_def pget_def)
  with s show ?thesis by blast
qed

text \<open>An integer field counts: after any increments and decrements its stored state decodes to
  the sum of their deltas (default 1), in 64-bit arithmetic, whatever order they came in.\<close>

lemma int_field_counts:
  assumes "\<forall>e \<in> set es. (ev_type e = ''int_incr'' \<or> ev_type e = ''int_decr'') \<and> valid_year (ev_at e)"
    and "mset es' = mset es"
  shows "\<exists>s. load_raw int_dec (raw_fold int_apply RNil es') = (s, True)
    \<and> is_value s = (\<Sum>e \<leftarrow> es. int_change e) \<and> is_exists s = (es \<noteq> [])"
proof -
  have a: "\<forall>e \<in> set es'. (ev_type e = ''int_incr'' \<or> ev_type e = ''int_decr'') \<and> valid_year (ev_at e)"
    using assms by (metis set_mset_mset)
  have "(\<Sum>e \<leftarrow> es'. int_change e) = (\<Sum>e \<leftarrow> es. int_change e)"
    by (metis assms(2) mset_map sum_mset_sum_list)
  moreover have "es' = [] \<longleftrightarrow> es = []" using assms(2) by auto
  moreover have "is_value (fst (int_dec JNull)) = 0 \<and> \<not> is_exists (fst (int_dec JNull))"
    by (simp add: int_dec_def dec_struct_def codec_simps)
  ultimately show ?thesis
    using int_red.load_raw_fold[of es'] int_fold_counter[OF a, of "fst (int_dec JNull)"] by simp
qed

lemma int_field_counts_example:
  "\<exists>s. load_raw int_dec (raw_fold int_apply RNil
      [field_event ''int/a'' ''int_incr'' [], field_event ''int/a'' ''int_incr'' [],
       field_event ''int/a'' ''int_decr'' []]) = (s, True) \<and> is_value s = 1"
proof -
  let ?es = "[field_event ''int/a'' ''int_incr'' [], field_event ''int/a'' ''int_incr'' [],
       field_event ''int/a'' ''int_decr'' []]"
  have v: "\<forall>e \<in> set ?es. (ev_type e = ''int_incr'' \<or> ev_type e = ''int_decr'') \<and> valid_year (ev_at e)"
    by (simp add: field_event_def new_event_def)
  have "(\<Sum>e \<leftarrow> ?es. int_change e) = 1"
    by (simp add: int_change_def int_delta_def field_event_def new_event_def pget_def number_as_int64_def)
  with int_field_counts[OF v refl] show ?thesis by auto
qed

text \<open>Setting an integer field to a number of at most 53 bits is exact; beyond, the number has
  gone through a float64: \<open>2 ^ 53 + 1\<close> is stored as \<open>2 ^ 53\<close>.\<close>

lemma int_set_precision:
  assumes "\<bar>n\<bar> \<le> 2 ^ 53"
  shows "is_value (int_step (field_event t ''int_set'' [(''value'', JNum n 0)]) s) = word_of_int n
    \<and> is_value (int_step (field_event t ''int_set'' [(''value'', JNum 9007199254740993 0)]) s) = 9007199254740992"
proof -
  have "number_as_int64 (JNum n 0) = Some (word_of_int n)"
    using f64_i64_roundtrip[OF assms] by (simp add: number_as_int64_def)
  moreover have "number_as_int64 (JNum 9007199254740993 0) = Some 9007199254740992"
    by (simp add: number_as_int64_def f64_of_num_def f64_of_ratio_def f64_exponent_def bit_len.simps
        scale2_def round_half_even_def f64_to_i64_def f64_trunc_def in_i64_def)
  ultimately show ?thesis
    by (simp add: int_step_def field_event_def new_event_def pget_def Let_def)
qed

lemma int_set_precision_example:
  "is_value (int_step (field_event ''int/a'' ''int_set'' [(''value'', JNum (-7) 0)])
      \<lparr>is_value = 3, is_exists = True, is_updated_at = 0\<rparr>) = -7"
  using int_set_precision[of "-7" "''int/a''" "\<lparr>is_value = 3, is_exists = True, is_updated_at = 0\<rparr>"] by simp

text \<open>Adding to a time field moves it by exactly that many seconds while they fit a 64-bit
  count of nanoseconds; one second past that bound, 292 years, the product wraps and the time goes back.\<close>

lemma time_add_seconds:
  assumes "\<bar>n\<bar> \<le> 9223372036"
  shows "ts_value (time_step (field_event t ''time_add'' [(''seconds'', JNum n 0)]) s) = ts_value s + n * 1000000000
    \<and> ts_value (time_step (field_event t ''time_add'' [(''seconds'', JNum 9223372037 0)]) s) < ts_value s"
proof -
  have num: "number_as_int64 (JNum m 0) = Some (word_of_int m)" if "\<bar>m\<bar> \<le> 9223372037" for m
    using f64_i64_roundtrip[of m] that by (simp add: number_as_int64_def)
  have "word_of_int n * 1000000000 = (word_of_int (n * 1000000000) :: i64)" by simp
  moreover have "in_i64 (n * 1000000000)" using assms by (auto simp: in_i64_def abs_le_iff)
  ultimately have "sint (word_of_int n * 1000000000 :: i64) = n * 1000000000"
    by (metis sint_i64_of_int)
  moreover have "sint (9223372037 * 1000000000 :: i64) < 0" by code_simp
  ultimately show ?thesis
    using assms num[of n] num[of 9223372037]
    by (simp add: time_step_def field_event_def new_event_def pget_def Let_def time_add_def)
qed

lemma time_add_seconds_example:
  "ts_value (time_step (field_event ''time/a'' ''time_add'' [(''seconds'', JNum 60 0)])
      \<lparr>ts_value = 5, ts_exists = True, ts_updated_at = 0\<rparr>) = 60000000005"
  using time_add_seconds[of 60 "''time/a''" "\<lparr>ts_value = 5, ts_exists = True, ts_updated_at = 0\<rparr>"] by simp

end
