(* ===== verification/JobReducer.thy ===== *)
theory JobReducer
  imports Reducers
begin

text \<open>
  Background jobs, \<open>internal/objtypes/job.go\<close>: status, progress and the tail of the log. The main
  result, \<open>job_state_spec\<close>, is what the stored state says of the whole stream: the logs are the last
  50 lines of all that were logged, the status is that of the last event that sets one.
\<close>

definition job_log_cap :: nat where
  "job_log_cap = 50"

record job_log =
  jl_at :: time
  jl_line :: string

record job_state =
  js_name :: string
  js_percent :: i64
  js_eta_seconds :: i64
  js_status :: string
  js_logs :: "job_log list"
  js_started_at :: time
  js_finished_at :: time

definition job_log_dec :: "json \<Rightarrow> job_log decoded" where
  "job_log_dec = dec_struct (\<lambda>f.
     (let (a, ok1) = dec_time (f ''at''); (l, ok2) = dec_string (f ''line'')
      in (\<lparr>jl_at = a, jl_line = l\<rparr>, ok1 \<and> ok2)))"

definition job_log_enc :: "job_log \<Rightarrow> json option" where
  "job_log_enc l = (case enc_time (jl_at l) of
       None \<Rightarrow> None
     | Some a \<Rightarrow> Some (JObj [(''at'', a), (''line'', JStr (jl_line l))]))"

definition job_dec :: "json \<Rightarrow> job_state decoded" where
  "job_dec = dec_struct (\<lambda>f.
     (let (n, ok1) = dec_string (f ''name''); (p, ok2) = dec_i64 (f ''percent'');
          (eta, ok3) = dec_i64 (f ''eta_seconds''); (st, ok4) = dec_string (f ''status'');
          (ls, ok5) = dec_list job_log_dec (f ''logs''); (sa, ok6) = dec_time (f ''started_at'');
          (fa, ok7) = dec_time (f ''finished_at'')
      in (\<lparr>js_name = n, js_percent = p, js_eta_seconds = eta, js_status = st, js_logs = ls,
           js_started_at = sa, js_finished_at = fa\<rparr>,
          ok1 \<and> ok2 \<and> ok3 \<and> ok4 \<and> ok5 \<and> ok6 \<and> ok7)))"

definition job_enc :: "job_state \<Rightarrow> json option" where
  "job_enc s =
     (case (those (map job_log_enc (js_logs s)), enc_time (js_started_at s), enc_time (js_finished_at s)) of
        (Some ls, Some sa, Some fa) \<Rightarrow>
          Some (JObj (opt_string ''name'' (js_name s) @ [(''percent'', enc_i64 (js_percent s))]
            @ opt_i64 ''eta_seconds'' (js_eta_seconds s) @ [(''status'', JStr (js_status s))]
            @ opt_list ''logs'' ls @ [(''started_at'', sa), (''finished_at'', fa)]))
      | _ \<Rightarrow> None)"

definition job_step :: "event \<Rightarrow> job_state \<Rightarrow> job_state" where
  "job_step e s =
     (let p = payload_map (ev_payload e) in
      if ev_type e = ''job_started'' then
        (let s1 = s\<lparr>js_status := ''running'', js_started_at := ev_at e\<rparr>; v = get_str p ''name''
         in if v \<noteq> [] then s1\<lparr>js_name := v\<rparr> else s1)
      else if ev_type e = ''job_progress'' then
        (let v = get_int p ''percent''; s1 = (if 0 < sint v then s\<lparr>js_percent := v\<rparr> else s);
             w = get_int p ''eta_seconds''
         in if 0 < sint w then s1\<lparr>js_eta_seconds := w\<rparr> else s1)
      else if ev_type e = ''job_log'' then
        (let logs = js_logs s @ [\<lparr>jl_at = ev_at e, jl_line = get_str p ''line''\<rparr>]
         in s\<lparr>js_logs := (if job_log_cap < length logs then drop (length logs - job_log_cap) logs else logs)\<rparr>)
      else if ev_type e = ''job_finished'' then
        s\<lparr>js_status := ''succeeded'', js_percent := 100, js_finished_at := ev_at e\<rparr>
      else if ev_type e = ''job_failed'' then
        s\<lparr>js_status := ''failed'', js_finished_at := ev_at e\<rparr>
      else s)"

definition job_apply :: reducer where
  "job_apply = apply_strict job_dec job_enc job_step"

section \<open>The reducer contract\<close>

lemma job_log_roundtrip: "job_log_enc l = Some j \<Longrightarrow> job_log_dec j = (l, True)"
  by (auto simp: job_log_enc_def job_log_dec_def struct_codec split: option.splits)

lemma job_roundtrip: "job_enc s = Some j \<Longrightarrow> job_dec j = (s, True)"
proof -
  assume "job_enc s = Some j"
  then obtain ls where ls: "those (map job_log_enc (js_logs s)) = Some ls"
      "valid_year (js_started_at s)" "valid_year (js_finished_at s)"
    and j: "j = JObj (opt_string ''name'' (js_name s) @ [(''percent'', enc_i64 (js_percent s))]
            @ opt_i64 ''eta_seconds'' (js_eta_seconds s) @ [(''status'', JStr (js_status s))]
            @ opt_list ''logs'' ls @ [(''started_at'', JStr (format_time (js_started_at s))),
              (''finished_at'', JStr (format_time (js_finished_at s)))])"
    by (auto simp: job_enc_def enc_time_Some split: option.splits)
  show ?thesis
    using ls(2,3) dec_opt_list[OF job_log_roundtrip ls(1)]
    by (auto simp: j job_dec_def struct_codec split: if_splits)
qed

interpretation job_red: json_reducer job_dec job_enc job_step job_apply
  by unfold_locales (simp_all add: job_roundtrip job_apply_def apply_strict_applies)

section \<open>What the stored state says of the stream\<close>

definition job_line :: "event \<Rightarrow> job_log" where
  "job_line e = \<lparr>jl_at = ev_at e, jl_line = get_str (payload_map (ev_payload e)) ''line''\<rparr>"

definition job_lines :: "event list \<Rightarrow> job_log list" where
  "job_lines es = map job_line (filter (\<lambda>e. ev_type e = ''job_log'') es)"

definition job_status_write :: "event \<Rightarrow> string option" where
  "job_status_write e =
     (if ev_type e = ''job_started'' then Some ''running''
      else if ev_type e = ''job_finished'' then Some ''succeeded''
      else if ev_type e = ''job_failed'' then Some ''failed''
      else None)"

definition job_times_ok :: "job_state \<Rightarrow> bool" where
  "job_times_ok s \<longleftrightarrow> valid_year (js_started_at s) \<and> valid_year (js_finished_at s)
     \<and> list_all (\<lambda>l. valid_year (jl_at l)) (js_logs s)"

lemma job_step_parts:
  "js_logs (job_step e s) =
     (if ev_type e = ''job_log'' then cap_tail job_log_cap (js_logs s @ [job_line e]) else js_logs s)"
  "js_status (job_step e s) = (case job_status_write e of Some v \<Rightarrow> v | None \<Rightarrow> js_status s)"
  "0 \<le> sint (js_percent s) \<Longrightarrow> 0 \<le> sint (js_percent (job_step e s))"
  by (simp_all add: job_step_def Let_def cap_tail_def job_line_def job_status_write_def)

lemma job_times_ok_step: "job_times_ok s \<Longrightarrow> valid_year (ev_at e) \<Longrightarrow> job_times_ok (job_step e s)"
  unfolding job_times_ok_def job_step_parts
  by (auto simp: job_step_def job_line_def Let_def intro!: list_all_cap_tail)

lemma job_times_ok_enc:
  assumes "job_times_ok s"
  shows "job_enc s \<noteq> None"
proof -
  have "list_all (\<lambda>l. job_log_enc l \<noteq> None) (js_logs s)"
    using assms by (simp add: job_times_ok_def job_log_enc_def enc_time_valid list_all_iff)
  then obtain ls where "those (map job_log_enc (js_logs s)) = Some ls" using those_total by blast
  then show ?thesis using assms by (simp add: job_enc_def job_times_ok_def enc_time_valid)
qed

lemma job_step_fold:
  "js_logs (foldl (\<lambda>s e. job_step e s) s es) = (if job_lines es = [] then js_logs s else cap_tail job_log_cap (js_logs s @ job_lines es))"
  "js_status (foldl (\<lambda>s e. job_step e s) s es) = last_write job_status_write (js_status s) es"
  "0 \<le> sint (js_percent s) \<Longrightarrow> 0 \<le> sint (js_percent (foldl (\<lambda>s e. job_step e s) s es))"
proof (induction es rule: rev_induct)
  case (snoc e es)
  { case 1
    then show ?case using snoc(1) cap_tail_snoc[of job_log_cap "js_logs s @ job_lines es" "job_line e"]
      by (auto simp: job_lines_def job_step_parts) }
  { case 2
    then show ?case using snoc(2) by (simp add: job_step_parts split: option.split) }
  { case 3
    then show ?case using snoc(3) by (simp add: job_step_parts) }
qed (simp_all add: job_lines_def)

text \<open>C30: the stored state of a job topic always decodes, and says of the topic's events: the logs
  are the last 50 of all logged lines, in order; the status is the one its last \<open>job_started\<close>,
  \<open>job_finished\<close> or \<open>job_failed\<close> set; the percentage is never negative.\<close>

theorem job_state_spec:
  assumes "\<forall>e \<in> set es. valid_year (ev_at e)"
  shows "\<exists>s. load_raw job_dec (raw_fold job_apply RNil es) = (s, True)
    \<and> js_logs s = drop (length (job_lines es) - 50) (job_lines es)
    \<and> js_status s = last_write job_status_write [] es
    \<and> 0 \<le> sint (js_percent s)"
proof -
  define s0 where "s0 = fst (job_dec JNull)"
  have s0: "job_times_ok s0" "js_logs s0 = []" "js_status s0 = []" "js_percent s0 = 0"
    by (simp_all add: s0_def job_dec_def dec_struct_def codec_simps job_times_ok_def)
  have "typed_fold job_enc job_step s0 es = foldl (\<lambda>s e. job_step e s) s0 es"
    using typed_fold_total[of es "\<lambda>e. valid_year (ev_at e)" job_times_ok s0 job_step job_enc]
      assms s0(1) job_times_ok_step job_times_ok_enc by blast
  then show ?thesis
    using job_red.load_raw_fold[of es] job_step_fold[of s0 es] s0(2-4)
    by (auto simp: s0_def[symmetric] cap_tail_def job_log_cap_def)
qed

theorem job_state_spec_witness:
  "\<exists>s. load_raw job_dec (raw_fold job_apply RNil
      [new_event ''job/1'' ''job_started'' [] RNil 7, new_event ''job/1'' ''job_log'' [] (RJson (JObj [(''line'', JStr ''x'')])) 8,
       new_event ''job/1'' ''job_finished'' [] RNil 9]) = (s, True)
    \<and> js_logs s = [\<lparr>jl_at = 8, jl_line = ''x''\<rparr>] \<and> js_status s = ''succeeded''"
proof -
  let ?es = "[new_event ''job/1'' ''job_started'' [] RNil 7,
    new_event ''job/1'' ''job_log'' [] (RJson (JObj [(''line'', JStr ''x'')])) 8,
    new_event ''job/1'' ''job_finished'' [] RNil 9]"
  have v: "\<forall>e \<in> set ?es. valid_year (ev_at e)"
    by (simp add: new_event_def valid_year_def year_of_day_def)
  have "job_lines ?es = [\<lparr>jl_at = 8, jl_line = ''x''\<rparr>]" "last_write job_status_write [] ?es = ''succeeded''"
    by (simp_all add: job_lines_def job_line_def new_event_def get_str_def pget_def last_write_def job_status_write_def)
  with job_state_spec[OF v] show ?thesis by auto
qed

end
