(* ===== verification/ChatReducer.thy ===== *)
theory ChatReducer
  imports Reducers
begin

text \<open>
  Chat rooms, \<open>internal/objtypes/chat.go\<close>: who is in the room and the most recent messages. The
  main result, \<open>chat_state_spec\<close>, reads the stored state back from the stream: the participants are
  those whose last move was to join, and at most 50 messages are kept, none of them deleted since it
  was posted.
\<close>

definition chat_msg_cap :: nat where
  "chat_msg_cap = 50"

record chat_message =
  cm_id :: string
  cm_user :: string
  cm_text :: string
  cm_posted_at :: time
  cm_edited :: bool

record chat_state =
  cs_room :: string
  cs_participants :: "string list"
  cs_recent :: "chat_message list"

definition chat_message_dec :: "json \<Rightarrow> chat_message decoded" where
  "chat_message_dec = dec_struct (\<lambda>f.
     (let (i, ok1) = dec_string (f ''id''); (u, ok2) = dec_string (f ''user'');
          (t, ok3) = dec_string (f ''text''); (p, ok4) = dec_time (f ''posted_at'');
          (x, ok5) = dec_bool (f ''edited'')
      in (\<lparr>cm_id = i, cm_user = u, cm_text = t, cm_posted_at = p, cm_edited = x\<rparr>,
          ok1 \<and> ok2 \<and> ok3 \<and> ok4 \<and> ok5)))"

definition chat_message_enc :: "chat_message \<Rightarrow> json option" where
  "chat_message_enc m = (case enc_time (cm_posted_at m) of
       None \<Rightarrow> None
     | Some p \<Rightarrow> Some (JObj ([(''id'', JStr (cm_id m)), (''user'', JStr (cm_user m)), (''text'', JStr (cm_text m)),
                              (''posted_at'', p)] @ opt_field (cm_edited m) ''edited'' (JBool True))))"

definition chat_dec :: "json \<Rightarrow> chat_state decoded" where
  "chat_dec = dec_struct (\<lambda>f.
     (let (r, ok1) = dec_string (f ''room''); (ps, ok2) = dec_list dec_string (f ''participants'');
          (ms, ok3) = dec_list chat_message_dec (f ''recent'')
      in (\<lparr>cs_room = r, cs_participants = ps, cs_recent = ms\<rparr>, ok1 \<and> ok2 \<and> ok3)))"

definition chat_enc :: "chat_state \<Rightarrow> json option" where
  "chat_enc s =
     (case those (map chat_message_enc (cs_recent s)) of
        None \<Rightarrow> None
      | Some ms \<Rightarrow> Some (JObj (opt_string ''room'' (cs_room s) @ opt_list ''participants'' (map JStr (cs_participants s))
          @ opt_list ''recent'' ms)))"

text \<open>The edit loop: the first message with the id.\<close>

fun edit_first :: "string \<Rightarrow> string \<Rightarrow> chat_message list \<Rightarrow> chat_message list" where
  "edit_first i t [] = []"
| "edit_first i t (m # ms) =
     (if cm_id m = i then m\<lparr>cm_text := t, cm_edited := True\<rparr> # ms else m # edit_first i t ms)"

definition chat_step :: "event \<Rightarrow> chat_state \<Rightarrow> chat_state" where
  "chat_step e s =
     (let p = payload_map (ev_payload e) in
      if ev_type e = ''user_joined'' then
        (let u = get_str p ''user''
         in if u \<noteq> [] then s\<lparr>cs_participants := add_unique (cs_participants s) u\<rparr> else s)
      else if ev_type e = ''user_left'' then
        (let u = get_str p ''user''
         in if u \<noteq> [] then s\<lparr>cs_participants := remove_string (cs_participants s) u\<rparr> else s)
      else if ev_type e = ''msg_posted'' then
        (let i0 = get_str p ''id''; i = (if i0 = [] then ev_id e else i0);
             recent = cs_recent s @ [\<lparr>cm_id = i, cm_user = get_str p ''user'', cm_text = get_str p ''text'',
                                     cm_posted_at = ev_at e, cm_edited = False\<rparr>]
         in s\<lparr>cs_recent := (if chat_msg_cap < length recent then drop (length recent - chat_msg_cap) recent else recent)\<rparr>)
      else if ev_type e = ''msg_edited'' then
        s\<lparr>cs_recent := edit_first (get_str p ''id'') (get_str p ''text'') (cs_recent s)\<rparr>
      else if ev_type e = ''msg_deleted'' then
        s\<lparr>cs_recent := filter (\<lambda>m. cm_id m \<noteq> get_str p ''id'') (cs_recent s)\<rparr>
      else s)"

definition chat_apply :: reducer where
  "chat_apply = apply_strict chat_dec chat_enc chat_step"

section \<open>The reducer contract\<close>

lemma chat_message_roundtrip: "chat_message_enc m = Some j \<Longrightarrow> chat_message_dec j = (m, True)"
  by (cases m) (auto simp: chat_message_enc_def chat_message_dec_def struct_codec split: option.splits)

lemma chat_roundtrip: "chat_enc s = Some j \<Longrightarrow> chat_dec j = (s, True)"
proof -
  assume "chat_enc s = Some j"
  then obtain ms where ms: "those (map chat_message_enc (cs_recent s)) = Some ms"
    and j: "j = JObj (opt_string ''room'' (cs_room s) @ opt_list ''participants'' (map JStr (cs_participants s))
          @ opt_list ''recent'' ms)"
    by (auto simp: chat_enc_def split: option.splits)
  show ?thesis
    using dec_opt_list[OF chat_message_roundtrip ms] dec_opt_strings[of "cs_participants s"]
    by (auto simp: j chat_dec_def struct_codec split: if_splits)
qed

interpretation chat_red: json_reducer chat_dec chat_enc chat_step chat_apply
  by unfold_locales (simp_all add: chat_roundtrip chat_apply_def apply_strict_applies)

section \<open>What the stored state says of the stream\<close>

definition chat_move :: "string \<Rightarrow> event \<Rightarrow> bool option" where
  "chat_move u e =
     (if u \<noteq> [] \<and> get_str (payload_map (ev_payload e)) ''user'' = u then
        (if ev_type e = ''user_joined'' then Some True
         else if ev_type e = ''user_left'' then Some False
         else None)
      else None)"

definition posted_id :: "event \<Rightarrow> string" where
  "posted_id e = (let i = get_str (payload_map (ev_payload e)) ''id'' in if i = [] then ev_id e else i)"

definition posts :: "event \<Rightarrow> chat_message \<Rightarrow> bool" where
  "posts e m \<longleftrightarrow> ev_type e = ''msg_posted'' \<and> cm_id m = posted_id e \<and> cm_posted_at m = ev_at e
     \<and> cm_user m = get_str (payload_map (ev_payload e)) ''user''
     \<and> (\<not> cm_edited m \<longrightarrow> cm_text m = get_str (payload_map (ev_payload e)) ''text'')"

definition deletes :: "event \<Rightarrow> string \<Rightarrow> bool" where
  "deletes e i \<longleftrightarrow> ev_type e = ''msg_deleted'' \<and> get_str (payload_map (ev_payload e)) ''id'' = i"

text \<open>The message was posted in the stream and not deleted since.\<close>

definition live_in :: "event list \<Rightarrow> chat_message \<Rightarrow> bool" where
  "live_in es m \<longleftrightarrow> (\<exists>xs e ys. es = xs @ e # ys \<and> posts e m \<and> (\<forall>y \<in> set ys. \<not> deletes y (cm_id m)))"

lemma live_in_snoc:
  "live_in es m \<Longrightarrow> \<not> deletes e (cm_id m) \<Longrightarrow> live_in (es @ [e]) m"
  "posts e m \<Longrightarrow> live_in (es @ [e]) m"
proof -
  assume "live_in es m" "\<not> deletes e (cm_id m)"
  then obtain xs x ys where "es = xs @ x # ys" "posts x m" "\<forall>y \<in> set (ys @ [e]). \<not> deletes y (cm_id m)"
    unfolding live_in_def by auto
  then show "live_in (es @ [e]) m"
    unfolding live_in_def by (intro exI[of _ xs] exI[of _ x] exI[of _ "ys @ [e]"]) simp
next
  assume "posts e m"
  then show "live_in (es @ [e]) m"
    unfolding live_in_def by (intro exI[of _ es] exI[of _ e] exI[of _ "[]"]) simp
qed

lemma edit_first_all:
  assumes "\<And>m. P m \<Longrightarrow> P (m\<lparr>cm_text := t, cm_edited := True\<rparr>)"
  shows "list_all P ms \<Longrightarrow> list_all P (edit_first i t ms)"
  by (induction ms) (auto intro: assms)

lemma length_edit_first [simp]: "length (edit_first i t ms) = length ms"
  by (induction ms) auto

lemma live_in_edit: "live_in es m \<Longrightarrow> live_in es (m\<lparr>cm_text := t, cm_edited := True\<rparr>)"
  by (auto simp: live_in_def posts_def)

lemma chat_step_participants:
  "distinct (cs_participants s) \<Longrightarrow> distinct (cs_participants (chat_step e s))"
  "u \<in> set (cs_participants (chat_step e s)) =
     (case chat_move u e of Some b \<Rightarrow> b | None \<Rightarrow> u \<in> set (cs_participants s))"
  by (auto simp: chat_step_def chat_move_def Let_def)

lemma chat_step_recent:
  assumes "list_all (live_in es) (cs_recent s)" "length (cs_recent s) \<le> chat_msg_cap"
  shows "list_all (live_in (es @ [e])) (cs_recent (chat_step e s))
    \<and> length (cs_recent (chat_step e s)) \<le> chat_msg_cap"
proof -
  let ?p = "payload_map (ev_payload e)"
  have keep: "list_all (live_in (es @ [e])) (cs_recent s)" if "ev_type e \<noteq> ''msg_deleted''"
    using assms(1) that by (auto simp: list_all_iff deletes_def intro: live_in_snoc(1))
  consider "ev_type e = ''msg_posted''" | "ev_type e = ''msg_edited''" | "ev_type e = ''msg_deleted''"
    | "ev_type e \<noteq> ''msg_posted''" "ev_type e \<noteq> ''msg_edited''" "ev_type e \<noteq> ''msg_deleted''" by blast
  then show ?thesis
  proof cases
    case 1
    let ?m = "\<lparr>cm_id = posted_id e, cm_user = get_str ?p ''user'', cm_text = get_str ?p ''text'',
      cm_posted_at = ev_at e, cm_edited = False\<rparr>"
    have "cs_recent (chat_step e s) = cap_tail chat_msg_cap (cs_recent s @ [?m])"
      using 1 by (simp add: chat_step_def Let_def posted_id_def cap_tail_def)
    moreover have "list_all (live_in (es @ [e])) (cs_recent s @ [?m])"
      using keep 1 by (auto intro!: live_in_snoc(2) simp: posts_def)
    ultimately show ?thesis by (simp add: list_all_cap_tail)
  next
    case 2
    then show ?thesis
      using keep assms(2) by (auto simp: chat_step_def Let_def intro!: edit_first_all live_in_edit)
  next
    case 3
    then show ?thesis
      using assms by (auto simp: chat_step_def Let_def list_all_iff deletes_def
          intro!: live_in_snoc(1) le_trans[OF length_filter_le])
  next
    case 4
    then show ?thesis using keep assms(2) by (auto simp: chat_step_def Let_def)
  qed
qed

definition chat_spec :: "event list \<Rightarrow> chat_state \<Rightarrow> bool" where
  "chat_spec es s \<longleftrightarrow>
     distinct (cs_participants s)
     \<and> (\<forall>u. u \<in> set (cs_participants s) \<longleftrightarrow> last_write (chat_move u) False es)
     \<and> list_all (live_in es) (cs_recent s) \<and> length (cs_recent s) \<le> chat_msg_cap"

lemma chat_spec_step: "chat_spec es s \<Longrightarrow> chat_spec (es @ [e]) (chat_step e s)"
  unfolding chat_spec_def
  by (auto simp: chat_step_participants dest: chat_step_recent[of es s e] split: option.splits)

definition chat_times_ok :: "chat_state \<Rightarrow> bool" where
  "chat_times_ok s \<longleftrightarrow> list_all (\<lambda>m. valid_year (cm_posted_at m)) (cs_recent s)"

lemma chat_times_ok_step:
  assumes "chat_times_ok s" "valid_year (ev_at e)"
  shows "chat_times_ok (chat_step e s)"
proof -
  let ?P = "\<lambda>m. valid_year (cm_posted_at m)"
  have "list_all ?P (edit_first i t (cs_recent s))" for i t
    by (rule edit_first_all) (use assms in \<open>simp_all add: chat_times_ok_def\<close>)
  moreover have "list_all ?P (drop n (cs_recent s @ ms))" if "list_all ?P ms" for n ms
    using that assms by (auto simp: chat_times_ok_def list_all_iff dest!: in_set_dropD)
  moreover have "list_all ?P (filter f (cs_recent s))" for f
    using assms by (auto simp: chat_times_ok_def list_all_iff)
  ultimately show ?thesis
    using assms by (simp add: chat_times_ok_def chat_step_def Let_def chat_msg_cap_def)
qed

lemma chat_times_ok_enc: "chat_times_ok s \<Longrightarrow> chat_enc s \<noteq> None"
proof -
  assume "chat_times_ok s"
  then have "list_all (\<lambda>m. chat_message_enc m \<noteq> None) (cs_recent s)"
    by (simp add: chat_times_ok_def chat_message_enc_def enc_time_valid list_all_iff)
  then obtain ms where "those (map chat_message_enc (cs_recent s)) = Some ms" using those_total by blast
  then show ?thesis by (simp add: chat_enc_def)
qed

text \<open>C31: the stored state of a chat room always decodes; its participants are listed once each and
  are exactly the users whose last \<open>user_joined\<close> or \<open>user_left\<close> was a join; it keeps at most 50
  messages, each posted in the stream with that id, user and time, with its text unless edited, and
  not deleted since.\<close>

theorem chat_state_spec:
  assumes "\<forall>e \<in> set es. valid_year (ev_at e)"
  shows "\<exists>s. load_raw chat_dec (raw_fold chat_apply RNil es) = (s, True)
    \<and> distinct (cs_participants s)
    \<and> (\<forall>u. u \<in> set (cs_participants s) \<longleftrightarrow> last_write (chat_move u) False es)
    \<and> (\<forall>m \<in> set (cs_recent s). live_in es m) \<and> length (cs_recent s) \<le> 50"
proof -
  define s0 where "s0 = fst (chat_dec JNull)"
  have s0: "chat_times_ok s0" "chat_spec [] s0"
    by (simp_all add: s0_def chat_dec_def dec_struct_def codec_simps chat_times_ok_def chat_spec_def)
  have "typed_fold chat_enc chat_step s0 es = foldl (\<lambda>s e. chat_step e s) s0 es"
    using typed_fold_total[of es "\<lambda>e. valid_year (ev_at e)" chat_times_ok s0 chat_step chat_enc]
      assms s0(1) chat_times_ok_step chat_times_ok_enc by blast
  moreover have "chat_spec es (foldl (\<lambda>s e. chat_step e s) s0 es)"
    by (induction es rule: rev_induct) (simp_all add: s0(2) chat_spec_step)
  ultimately show ?thesis
    using chat_red.load_raw_fold[of es]
    by (auto simp: s0_def[symmetric] chat_spec_def chat_msg_cap_def list_all_iff)
qed

theorem chat_state_spec_witness:
  "\<exists>s. load_raw chat_dec (raw_fold chat_apply RNil
      [new_event ''chat/1'' ''user_joined'' [] (RJson (JObj [(''user'', JStr ''al'')])) 7,
       new_event ''chat/1'' ''user_joined'' [] (RJson (JObj [(''user'', JStr ''bo'')])) 8,
       new_event ''chat/1'' ''user_left'' [] (RJson (JObj [(''user'', JStr ''al'')])) 9]) = (s, True)
    \<and> ''bo'' \<in> set (cs_participants s) \<and> ''al'' \<notin> set (cs_participants s)"
proof -
  let ?es = "[new_event ''chat/1'' ''user_joined'' [] (RJson (JObj [(''user'', JStr ''al'')])) 7,
       new_event ''chat/1'' ''user_joined'' [] (RJson (JObj [(''user'', JStr ''bo'')])) 8,
       new_event ''chat/1'' ''user_left'' [] (RJson (JObj [(''user'', JStr ''al'')])) 9]"
  have v: "\<forall>e \<in> set ?es. valid_year (ev_at e)"
    by (simp add: new_event_def valid_year_def year_of_day_def)
  have "last_write (chat_move ''bo'') False ?es" "\<not> last_write (chat_move ''al'') False ?es"
    by (simp_all add: last_write_def chat_move_def new_event_def get_str_def pget_def)
  with chat_state_spec[OF v] show ?thesis by blast
qed

end
