(* ===== verification/BuildReducer.thy ===== *)
theory BuildReducer
  imports Reducers
begin

text \<open>
  Builds, \<open>internal/objtypes/build.go\<close>: the steps of a build with their durations. The start times
  of the running steps live in a map that is stored beside the visible state under
  \<open>_step_starts\<close> (the \<open>buildStateWire\<close> struct). The main results: the invariant \<open>build_inv\<close>,
  kept by every event, ties that map and the current step to the running steps, and
  \<open>build_step_duration\<close> says what a finished step shows.
\<close>

record build_step =
  bs_name :: string
  bs_status :: string
  bs_duration_ms :: i64

record build_state =
  bd_status :: string
  bd_current_step :: string
  bd_steps :: "build_step list"
  bd_started_at :: time
  bd_finished_at :: time
  bd_duration_ms :: i64
  bd_step_starts :: "(string, time) fmap"

definition build_step_dec :: "json \<Rightarrow> build_step decoded" where
  "build_step_dec = dec_struct (\<lambda>f.
     (let (n, ok1) = dec_string (f ''name''); (st, ok2) = dec_string (f ''status'');
          (d, ok3) = dec_i64 (f ''duration_ms'')
      in (\<lparr>bs_name = n, bs_status = st, bs_duration_ms = d\<rparr>, ok1 \<and> ok2 \<and> ok3)))"

definition build_step_enc :: "build_step \<Rightarrow> json option" where
  "build_step_enc b = Some (JObj ([(''name'', JStr (bs_name b)), (''status'', JStr (bs_status b))]
     @ opt_i64 ''duration_ms'' (bs_duration_ms b)))"

text \<open>\<open>BuildState.UnmarshalJSON\<close> and \<open>MarshalJSON\<close>, through \<open>buildStateWire\<close>.\<close>

definition build_dec :: "json \<Rightarrow> build_state decoded" where
  "build_dec = dec_struct (\<lambda>f.
     (let (st, ok1) = dec_string (f ''status''); (cs, ok2) = dec_string (f ''current_step'');
          (ss, ok3) = dec_list build_step_dec (f ''steps''); (sa, ok4) = dec_time (f ''started_at'');
          (fa, ok5) = dec_time (f ''finished_at''); (du, ok6) = dec_i64 (f ''duration_ms'');
          (m, ok7) = dec_map dec_time (f ''_step_starts'')
      in (\<lparr>bd_status = st, bd_current_step = cs, bd_steps = ss, bd_started_at = sa, bd_finished_at = fa,
           bd_duration_ms = du, bd_step_starts = m\<rparr>,
          ok1 \<and> ok2 \<and> ok3 \<and> ok4 \<and> ok5 \<and> ok6 \<and> ok7)))"

definition enc_time_map :: "(string, time) fmap \<Rightarrow> (string \<times> json) list option" where
  "enc_time_map m = those (map (\<lambda>(k, t). map_option (Pair k) (enc_time t)) (fm_items m))"

definition build_enc :: "build_state \<Rightarrow> json option" where
  "build_enc s =
     (case (those (map build_step_enc (bd_steps s)), enc_time (bd_started_at s), enc_time (bd_finished_at s),
            enc_time_map (bd_step_starts s)) of
        (Some ss, Some sa, Some fa, Some m) \<Rightarrow>
          Some (JObj ([(''status'', JStr (bd_status s))] @ opt_string ''current_step'' (bd_current_step s)
            @ opt_list ''steps'' ss @ [(''started_at'', sa), (''finished_at'', fa)]
            @ opt_i64 ''duration_ms'' (bd_duration_ms s) @ opt_field (m \<noteq> []) ''_step_starts'' (JObj m)))
      | _ \<Rightarrow> None)"

text \<open>The loop over \<open>s.Steps\<close>: the first running step of the name.\<close>

fun finish_step :: "string \<Rightarrow> string \<Rightarrow> i64 \<Rightarrow> build_step list \<Rightarrow> build_step list" where
  "finish_step name status dur [] = []"
| "finish_step name status dur (b # bs) =
     (if bs_name b = name \<and> bs_status b = ''running''
      then b\<lparr>bs_status := status, bs_duration_ms := dur\<rparr> # bs
      else b # finish_step name status dur bs)"

definition build_apply_step :: "event \<Rightarrow> build_state \<Rightarrow> build_state" where
  "build_apply_step e s =
     (let p = payload_map (ev_payload e) in
      if ev_type e = ''build_queued'' then s\<lparr>bd_status := ''queued''\<rparr>
      else if ev_type e = ''build_started'' then s\<lparr>bd_status := ''running'', bd_started_at := ev_at e\<rparr>
      else if ev_type e = ''step_started'' then
        (let name = get_str p ''step''
         in s\<lparr>bd_current_step := name, bd_step_starts := fmupd name (ev_at e) (bd_step_starts s),
              bd_steps := bd_steps s @ [\<lparr>bs_name = name, bs_status = ''running'', bs_duration_ms = 0\<rparr>]\<rparr>)
      else if ev_type e = ''step_finished'' then
        (let name = get_str p ''step''; st0 = get_str p ''status'';
             status = (if st0 = [] then ''success'' else st0);
             (dur, starts) = (case fmlookup (bd_step_starts s) name of
                 Some t \<Rightarrow> (milliseconds (time_sub (ev_at e) t), fmdrop name (bd_step_starts s))
               | None \<Rightarrow> (0, bd_step_starts s))
         in s\<lparr>bd_step_starts := starts, bd_steps := finish_step name status dur (bd_steps s),
              bd_current_step := (if bd_current_step s = name then [] else bd_current_step s)\<rparr>)
      else if ev_type e = ''build_finished'' then
        (let st0 = get_str p ''status''; status = (if st0 = [] then ''success'' else st0);
             s1 = s\<lparr>bd_status := status, bd_finished_at := ev_at e\<rparr>
         in if \<not> is_zero_time (bd_started_at s1)
            then s1\<lparr>bd_duration_ms := milliseconds (time_sub (bd_finished_at s1) (bd_started_at s1))\<rparr>
            else s1)
      else s)"

definition build_apply :: reducer where
  "build_apply = apply_strict build_dec build_enc build_apply_step"

section \<open>The reducer contract\<close>

lemma build_step_roundtrip: "build_step_enc b = Some j \<Longrightarrow> build_step_dec j = (b, True)"
  by (cases b) (auto simp: build_step_enc_def build_step_dec_def struct_codec)

lemma enc_time_map_Some:
  "enc_time_map m = Some kvs \<longleftrightarrow>
     list_all (\<lambda>(k, t). valid_year t) (fm_items m)
     \<and> kvs = map (\<lambda>(k, t). (k, JStr (format_time t))) (fm_items m)"
proof -
  have eq: "(\<lambda>(k, t). map_option (Pair k) (enc_time t)) =
      (\<lambda>x. if (\<lambda>(k, t). valid_year t) x then Some ((\<lambda>(k, t). (k, JStr (format_time t))) x) else None)"
    by (auto simp: fun_eq_iff enc_time_valid)
  show ?thesis unfolding enc_time_map_def eq those_map_if by auto
qed

lemma dec_time_map:
  assumes "enc_time_map m = Some kvs"
  shows "dec_map dec_time (JObj kvs) = (m, True)"
proof -
  have v: "list_all (\<lambda>(k, t). valid_year t) (fm_items m)"
    and kvs: "kvs = map (\<lambda>(k, t). (k, JStr (format_time t))) (fm_items m)"
    using assms by (simp_all add: enc_time_map_Some)
  have "map (\<lambda>(k, v). (k, fst (dec_time v))) kvs = fm_items m"
    using v by (auto simp: kvs codec_simps list_all_iff intro!: map_idI)
  moreover have "list_all (snd \<circ> dec_time \<circ> snd) kvs"
    using v by (auto simp: kvs codec_simps list_all_iff)
  ultimately show ?thesis by (simp add: dec_map_def)
qed

lemma enc_time_map_Nil: "enc_time_map m = Some [] \<Longrightarrow> m = fmempty"
  by (simp add: enc_time_map_Some fm_items_Nil_iff)

lemma dec_opt_time_map:
  "enc_time_map m = Some kvs \<Longrightarrow>
   dec_map dec_time (case (if kvs \<noteq> [] then Some (JObj kvs) else None) of Some v \<Rightarrow> v | None \<Rightarrow> JNull) = (m, True)"
  using dec_time_map[of m kvs] enc_time_map_Nil[of m] by (cases "kvs = []") (simp_all add: dec_map_def)

lemma build_roundtrip: "build_enc s = Some j \<Longrightarrow> build_dec j = (s, True)"
proof -
  assume "build_enc s = Some j"
  then obtain ss m where e: "those (map build_step_enc (bd_steps s)) = Some ss"
      "enc_time_map (bd_step_starts s) = Some m" "valid_year (bd_started_at s)" "valid_year (bd_finished_at s)"
    and j: "j = JObj ([(''status'', JStr (bd_status s))] @ opt_string ''current_step'' (bd_current_step s)
            @ opt_list ''steps'' ss @ [(''started_at'', JStr (format_time (bd_started_at s))),
              (''finished_at'', JStr (format_time (bd_finished_at s)))]
            @ opt_i64 ''duration_ms'' (bd_duration_ms s) @ opt_field (m \<noteq> []) ''_step_starts'' (JObj m))"
    by (auto simp: build_enc_def enc_time_Some split: option.splits)
  show ?thesis
    using e(3,4) dec_opt_list[OF build_step_roundtrip e(1)] dec_opt_time_map[OF e(2)]
    by (auto simp: j build_dec_def struct_codec split: if_splits)
qed

interpretation build_red: json_reducer build_dec build_enc build_apply_step build_apply
  by unfold_locales (simp_all add: build_roundtrip build_apply_def apply_strict_applies)

section \<open>The running steps\<close>

lemma fmdrop_absent: "fmlookup m k = None \<Longrightarrow> fmdrop k m = m"
  by (rule fmap_ext) auto

lemma fmdrop_fmupd_same: "fmdrop k (fmupd k v m) = fmdrop k m"
  by (rule fmap_ext) auto

definition running :: "build_state \<Rightarrow> string \<Rightarrow> bool" where
  "running s name \<longleftrightarrow> (\<exists>b \<in> set (bd_steps s). bs_name b = name \<and> bs_status b = ''running'')"

text \<open>A step with a start time is running, and the current step, when there is one, has a start time.\<close>

definition build_inv :: "build_state \<Rightarrow> bool" where
  "build_inv s \<longleftrightarrow>
     (\<forall>name. name |\<in>| fmdom (bd_step_starts s) \<longrightarrow> running s name)
     \<and> (bd_current_step s \<noteq> [] \<longrightarrow> bd_current_step s |\<in>| fmdom (bd_step_starts s))"

lemma finish_step_other:
  "name' \<noteq> name \<Longrightarrow>
   filter (\<lambda>b. bs_name b = name') (finish_step name status dur bs) = filter (\<lambda>b. bs_name b = name') bs"
  by (induction bs) auto

lemma running_filter: "running s name \<longleftrightarrow> (\<exists>b \<in> set (filter (\<lambda>b. bs_name b = name) (bd_steps s)). bs_status b = ''running'')"
  by (auto simp: running_def)

lemma build_inv_step:
  assumes "build_inv s"
  shows "build_inv (build_apply_step e s)"
proof -
  let ?s' = "build_apply_step e s"
  consider "ev_type e = ''step_started''" | "ev_type e = ''step_finished''"
    | "ev_type e \<noteq> ''step_started''" "ev_type e \<noteq> ''step_finished''" by blast
  then show ?thesis
  proof cases
    case 1
    then show ?thesis using assms by (auto simp: build_apply_step_def build_inv_def running_def Let_def)
  next
    case 2
    define name where "name = get_str (payload_map (ev_payload e)) ''step''"
    have "\<exists>status dur. bd_steps ?s' = finish_step name status dur (bd_steps s)"
      using 2 by (cases "fmlookup (bd_step_starts s) name") (auto simp: build_apply_step_def Let_def name_def)
    then obtain status dur where steps: "bd_steps ?s' = finish_step name status dur (bd_steps s)" by blast
    have starts: "bd_step_starts ?s' = fmdrop name (bd_step_starts s)"
      using 2 by (cases "fmlookup (bd_step_starts s) name")
        (auto simp: build_apply_step_def Let_def name_def fmdrop_absent)
    have cur: "bd_current_step ?s' = (if bd_current_step s = name then [] else bd_current_step s)"
      using 2 by (simp add: build_apply_step_def Let_def name_def split: option.splits)
    have "running ?s' n" if "n |\<in>| fmdom (bd_step_starts s)" "n \<noteq> name" for n
      using assms that finish_step_other[OF that(2)] by (simp add: build_inv_def running_filter steps)
    then show ?thesis using assms by (auto simp: build_inv_def starts cur)
  next
    case 3
    then show ?thesis using assms by (auto simp: build_apply_step_def build_inv_def running_def Let_def)
  qed
qed

lemma build_inv_start: "build_inv (fst (build_dec JNull))"
  by (simp add: build_inv_def build_dec_def dec_struct_def codec_simps dec_map_def)

text \<open>C33: after any stream the stored state of a build decodes, every step whose start time is kept
  is a running step, and the current step, when there is one, is a running step with its start time kept.\<close>

theorem build_state_consistent:
  "\<exists>s. load_raw build_dec (raw_fold build_apply RNil es) = (s, True)
    \<and> (\<forall>name. name |\<in>| fmdom (bd_step_starts s) \<longrightarrow> running s name)
    \<and> (bd_current_step s \<noteq> [] \<longrightarrow>
         bd_current_step s |\<in>| fmdom (bd_step_starts s) \<and> running s (bd_current_step s))"
proof -
  have "build_inv (typed_fold build_enc build_apply_step (fst (build_dec JNull)) es)"
    by (rule typed_fold_invariant[where P = build_inv, OF build_inv_start build_inv_step])
  then show ?thesis
    using build_red.load_raw_fold[of es] by (auto simp: build_inv_def)
qed

definition step_event :: "string \<Rightarrow> string \<Rightarrow> string \<Rightarrow> time \<Rightarrow> event" where
  "step_event typ name status now = new_event ''build/1'' typ [] (RJson (JObj [(''step'', JStr name), (''status'', JStr status)])) now"

theorem build_state_consistent_witness:
  "\<exists>s. load_raw build_dec (raw_fold build_apply RNil [step_event ''step_started'' ''lint'' [] 5]) = (s, True)
    \<and> (bd_current_step s \<noteq> [] \<longrightarrow> running s (bd_current_step s))"
  using build_state_consistent[of "[step_event ''step_started'' ''lint'' [] 5]"] by blast

text \<open>A step that runs once and finishes within the 64-bit range of nanoseconds shows its name,
  the status it finished with (\<open>success\<close> when none was given) and its duration in milliseconds; it
  is no longer the current step and its start time is dropped.\<close>

lemma build_step_duration:
  assumes "\<forall>b \<in> set (bd_steps s). bs_name b \<noteq> name"
    and "start \<le> stop" "stop - start < 2 ^ 63"
  shows "let s' = build_apply_step (step_event ''step_finished'' name status stop)
                    (build_apply_step (step_event ''step_started'' name [] start) s)
    in bd_steps s' = bd_steps s @ [\<lparr>bs_name = name, bs_status = (if status = [] then ''success'' else status),
          bs_duration_ms = word_of_int ((stop - start) div 1000000)\<rparr>]
       \<and> bd_current_step s' = [] \<and> bd_step_starts s' = fmdrop name (bd_step_starts s)"
proof -
  have fs: "finish_step name st d (bs @ [b]) = bs @ [b\<lparr>bs_status := st, bs_duration_ms := d\<rparr>]"
    if "\<forall>b \<in> set bs. bs_name b \<noteq> name" "bs_name b = name" "bs_status b = ''running''" for st d bs b
    using that by (induction bs) auto
  have "sint (time_sub stop start) = stop - start"
    using assms(2,3) by (simp add: sint_time_sub)
  then have "milliseconds (time_sub stop start) = word_of_int ((stop - start) div 1000000)"
    using assms(2) by (cases "start = stop") (simp_all add: milliseconds_def signed_divide_int_def)
  then show ?thesis
    using fs[OF assms(1)]
    by (simp add: build_apply_step_def step_event_def new_event_def get_str_def pget_def Let_def fmdrop_fmupd_same)
qed

lemma build_step_duration_example:
  "bd_steps (build_apply_step (step_event ''step_finished'' ''lint'' [] 7000000)
      (build_apply_step (step_event ''step_started'' ''lint'' [] 2000000) (fst (build_dec JNull))))
    = [\<lparr>bs_name = ''lint'', bs_status = ''success'', bs_duration_ms = 5\<rparr>]"
proof -
  have "bd_steps (fst (build_dec JNull)) = []"
    by (simp add: build_dec_def dec_struct_def codec_simps dec_map_def)
  then show ?thesis
    using build_step_duration[of "fst (build_dec JNull)" "''lint''" 2000000 7000000 "[]"]
    by (simp add: Let_def)
qed

end
