(* ===== verification/PRReducer.thy ===== *)
theory PRReducer
  imports Reducers
begin

text \<open>
  Pull requests, \<open>internal/objtypes/pr.go\<close>. The main result, \<open>pr_state_spec\<close>, reads labels,
  reviewers, comment and review counts back from the stream; \<open>pr_merged_final\<close> is the state machine
  of the pull request's state.
\<close>

record pr_checks =
  pc_passed :: i64
  pc_failed :: i64
  pc_pending :: i64

record pr_state =
  ps_title :: string
  ps_author :: string
  ps_base :: string
  ps_head :: string
  ps_state :: string
  ps_reviewers :: "string list"
  ps_approvals :: i64
  ps_changes_requested :: i64
  ps_labels :: "string list"
  ps_checks :: pr_checks
  ps_comments :: i64
  ps_merged_at :: time
  ps_updated_at :: time

definition pr_checks_dec :: "json \<Rightarrow> pr_checks decoded" where
  "pr_checks_dec = dec_struct (\<lambda>f.
     (let (p, ok1) = dec_i64 (f ''passed''); (x, ok2) = dec_i64 (f ''failed''); (q, ok3) = dec_i64 (f ''pending'')
      in (\<lparr>pc_passed = p, pc_failed = x, pc_pending = q\<rparr>, ok1 \<and> ok2 \<and> ok3)))"

definition pr_checks_enc :: "pr_checks \<Rightarrow> json" where
  "pr_checks_enc c = JObj [(''passed'', enc_i64 (pc_passed c)), (''failed'', enc_i64 (pc_failed c)),
     (''pending'', enc_i64 (pc_pending c))]"

definition pr_dec :: "json \<Rightarrow> pr_state decoded" where
  "pr_dec = dec_struct (\<lambda>f.
     (let (ti, ok1) = dec_string (f ''title''); (au, ok2) = dec_string (f ''author'');
          (ba, ok3) = dec_string (f ''base''); (he, ok4) = dec_string (f ''head'');
          (st, ok5) = dec_string (f ''state''); (rv, ok6) = dec_list dec_string (f ''reviewers'');
          (ap, ok7) = dec_i64 (f ''approvals''); (cr, ok8) = dec_i64 (f ''changes_requested'');
          (la, ok9) = dec_list dec_string (f ''labels''); (ch, ok10) = pr_checks_dec (f ''checks'');
          (co, ok11) = dec_i64 (f ''comments''); (me, ok12) = dec_time (f ''merged_at'');
          (up, ok13) = dec_time (f ''updated_at'')
      in (\<lparr>ps_title = ti, ps_author = au, ps_base = ba, ps_head = he, ps_state = st, ps_reviewers = rv,
           ps_approvals = ap, ps_changes_requested = cr, ps_labels = la, ps_checks = ch, ps_comments = co,
           ps_merged_at = me, ps_updated_at = up\<rparr>,
          ok1 \<and> ok2 \<and> ok3 \<and> ok4 \<and> ok5 \<and> ok6 \<and> ok7 \<and> ok8 \<and> ok9 \<and> ok10 \<and> ok11 \<and> ok12 \<and> ok13)))"

definition pr_enc :: "pr_state \<Rightarrow> json option" where
  "pr_enc s =
     (case (enc_time (ps_merged_at s), enc_time (ps_updated_at s)) of
        (Some me, Some up) \<Rightarrow>
          Some (JObj (opt_string ''title'' (ps_title s) @ opt_string ''author'' (ps_author s)
            @ opt_string ''base'' (ps_base s) @ opt_string ''head'' (ps_head s) @ opt_string ''state'' (ps_state s)
            @ opt_list ''reviewers'' (map JStr (ps_reviewers s))
            @ [(''approvals'', enc_i64 (ps_approvals s)), (''changes_requested'', enc_i64 (ps_changes_requested s))]
            @ opt_list ''labels'' (map JStr (ps_labels s))
            @ [(''checks'', pr_checks_enc (ps_checks s)), (''comments'', enc_i64 (ps_comments s)),
               (''merged_at'', me), (''updated_at'', up)]))
      | _ \<Rightarrow> None)"

definition check_run :: "string \<Rightarrow> pr_checks \<Rightarrow> pr_checks" where
  "check_run conclusion c =
     (if conclusion = ''success'' then
        (let c1 = c\<lparr>pc_passed := pc_passed c + 1\<rparr>
         in if 0 < sint (pc_pending c1) then c1\<lparr>pc_pending := pc_pending c1 - 1\<rparr> else c1)
      else if conclusion = ''failure'' \<or> conclusion = ''timed_out'' \<or> conclusion = ''cancelled'' then
        (let c1 = c\<lparr>pc_failed := pc_failed c + 1\<rparr>
         in if 0 < sint (pc_pending c1) then c1\<lparr>pc_pending := pc_pending c1 - 1\<rparr> else c1)
      else if conclusion = ''pending'' \<or> conclusion = ''queued'' \<or> conclusion = ''in_progress'' then
        c\<lparr>pc_pending := pc_pending c + 1\<rparr>
      else c)"

text \<open>What every event does first, and the \<open>pr_opened\<close> case.\<close>

definition pr_touch :: "event \<Rightarrow> pr_state \<Rightarrow> pr_state" where
  "pr_touch e s =
     (let s0 = (if ps_state s = [] then s\<lparr>ps_state := ''open''\<rparr> else s) in s0\<lparr>ps_updated_at := ev_at e\<rparr>)"

definition pr_opened :: "payload \<Rightarrow> pr_state \<Rightarrow> pr_state" where
  "pr_opened p s =
     (let v1 = get_str p ''title''; s1 = (if v1 \<noteq> [] then s\<lparr>ps_title := v1\<rparr> else s);
          v2 = get_str p ''author''; s2 = (if v2 \<noteq> [] then s1\<lparr>ps_author := v2\<rparr> else s1);
          v3 = get_str p ''base''; s3 = (if v3 \<noteq> [] then s2\<lparr>ps_base := v3\<rparr> else s2);
          v4 = get_str p ''head''; s4 = (if v4 \<noteq> [] then s3\<lparr>ps_head := v4\<rparr> else s3)
      in s4\<lparr>ps_state := ''open''\<rparr>)"

definition pr_step :: "event \<Rightarrow> pr_state \<Rightarrow> pr_state" where
  "pr_step e s0 =
     (let s = pr_touch e s0; p = payload_map (ev_payload e) in
      if ev_type e = ''pr_opened'' then pr_opened p s
      else if ev_type e = ''pr_sync'' then
        (let v = get_str p ''head'' in if v \<noteq> [] then s\<lparr>ps_head := v\<rparr> else s)
      else if ev_type e = ''pr_review_requested'' then
        (let v = get_str p ''reviewer''
         in if v \<noteq> [] then s\<lparr>ps_reviewers := add_unique (ps_reviewers s) v\<rparr> else s)
      else if ev_type e = ''pr_reviewed'' then
        (if get_str p ''state'' = ''approved'' then s\<lparr>ps_approvals := ps_approvals s + 1\<rparr>
         else if get_str p ''state'' = ''changes_requested'' then s\<lparr>ps_changes_requested := ps_changes_requested s + 1\<rparr>
         else s)
      else if ev_type e = ''pr_commented'' then s\<lparr>ps_comments := ps_comments s + 1\<rparr>
      else if ev_type e = ''pr_labeled'' then
        (let v = get_str p ''label''
         in if v \<noteq> [] then s\<lparr>ps_labels := add_unique (ps_labels s) v\<rparr> else s)
      else if ev_type e = ''pr_unlabeled'' then
        (let v = get_str p ''label''
         in if v \<noteq> [] then s\<lparr>ps_labels := remove_string (ps_labels s) v\<rparr> else s)
      else if ev_type e = ''pr_merged'' then s\<lparr>ps_state := ''merged'', ps_merged_at := ev_at e\<rparr>
      else if ev_type e = ''pr_closed'' then
        (if ps_state s \<noteq> ''merged'' then s\<lparr>ps_state := ''closed''\<rparr> else s)
      else if ev_type e = ''check_run_completed'' then
        s\<lparr>ps_checks := check_run (get_str p ''conclusion'') (ps_checks s)\<rparr>
      else s)"

definition pr_apply :: reducer where
  "pr_apply = apply_strict pr_dec pr_enc pr_step"

section \<open>The reducer contract\<close>

lemma pr_checks_roundtrip: "pr_checks_dec (pr_checks_enc c) = (c, True)"
  by (simp add: pr_checks_enc_def pr_checks_dec_def struct_codec)

lemma pr_roundtrip: "pr_enc s = Some j \<Longrightarrow> pr_dec j = (s, True)"
proof -
  assume "pr_enc s = Some j"
  then show ?thesis
    using dec_opt_strings[of "ps_reviewers s"] dec_opt_strings[of "ps_labels s"]
    by (auto simp: pr_enc_def pr_dec_def struct_codec pr_checks_roundtrip split: option.splits if_splits)
qed

interpretation pr_red: json_reducer pr_dec pr_enc pr_step pr_apply
  by unfold_locales (simp_all add: pr_roundtrip pr_apply_def apply_strict_applies)

section \<open>What the stored state says of the stream\<close>

abbreviation "pr_field e k \<equiv> get_str (payload_map (ev_payload e)) k"

definition label_write :: "string \<Rightarrow> event \<Rightarrow> bool option" where
  "label_write l e =
     (if l \<noteq> [] \<and> pr_field e ''label'' = l then
        (if ev_type e = ''pr_labeled'' then Some True
         else if ev_type e = ''pr_unlabeled'' then Some False
         else None)
      else None)"

definition requests :: "string \<Rightarrow> event \<Rightarrow> bool" where
  "requests r e \<longleftrightarrow> ev_type e = ''pr_review_requested'' \<and> r \<noteq> [] \<and> pr_field e ''reviewer'' = r"

definition reviewed :: "string \<Rightarrow> event \<Rightarrow> bool" where
  "reviewed st e \<longleftrightarrow> ev_type e = ''pr_reviewed'' \<and> pr_field e ''state'' = st"

definition concludes :: "string set \<Rightarrow> event \<Rightarrow> bool" where
  "concludes cs e \<longleftrightarrow> ev_type e = ''check_run_completed'' \<and> pr_field e ''conclusion'' \<in> cs"

definition count_events :: "(event \<Rightarrow> bool) \<Rightarrow> event list \<Rightarrow> i64" where
  "count_events P es = of_nat (length (filter P es))"

lemma count_events_snoc [simp]:
  "count_events P [] = 0" "count_events P (es @ [e]) = (if P e then count_events P es + 1 else count_events P es)"
  by (simp_all add: count_events_def)

lemma pr_touch_parts [simp]:
  "ps_labels (pr_touch e s) = ps_labels s" "ps_reviewers (pr_touch e s) = ps_reviewers s"
  "ps_comments (pr_touch e s) = ps_comments s" "ps_approvals (pr_touch e s) = ps_approvals s"
  "ps_changes_requested (pr_touch e s) = ps_changes_requested s" "ps_checks (pr_touch e s) = ps_checks s"
  "ps_updated_at (pr_touch e s) = ev_at e" "ps_merged_at (pr_touch e s) = ps_merged_at s"
  "ps_state (pr_touch e s) = (if ps_state s = [] then ''open'' else ps_state s)"
  by (simp_all add: pr_touch_def Let_def)

lemma pr_opened_parts [simp]:
  "ps_labels (pr_opened p s) = ps_labels s" "ps_reviewers (pr_opened p s) = ps_reviewers s"
  "ps_comments (pr_opened p s) = ps_comments s" "ps_approvals (pr_opened p s) = ps_approvals s"
  "ps_changes_requested (pr_opened p s) = ps_changes_requested s" "ps_checks (pr_opened p s) = ps_checks s"
  "ps_updated_at (pr_opened p s) = ps_updated_at s" "ps_merged_at (pr_opened p s) = ps_merged_at s"
  "ps_state (pr_opened p s) = ''open''"
  by (simp_all add: pr_opened_def Let_def)

lemma pr_step_lists:
  "distinct (ps_labels s) \<Longrightarrow> distinct (ps_labels (pr_step e s))"
  "distinct (ps_reviewers s) \<Longrightarrow> distinct (ps_reviewers (pr_step e s))"
  "l \<in> set (ps_labels (pr_step e s)) = (case label_write l e of Some b \<Rightarrow> b | None \<Rightarrow> l \<in> set (ps_labels s))"
  "r \<in> set (ps_reviewers (pr_step e s)) = (requests r e \<or> r \<in> set (ps_reviewers s))"
  unfolding pr_step_def Let_def label_write_def requests_def by auto

lemma pr_step_counts:
  "ps_comments (pr_step e s) = (if ev_type e = ''pr_commented'' then ps_comments s + 1 else ps_comments s)"
  "ps_approvals (pr_step e s) = (if reviewed ''approved'' e then ps_approvals s + 1 else ps_approvals s)"
  "ps_changes_requested (pr_step e s) =
     (if reviewed ''changes_requested'' e then ps_changes_requested s + 1 else ps_changes_requested s)"
  "ps_checks (pr_step e s) =
     (if ev_type e = ''check_run_completed'' then check_run (pr_field e ''conclusion'') (ps_checks s) else ps_checks s)"
  unfolding pr_step_def Let_def reviewed_def by auto

lemma pr_step_times:
  "ps_updated_at (pr_step e s) = ev_at e"
  "ps_merged_at (pr_step e s) = (if ev_type e = ''pr_merged'' then ev_at e else ps_merged_at s)"
  unfolding pr_step_def Let_def by auto

lemma check_run_counts:
  "pc_passed (check_run c k) = (if c = ''success'' then pc_passed k + 1 else pc_passed k)"
  "pc_failed (check_run c k) = (if c \<in> {''failure'', ''timed_out'', ''cancelled''} then pc_failed k + 1 else pc_failed k)"
  by (auto simp: check_run_def Let_def)

definition pr_spec :: "event list \<Rightarrow> pr_state \<Rightarrow> bool" where
  "pr_spec es s \<longleftrightarrow>
     distinct (ps_labels s) \<and> distinct (ps_reviewers s)
     \<and> (\<forall>l. l \<in> set (ps_labels s) \<longleftrightarrow> last_write (label_write l) False es)
     \<and> (\<forall>r. r \<in> set (ps_reviewers s) \<longleftrightarrow> list_ex (requests r) es)
     \<and> ps_comments s = count_events (\<lambda>e. ev_type e = ''pr_commented'') es
     \<and> ps_approvals s = count_events (reviewed ''approved'') es
     \<and> ps_changes_requested s = count_events (reviewed ''changes_requested'') es
     \<and> pc_passed (ps_checks s) = count_events (concludes {''success''}) es
     \<and> pc_failed (ps_checks s) = count_events (concludes {''failure'', ''timed_out'', ''cancelled''}) es"

lemma pr_spec_step: "pr_spec es s \<Longrightarrow> pr_spec (es @ [e]) (pr_step e s)"
  unfolding pr_spec_def
  by (auto simp: pr_step_lists pr_step_counts check_run_counts concludes_def split: option.splits)

text \<open>C32: the stored state of a pull request decodes; its labels, listed once each, are those whose
  last \<open>pr_labeled\<close> or \<open>pr_unlabeled\<close> added them, its reviewers those ever requested; comments,
  approvals, requested changes, passed and failed checks are the numbers of those events.\<close>

theorem pr_state_spec:
  assumes "\<forall>e \<in> set es. valid_year (ev_at e)"
  shows "\<exists>s. load_raw pr_dec (raw_fold pr_apply RNil es) = (s, True)
    \<and> distinct (ps_labels s) \<and> (\<forall>l. l \<in> set (ps_labels s) \<longleftrightarrow> last_write (label_write l) False es)
    \<and> distinct (ps_reviewers s) \<and> (\<forall>r. r \<in> set (ps_reviewers s) \<longleftrightarrow> (\<exists>e \<in> set es. requests r e))
    \<and> ps_comments s = count_events (\<lambda>e. ev_type e = ''pr_commented'') es
    \<and> ps_approvals s = count_events (reviewed ''approved'') es
    \<and> ps_changes_requested s = count_events (reviewed ''changes_requested'') es
    \<and> pc_passed (ps_checks s) = count_events (concludes {''success''}) es
    \<and> pc_failed (ps_checks s) = count_events (concludes {''failure'', ''timed_out'', ''cancelled''}) es"
proof -
  define s0 where "s0 = fst (pr_dec JNull)"
  let ?P = "\<lambda>s. valid_year (ps_merged_at s) \<and> valid_year (ps_updated_at s)"
  have s0: "?P s0" "pr_spec [] s0"
    by (simp_all add: s0_def pr_dec_def pr_checks_dec_def dec_struct_def codec_simps pr_spec_def)
  have enc: "pr_enc s \<noteq> None" if "?P s" for s using that by (simp add: pr_enc_def enc_time_valid)
  have "typed_fold pr_enc pr_step s0 es = foldl (\<lambda>s e. pr_step e s) s0 es"
    using typed_fold_total[of es "\<lambda>e. valid_year (ev_at e)" ?P s0 pr_step pr_enc]
      assms s0(1) pr_step_times enc by simp
  moreover have "pr_spec es (foldl (\<lambda>s e. pr_step e s) s0 es)"
    by (induction es rule: rev_induct) (simp_all add: s0(2) pr_spec_step)
  ultimately show ?thesis
    using pr_red.load_raw_fold[of es]
    by (simp add: s0_def[symmetric] pr_spec_def list_ex_iff)
qed

theorem pr_state_spec_witness:
  "\<exists>s. load_raw pr_dec (raw_fold pr_apply RNil
      [new_event ''pr/1'' ''pr_labeled'' [] (RJson (JObj [(''label'', JStr ''bug'')])) 7,
       new_event ''pr/1'' ''pr_commented'' [] RNil 8, new_event ''pr/1'' ''pr_commented'' [] RNil 9]) = (s, True)
    \<and> ''bug'' \<in> set (ps_labels s) \<and> ps_comments s = 2"
proof -
  let ?es = "[new_event ''pr/1'' ''pr_labeled'' [] (RJson (JObj [(''label'', JStr ''bug'')])) 7,
       new_event ''pr/1'' ''pr_commented'' [] RNil 8, new_event ''pr/1'' ''pr_commented'' [] RNil 9]"
  have v: "\<forall>e \<in> set ?es. valid_year (ev_at e)"
    by (simp add: new_event_def valid_year_def year_of_day_def)
  have "last_write (label_write ''bug'') False ?es" "count_events (\<lambda>e. ev_type e = ''pr_commented'') ?es = 2"
    by (simp_all add: last_write_def label_write_def new_event_def get_str_def pget_def count_events_def)
  with pr_state_spec[OF v] show ?thesis by force
qed

text \<open>Once merged, a pull request stays merged through any events but a \<open>pr_opened\<close>: closing it
  does not unmerge it.\<close>

lemma pr_merged_final:
  assumes "ps_state s = ''merged''" "\<forall>e \<in> set es. ev_type e \<noteq> ''pr_opened''"
  shows "ps_state (typed_fold pr_enc pr_step s es) = ''merged''"
  using assms
proof (induction es arbitrary: s)
  case (Cons e es)
  then have "ps_state (pr_step e s) = ''merged''" unfolding pr_step_def Let_def by auto
  with Cons show ?case by (auto simp: typed_step_def)
qed simp

lemma pr_merged_final_example:
  "ps_state (typed_fold pr_enc pr_step ((fst (pr_dec JNull))\<lparr>ps_state := ''merged''\<rparr>)
     [new_event ''pr/1'' ''pr_closed'' [] RNil 1]) = ''merged''"
  by (rule pr_merged_final) (simp_all add: new_event_def)

end
