(* ===== verification/DeployReducer.thy ===== *)
theory DeployReducer
  imports Reducers
begin

text \<open>
  Deployments, \<open>internal/objtypes/deploy.go\<close>: the current and the previous version, and a health
  state machine. \<open>deploy_health_spec\<close> says which health a stream of checks leads to,
  \<open>deploy_rollback_spec\<close> that a rollback goes back to the version before.
\<close>

record deploy_state =
  ds_env :: string
  ds_service :: string
  ds_current_version :: string
  ds_previous_version :: string
  ds_health :: string
  ds_in_progress :: bool
  ds_last_deploy_at :: time
  ds_last_success_at :: time

definition deploy_dec :: "json \<Rightarrow> deploy_state decoded" where
  "deploy_dec = dec_struct (\<lambda>f.
     (let (en, ok1) = dec_string (f ''env''); (se, ok2) = dec_string (f ''service'');
          (cv, ok3) = dec_string (f ''current_version''); (pv, ok4) = dec_string (f ''previous_version'');
          (he, ok5) = dec_string (f ''health''); (ip, ok6) = dec_bool (f ''in_progress'');
          (ld, ok7) = dec_time (f ''last_deploy_at''); (ls, ok8) = dec_time (f ''last_success_at'')
      in (\<lparr>ds_env = en, ds_service = se, ds_current_version = cv, ds_previous_version = pv, ds_health = he,
           ds_in_progress = ip, ds_last_deploy_at = ld, ds_last_success_at = ls\<rparr>,
          ok1 \<and> ok2 \<and> ok3 \<and> ok4 \<and> ok5 \<and> ok6 \<and> ok7 \<and> ok8)))"

definition deploy_enc :: "deploy_state \<Rightarrow> json option" where
  "deploy_enc s =
     (case (enc_time (ds_last_deploy_at s), enc_time (ds_last_success_at s)) of
        (Some ld, Some ls) \<Rightarrow>
          Some (JObj (opt_string ''env'' (ds_env s) @ opt_string ''service'' (ds_service s)
            @ opt_string ''current_version'' (ds_current_version s)
            @ opt_string ''previous_version'' (ds_previous_version s)
            @ [(''health'', JStr (ds_health s)), (''in_progress'', JBool (ds_in_progress s)),
               (''last_deploy_at'', ld), (''last_success_at'', ls)]))
      | _ \<Rightarrow> None)"

definition deploy_step :: "event \<Rightarrow> deploy_state \<Rightarrow> deploy_state" where
  "deploy_step e s0 =
     (let s = (if ds_health s0 = [] then s0\<lparr>ds_health := ''unknown''\<rparr> else s0);
          p = payload_map (ev_payload e)
      in
      if ev_type e = ''deploy_started'' then
        (let s1 = s\<lparr>ds_in_progress := True, ds_last_deploy_at := ev_at e\<rparr>;
             v1 = get_str p ''version'';
             s2 = (if v1 \<noteq> [] then s1\<lparr>ds_previous_version := ds_current_version s1, ds_current_version := v1\<rparr> else s1);
             v2 = get_str p ''env''; s3 = (if v2 \<noteq> [] then s2\<lparr>ds_env := v2\<rparr> else s2);
             v3 = get_str p ''service''
         in if v3 \<noteq> [] then s3\<lparr>ds_service := v3\<rparr> else s3)
      else if ev_type e = ''health_check_pass'' then s\<lparr>ds_health := ''healthy''\<rparr>
      else if ev_type e = ''health_check_fail'' then
        (if ds_health s = ''healthy'' then s\<lparr>ds_health := ''degraded''\<rparr> else s\<lparr>ds_health := ''down''\<rparr>)
      else if ev_type e = ''rollback'' then
        (let s1 = s\<lparr>ds_in_progress := False, ds_current_version := ds_previous_version s,
                   ds_previous_version := ds_current_version s\<rparr>;
             v = get_str p ''to''
         in if v \<noteq> [] then s1\<lparr>ds_current_version := v\<rparr> else s1)
      else if ev_type e = ''deploy_finished'' then
        (let s1 = s\<lparr>ds_in_progress := False\<rparr>
         in if get_str p ''status'' = ''success'' \<or> get_str p ''status'' = [] then
              (let s2 = s1\<lparr>ds_last_success_at := ev_at e\<rparr>
               in if ds_health s2 = [] \<or> ds_health s2 = ''unknown'' then s2\<lparr>ds_health := ''healthy''\<rparr> else s2)
            else s1)
      else s)"

definition deploy_apply :: reducer where
  "deploy_apply = apply_strict deploy_dec deploy_enc deploy_step"

section \<open>The reducer contract\<close>

lemma deploy_roundtrip: "deploy_enc s = Some j \<Longrightarrow> deploy_dec j = (s, True)"
  by (cases s) (auto simp: deploy_enc_def deploy_dec_def struct_codec split: option.splits if_splits)

interpretation deploy_red: json_reducer deploy_dec deploy_enc deploy_step deploy_apply
  by unfold_locales (simp_all add: deploy_roundtrip deploy_apply_def apply_strict_applies)

section \<open>Health and versions\<close>

text \<open>The health as a state machine over the event types.\<close>

datatype health = Unknown | Healthy | Degraded | Down

fun health_text :: "health \<Rightarrow> string" where
  "health_text Unknown = ''unknown''"
| "health_text Healthy = ''healthy''"
| "health_text Degraded = ''degraded''"
| "health_text Down = ''down''"

definition succeeded :: "event \<Rightarrow> bool" where
  "succeeded e \<longleftrightarrow> ev_type e = ''deploy_finished''
     \<and> get_str (payload_map (ev_payload e)) ''status'' \<in> {[], ''success''}"

definition health_next :: "event \<Rightarrow> health \<Rightarrow> health" where
  "health_next e h =
     (if ev_type e = ''health_check_pass'' then Healthy
      else if ev_type e = ''health_check_fail'' then (if h = Healthy then Degraded else Down)
      else if succeeded e \<and> h = Unknown then Healthy
      else h)"

definition health_of :: "string \<Rightarrow> health \<Rightarrow> bool" where
  "health_of s h \<longleftrightarrow> s = health_text h \<or> (s = [] \<and> h = Unknown)"

lemma health_text_inj: "health_text h = health_text h' \<longleftrightarrow> h = h'"
  by (cases h; cases h') simp_all

lemma health_text_nonempty [simp]: "health_text h \<noteq> []" "[] \<noteq> health_text h"
  by (cases h, simp_all)+

lemma deploy_step_health:
  assumes "health_of (ds_health s) h"
  shows "ds_health (deploy_step e s) = health_text (health_next e h)"
proof -
  have "(if ds_health s = [] then ''unknown'' else ds_health s) = health_text h"
    using assms by (auto simp: health_of_def)
  then show ?thesis
    using assms by (cases h) (auto simp: deploy_step_def Let_def health_next_def succeeded_def health_of_def)
qed

lemma deploy_step_times:
  "valid_year (ds_last_deploy_at s) \<and> valid_year (ds_last_success_at s) \<Longrightarrow> valid_year (ev_at e) \<Longrightarrow>
   valid_year (ds_last_deploy_at (deploy_step e s)) \<and> valid_year (ds_last_success_at (deploy_step e s))"
  by (auto simp: deploy_step_def Let_def)

lemma deploy_fold_health:
  assumes "health_of (ds_health s) h"
  shows "health_of (ds_health (foldl (\<lambda>s e. deploy_step e s) s es)) (foldl (\<lambda>h e. health_next e h) h es)"
  using assms by (induction es arbitrary: s h) (simp_all add: deploy_step_health health_of_def)

text \<open>C34: the stored state of a deployment decodes, and its health follows the machine
  \<open>health_next\<close> over the stream: a passed check is healthy, a failed one degrades a healthy
  service and takes any other down, a successful deploy makes an unknown one healthy.\<close>

theorem deploy_health_spec:
  assumes "es \<noteq> []" "\<forall>e \<in> set es. valid_year (ev_at e)"
  shows "\<exists>s. load_raw deploy_dec (raw_fold deploy_apply RNil es) = (s, True)
    \<and> ds_health s = health_text (foldl (\<lambda>h e. health_next e h) Unknown es)"
proof -
  define s0 where "s0 = fst (deploy_dec JNull)"
  let ?P = "\<lambda>s. valid_year (ds_last_deploy_at s) \<and> valid_year (ds_last_success_at s)"
  have s0: "?P s0" "health_of (ds_health s0) Unknown"
    by (simp_all add: s0_def deploy_dec_def dec_struct_def codec_simps health_of_def)
  have enc: "deploy_enc s \<noteq> None" if "?P s" for s using that by (simp add: deploy_enc_def enc_time_valid)
  have "typed_fold deploy_enc deploy_step s0 es = foldl (\<lambda>s e. deploy_step e s) s0 es"
    using typed_fold_total[of es "\<lambda>e. valid_year (ev_at e)" ?P s0 deploy_step deploy_enc]
      assms(2) s0(1) deploy_step_times enc by blast
  moreover obtain es' e where es: "es = es' @ [e]" using assms(1) by (cases es rule: rev_cases) auto
  have "ds_health (foldl (\<lambda>s e. deploy_step e s) s0 es) = health_text (foldl (\<lambda>h e. health_next e h) Unknown es)"
    using deploy_step_health[OF deploy_fold_health[OF s0(2), of es'], of e] by (simp add: es)
  ultimately show ?thesis
    using deploy_red.load_raw_fold[of es] by (simp add: s0_def[symmetric])
qed

theorem deploy_health_spec_witness:
  "\<exists>s. load_raw deploy_dec (raw_fold deploy_apply RNil
      [new_event ''deploy/1'' ''deploy_finished'' [] RNil 7, new_event ''deploy/1'' ''health_check_fail'' [] RNil 8]) = (s, True)
    \<and> ds_health s = ''degraded''"
proof -
  let ?es = "[new_event ''deploy/1'' ''deploy_finished'' [] RNil 7, new_event ''deploy/1'' ''health_check_fail'' [] RNil 8]"
  have v: "\<forall>e \<in> set ?es. valid_year (ev_at e)"
    by (simp add: new_event_def valid_year_def year_of_day_def)
  have "foldl (\<lambda>h e. health_next e h) Unknown ?es = Degraded"
    by (simp add: health_next_def succeeded_def new_event_def get_str_def pget_def)
  with deploy_health_spec[OF _ v] show ?thesis by simp
qed

definition deploy_event :: "string \<Rightarrow> (string \<times> json) list \<Rightarrow> event" where
  "deploy_event typ o1 = new_event ''deploy/1'' typ [] (RJson (JObj o1)) 0"

text \<open>Deploying a version and rolling back without a target goes back to the version before it,
  the deploy no longer in progress; a rollback with a target goes to that target.\<close>

lemma deploy_rollback_spec:
  assumes "v \<noteq> []"
  shows "(let s1 = deploy_step (deploy_event ''deploy_started'' [(''version'', JStr v)]) s;
              s2 = deploy_step (deploy_event ''rollback'' [(''to'', JStr target)]) s1
          in ds_current_version s1 = v \<and> ds_in_progress s1
             \<and> ds_current_version s2 = (if target = [] then ds_current_version s else target)
             \<and> ds_previous_version s2 = v \<and> \<not> ds_in_progress s2)"
  using assms
  by (simp add: deploy_step_def deploy_event_def new_event_def get_str_def pget_def Let_def)

lemma deploy_rollback_spec_example:
  "ds_previous_version (deploy_step (deploy_event ''rollback'' [(''to'', JStr ''v0'')])
      (deploy_step (deploy_event ''deploy_started'' [(''version'', JStr ''v2'')]) (fst (deploy_dec JNull)))) = ''v2''"
  using deploy_rollback_spec[of "''v2''" "fst (deploy_dec JNull)" "''v0''"] by (simp add: Let_def)

end
