(* ===== verification/ObjTypes.thy ===== *)
theory ObjTypes
  imports FieldReducers JobReducer ChatReducer BuildReducer PRReducer DeployReducer
begin

text \<open>
  The registry the server runs with (\<open>server.Run\<close> in \<open>internal/server/server.go\<close>): one reducer per
  object type, under the name its \<open>ObjectType\<close> method gives.
\<close>

definition standard_reducers :: registry where
  "standard_reducers = registry_register
     [(''pr'', pr_apply), (''build'', build_apply), (''deploy'', deploy_apply),
      (''job'', job_apply), (''chat'', chat_apply),
      (''str'', str_apply), (''int'', int_apply), (''time'', time_apply)] fmempty"

lemma standard_reducers_lookup:
  "fmlookup standard_reducers ''pr'' = Some pr_apply" "fmlookup standard_reducers ''build'' = Some build_apply"
  "fmlookup standard_reducers ''deploy'' = Some deploy_apply" "fmlookup standard_reducers ''job'' = Some job_apply"
  "fmlookup standard_reducers ''chat'' = Some chat_apply" "fmlookup standard_reducers ''str'' = Some str_apply"
  "fmlookup standard_reducers ''int'' = Some int_apply" "fmlookup standard_reducers ''time'' = Some time_apply"
  by (simp_all add: standard_reducers_def registry_register_def)

text \<open>On the events of one topic the registry is the topic's own reducer.\<close>

lemma raw_fold_registry:
  assumes "list_all (\<lambda>e. ev_topic e = t) es" "parse_object_type t = Inr ot" "fmlookup reg ot = Some red"
  shows "raw_fold (registry_apply reg) r es = raw_fold red r es"
  using assms(1)
proof (induction es arbitrary: r)
  case (Cons e es)
  then have "parse_object_type (ev_topic e) = Inr ot" using assms(2) by simp
  then have "registry_apply reg r e = red r e" by (rule registry_apply_type[OF _ assms(3)])
  with Cons show ?case by simp
qed simp

lemma raw_fold_unknown:
  assumes "list_all (\<lambda>e. ev_topic e = t) es" "parse_object_type t = Inr ot" "fmlookup reg ot = None"
  shows "raw_fold (registry_apply reg) r es = r"
  using assms(1)
proof (induction es arbitrary: r)
  case (Cons e es)
  then have "parse_object_type (ev_topic e) = Inr ot" using assms(2) by simp
  then have "registry_apply reg r e = (r, None)" by (rule registry_apply_unknown[OF _ assms(3)])
  with Cons show ?case by (simp add: kept_def)
qed simp

end
