(* ===== verification/EventStore.thy ===== *)
theory EventStore
  imports CoreTypes
begin

text \<open>
  Package \<open>internal/store\<close>: the \<open>Store\<close> interface (\<open>store.go\<close>). A Go interface value is a record
  of operations over an abstract state \<open>'s\<close>; the broker and the archiver take it as an argument, as
  the code does. What a client may rely on is the locale \<open>event_store\<close> (sequence numbers grow
  along a topic's log), extended by \<open>dense_store\<close> (they are \<open>1, 2, 3, \<dots>\<close>).

  An operation that reads the clock or makes a fresh id takes \<open>now\<close> and \<open>fresh_id\<close> as arguments.
\<close>

record 's store_ops =
  so_append :: "time \<Rightarrow> string \<Rightarrow> event \<Rightarrow> 's \<Rightarrow> (gerr + nat) \<times> event \<times> 's"
  so_read :: "string \<Rightarrow> nat \<Rightarrow> int \<Rightarrow> 's \<Rightarrow> gerr + event list"
  so_latest :: "string \<Rightarrow> int \<Rightarrow> 's \<Rightarrow> gerr + event list"
  so_get_state :: "string \<Rightarrow> 's \<Rightarrow> gerr + raw"
  so_set_state :: "time \<Rightarrow> string \<Rightarrow> raw \<Rightarrow> 's \<Rightarrow> gerr option \<times> 's"
  so_get_meta :: "string \<Rightarrow> 's \<Rightarrow> gerr + topic_meta"
  so_upsert_meta :: "time \<Rightarrow> topic_meta \<Rightarrow> 's \<Rightarrow> gerr option \<times> 's"
  so_list_topics :: "string \<Rightarrow> int \<Rightarrow> 's \<Rightarrow> gerr + string list"
  so_expire :: "time \<Rightarrow> 's \<Rightarrow> (gerr + nat) \<times> 's"
  so_delete_topic :: "string \<Rightarrow> 's \<Rightarrow> gerr option \<times> 's"

text \<open>\<open>if limit > 0 && len(out) > limit { out = out[:limit] }\<close>\<close>

definition apply_limit :: "int \<Rightarrow> 'a list \<Rightarrow> 'a list" where
  "apply_limit limit out = (if 0 < limit \<and> limit < int (length out) then take (nat limit) out else out)"

lemma apply_limit_none [simp]: "apply_limit 0 xs = xs"
  by (simp add: apply_limit_def)

lemma apply_limit_prefix: "prefix (apply_limit n xs) xs"
  by (simp add: apply_limit_def take_is_prefix)

text \<open>What \<open>Append\<close> fills in of the event: the sequence number, and id and time where unset.\<close>

definition stamp_event :: "time \<Rightarrow> string \<Rightarrow> nat \<Rightarrow> event \<Rightarrow> event" where
  "stamp_event now fresh_id seq e =
     e\<lparr>ev_seq := seq,
       ev_id := (if ev_id e = [] then fresh_id else ev_id e),
       ev_at := (if is_zero_time (ev_at e) then now else ev_at e)\<rparr>"

lemma stamp_event_simps [simp]:
  "ev_seq (stamp_event now rid n e) = n" "ev_topic (stamp_event now rid n e) = ev_topic e"
  "ev_type (stamp_event now rid n e) = ev_type e" "ev_payload (stamp_event now rid n e) = ev_payload e"
  "ev_state (stamp_event now rid n e) = ev_state e" "ev_actor (stamp_event now rid n e) = ev_actor e"
  by (simp_all add: stamp_event_def)

text \<open>A topic's log is well formed when it holds the topic's events in increasing sequence order.\<close>

definition log_ok :: "string \<Rightarrow> event list \<Rightarrow> bool" where
  "log_ok t es \<longleftrightarrow> sorted_wrt (<) (map ev_seq es) \<and> (\<forall>e \<in> set es. ev_topic e = t \<and> 1 \<le> ev_seq e)"

lemma log_ok_Nil [simp]: "log_ok t []"
  by (simp add: log_ok_def)

lemma log_ok_filter: "log_ok t es \<Longrightarrow> log_ok t (filter P es)"
  unfolding log_ok_def by (auto simp: sorted_wrt_map sorted_wrt_filter)

locale event_store =
  fixes ops :: "'s store_ops"
    and invar :: "'s \<Rightarrow> bool"
    and log :: "'s \<Rightarrow> string \<Rightarrow> event list"
    and state_of :: "'s \<Rightarrow> string \<Rightarrow> raw option"
    and topics :: "'s \<Rightarrow> string set"
  assumes log_ok: "invar s \<Longrightarrow> log_ok t (log s t)"
    and log_topics: "invar s \<Longrightarrow> t \<notin> topics s \<Longrightarrow> log s t = []"
    and append_ok: "invar s \<Longrightarrow> so_append ops now rid e s = (Inr n, e', s') \<Longrightarrow>
      invar s' \<and> e' = stamp_event now rid n e
      \<and> log s' = (log s)(ev_topic e := log s (ev_topic e) @ [e']) \<and> state_of s' = state_of s
      \<and> topics s' = insert (ev_topic e) (topics s)"
    and append_err: "invar s \<Longrightarrow> so_append ops now rid e s = (Inl err, e', s') \<Longrightarrow>
      invar s' \<and> log s' = log s \<and> state_of s' = state_of s"
    and read_ok: "invar s \<Longrightarrow> so_read ops t from limit s = Inr es \<Longrightarrow>
      es = apply_limit limit (filter (\<lambda>e. from \<le> ev_seq e) (log s t))"
    and latest_ok: "invar s \<Longrightarrow> 0 < m \<Longrightarrow> so_latest ops t m s = Inr es \<Longrightarrow>
      es = cap_tail (nat m) (log s t)"
    and latest_suffix: "invar s \<Longrightarrow> so_latest ops t m s = Inr es \<Longrightarrow> suffix es (log s t)"
    and get_state_ok: "invar s \<Longrightarrow> so_get_state ops t s = Inr r \<Longrightarrow> state_of s t = Some r"
    and get_state_missing: "invar s \<Longrightarrow> so_get_state ops t s = Inl ErrNotFound \<Longrightarrow> state_of s t = None"
    and set_state_ok: "invar s \<Longrightarrow> so_set_state ops now t r s = (None, s') \<Longrightarrow>
      invar s' \<and> log s' = log s \<and> state_of s' = (state_of s)(t \<mapsto> r) \<and> topics s \<subseteq> topics s'"
    and set_state_err: "invar s \<Longrightarrow> so_set_state ops now t r s = (Some err, s') \<Longrightarrow>
      invar s' \<and> log s' = log s \<and> state_of s' = state_of s \<and> topics s \<subseteq> topics s'"
    and upsert_meta_ok: "invar s \<Longrightarrow> so_upsert_meta ops now meta s = (err_opt, s') \<Longrightarrow>
      invar s' \<and> log s' = log s \<and> state_of s' = state_of s \<and> topics s \<subseteq> topics s'"
    and list_topics_ok: "invar s \<Longrightarrow> so_list_topics ops p 0 s = Inr ts \<Longrightarrow>
      distinct ts \<and> set ts = {t \<in> topics s. prefix p t}"
    and delete_topic_ok: "invar s \<Longrightarrow> so_delete_topic ops t s = (None, s') \<Longrightarrow>
      invar s' \<and> log s' = (log s)(t := []) \<and> state_of s' = (state_of s)(t := None)
      \<and> topics s' = topics s - {t}"
    and expire_ok: "invar s \<Longrightarrow> so_expire ops cutoff s = (cnt, s') \<Longrightarrow>
      invar s' \<and> ((log s' t = log s t \<and> state_of s' t = state_of s t) \<or> (log s' t = [] \<and> state_of s' t = None))"
    and delete_topic_err: "invar s \<Longrightarrow> so_delete_topic ops t s = (Some err, s') \<Longrightarrow>
      invar s' \<and> log s' = log s \<and> state_of s' = state_of s \<and> topics s' = topics s"
begin

lemma append_increases:
  assumes "invar s" "so_append ops now rid e s = (Inr n, e', s')"
  shows "\<forall>x \<in> set (log s (ev_topic e)). ev_seq x < n"
proof -
  have "log_ok (ev_topic e) (log s' (ev_topic e))"
    using append_ok[OF assms] log_ok by blast
  then show ?thesis
    using append_ok[OF assms] by (auto simp: log_ok_def sorted_wrt_append)
qed

lemma append_other_topic:
  assumes "invar s" "so_append ops now rid e s = (Inr n, e', s')" "t \<noteq> ev_topic e"
  shows "log s' t = log s t"
  using append_ok[OF assms(1,2)] assms(3) by simp

text \<open>Reading on from the last event seen gives exactly what was appended since.\<close>

lemma read_after_append:
  assumes "invar s" "so_append ops now rid e s = (Inr n, e', s')"
    and "so_read ops (ev_topic e) n 0 s' = Inr es"
  shows "es = [e']"
proof -
  have s': "invar s'" "log s' (ev_topic e) = log s (ev_topic e) @ [e']" "ev_seq e' = n"
    using append_ok[OF assms(1,2)] by auto
  have "filter (\<lambda>x. n \<le> ev_seq x) (log s (ev_topic e)) = []"
    using append_increases[OF assms(1,2)] by (auto simp: filter_empty_conv)
  then show ?thesis using read_ok[OF s'(1) assms(3)] s' by simp
qed

lemma read_log_ok:
  assumes "invar s" "so_read ops t from limit s = Inr es"
  shows "log_ok t es"
proof -
  have "log_ok t (filter (\<lambda>e. from \<le> ev_seq e) (log s t))" by (rule log_ok_filter) (rule log_ok[OF assms(1)])
  moreover obtain zs where "filter (\<lambda>e. from \<le> ev_seq e) (log s t) = es @ zs"
    using read_ok[OF assms] apply_limit_prefix[of limit "filter (\<lambda>e. from \<le> ev_seq e) (log s t)"]
    by (auto simp: prefix_def)
  ultimately show ?thesis by (auto simp: log_ok_def sorted_wrt_append)
qed

end

text \<open>The in-memory store numbers a topic's events from 1 without a gap.\<close>

definition dense_log :: "event list \<Rightarrow> bool" where
  "dense_log es \<longleftrightarrow> map ev_seq es = [1 ..< Suc (length es)]"

locale dense_store = event_store ops invar log state_of topics
  for ops :: "'s store_ops" and invar log state_of topics +
  assumes dense: "invar s \<Longrightarrow> dense_log (log s t)"
begin

lemma append_next:
  assumes "invar s" "so_append ops now rid e s = (Inr n, e', s')"
  shows "n = Suc (length (log s (ev_topic e)))"
proof -
  have "dense_log (log s (ev_topic e) @ [e'])" "ev_seq e' = n"
    using append_ok[OF assms] dense[of s' "ev_topic e"] by auto
  then show ?thesis by (simp add: dense_log_def)
qed

end

text \<open>A store in the same process: reads of the state and writes to it do not fail.\<close>

locale local_store = dense_store +
  assumes append_total: "invar s \<Longrightarrow> \<exists>n. fst (so_append ops now rid e s) = Inr n"
    and get_state_total: "invar s \<Longrightarrow>
      so_get_state ops t s = (case state_of s t of None \<Rightarrow> Inl ErrNotFound | Some r \<Rightarrow> Inr r)"
    and set_state_total: "invar s \<Longrightarrow> fst (so_set_state ops now t r s) = None"

lemma dense_log_Nil [simp]: "dense_log []"
  by (simp add: dense_log_def)

lemma dense_log_nth:
  assumes "dense_log es" "i < length es"
  shows "ev_seq (es ! i) = Suc i"
proof -
  have "map ev_seq es ! i = [1 ..< Suc (length es)] ! i" using assms(1) by (simp only: dense_log_def)
  then show ?thesis using assms(2) by (simp del: upt_Suc)
qed

lemma dense_log_snoc: "dense_log (es @ [e]) \<longleftrightarrow> dense_log es \<and> ev_seq e = Suc (length es)"
  by (auto simp: dense_log_def)

lemma dense_log_sorted: "dense_log es \<Longrightarrow> sorted_wrt (<) (map ev_seq es)"
  unfolding dense_log_def by (metis sorted_wrt_upt)

lemma dense_log_filter_ge:
  assumes "dense_log es"
  shows "filter (\<lambda>e. k \<le> ev_seq e) es = drop (k - 1) es"
  using assms
proof (induction es rule: rev_induct)
  case (snoc e es)
  then show ?case by (auto simp: dense_log_snoc)
qed (simp add: dense_log_def)

end
