(* ===== verification/MemStore.thy ===== *)
theory MemStore
  imports EventStore
begin

text \<open>
  The in-memory store, \<open>internal/store/memory/store.go\<close>: every operation as a function of the
  store's state (each runs under the store's lock, so it is atomic), the invariant of the
  reachable stores, and the interpretation of the store contract.
\<close>

section \<open>State\<close>

record topic_data =
  td_events :: "event list"
  td_state :: "raw option"
  td_meta :: topic_meta

record mem_store =
  ms_topics :: "(string, topic_data) fmap"

definition mem_new :: mem_store where
  "mem_new = \<lparr>ms_topics = fmempty\<rparr>"

definition fresh_topic :: "time \<Rightarrow> string \<Rightarrow> topic_data" where
  "fresh_topic now topic =
     \<lparr>td_events = [], td_state = None,
      td_meta = \<lparr>tm_topic = topic, tm_object_type = [], tm_ttl = 0, tm_created_at = now,
                 tm_last_event_at = 0, tm_last_seq = 0\<rparr>\<rparr>"

text \<open>\<open>get\<close> makes the topic when it is missing; \<open>put_topic\<close> is the write through the pointer.\<close>

definition mem_get :: "time \<Rightarrow> string \<Rightarrow> mem_store \<Rightarrow> topic_data \<times> mem_store" where
  "mem_get now topic s =
     (case fmlookup (ms_topics s) topic of
        Some td \<Rightarrow> (td, s)
      | None \<Rightarrow> (let td = fresh_topic now topic in (td, s\<lparr>ms_topics := fmupd topic td (ms_topics s)\<rparr>)))"

definition put_topic :: "string \<Rightarrow> topic_data \<Rightarrow> mem_store \<Rightarrow> mem_store" where
  "put_topic topic td s = s\<lparr>ms_topics := fmupd topic td (ms_topics s)\<rparr>"

section \<open>Operations\<close>

definition mem_append :: "time \<Rightarrow> string \<Rightarrow> event \<Rightarrow> mem_store \<Rightarrow> (gerr + nat) \<times> event \<times> mem_store" where
  "mem_append now fresh_id e s =
     (let (td, s1) = mem_get now (ev_topic e) s;
          seq = length (td_events td) + 1;
          e1 = e\<lparr>ev_seq := seq\<rparr>;
          e2 = (if ev_id e1 = [] then e1\<lparr>ev_id := fresh_id\<rparr> else e1);
          e3 = (if is_zero_time (ev_at e2) then e2\<lparr>ev_at := now\<rparr> else e2);
          m1 = (td_meta td)\<lparr>tm_last_event_at := ev_at e3, tm_last_seq := seq\<rparr>;
          m2 = (if tm_object_type m1 = [] then
                  (case parse_object_type (ev_topic e3) of
                     Inr ot \<Rightarrow> m1\<lparr>tm_object_type := ot\<rparr>
                   | Inl _ \<Rightarrow> m1)
                else m1)
      in (Inr seq, e3, put_topic (ev_topic e) (td\<lparr>td_events := td_events td @ [e3], td_meta := m2\<rparr>) s1))"

text \<open>\<open>sort.Search\<close>: the binary search of the standard library.\<close>

function search_loop :: "(nat \<Rightarrow> bool) \<Rightarrow> nat \<Rightarrow> nat \<Rightarrow> nat" where
  "search_loop f i j =
     (if i < j then (let h = (i + j) div 2 in if \<not> f h then search_loop f (h + 1) j else search_loop f i h)
      else i)"
  by pat_completeness auto
termination
  by (relation "measure (\<lambda>(f, i, j). j - i)") auto

declare search_loop.simps [simp del]

definition sort_search :: "nat \<Rightarrow> (nat \<Rightarrow> bool) \<Rightarrow> nat" where
  "sort_search n f = search_loop f 0 n"

definition mem_read :: "string \<Rightarrow> nat \<Rightarrow> int \<Rightarrow> mem_store \<Rightarrow> gerr + event list" where
  "mem_read topic from_seq limit s =
     (case fmlookup (ms_topics s) topic of
        None \<Rightarrow> Inr []
      | Some td \<Rightarrow>
          (let i = sort_search (length (td_events td)) (\<lambda>i. from_seq \<le> ev_seq (td_events td ! i));
               out = drop i (td_events td)
           in Inr (apply_limit limit out)))"

definition mem_latest :: "string \<Rightarrow> int \<Rightarrow> mem_store \<Rightarrow> gerr + event list" where
  "mem_latest topic n s =
     (case fmlookup (ms_topics s) topic of
        None \<Rightarrow> Inr []
      | Some td \<Rightarrow>
          (let start = (if 0 < n \<and> n < int (length (td_events td))
                        then length (td_events td) - nat n else 0)
           in Inr (drop start (td_events td))))"

definition mem_get_state :: "string \<Rightarrow> mem_store \<Rightarrow> gerr + raw" where
  "mem_get_state topic s =
     (case fmlookup (ms_topics s) topic of
        None \<Rightarrow> Inl ErrNotFound
      | Some td \<Rightarrow> (case td_state td of None \<Rightarrow> Inl ErrNotFound | Some r \<Rightarrow> Inr r))"

definition mem_set_state :: "time \<Rightarrow> string \<Rightarrow> raw \<Rightarrow> mem_store \<Rightarrow> gerr option \<times> mem_store" where
  "mem_set_state now topic r s =
     (let (td, s1) = mem_get now topic s in (None, put_topic topic (td\<lparr>td_state := Some r\<rparr>) s1))"

definition mem_get_meta :: "string \<Rightarrow> mem_store \<Rightarrow> gerr + topic_meta" where
  "mem_get_meta topic s =
     (case fmlookup (ms_topics s) topic of None \<Rightarrow> Inl ErrNotFound | Some td \<Rightarrow> Inr (td_meta td))"

definition mem_upsert_meta :: "time \<Rightarrow> topic_meta \<Rightarrow> mem_store \<Rightarrow> gerr option \<times> mem_store" where
  "mem_upsert_meta now meta s =
     (let (td, s1) = mem_get now (tm_topic meta) s;
          m1 = (if is_zero_time (tm_created_at (td_meta td))
                then (td_meta td)\<lparr>tm_created_at := now\<rparr> else td_meta td);
          m2 = (if tm_object_type meta \<noteq> [] then m1\<lparr>tm_object_type := tm_object_type meta\<rparr> else m1);
          m3 = (if tm_ttl meta \<noteq> 0 then m2\<lparr>tm_ttl := tm_ttl meta\<rparr> else m2)
      in (None, put_topic (tm_topic meta) (td\<lparr>td_meta := m3\<rparr>) s1))"

definition mem_list_topics :: "string \<Rightarrow> int \<Rightarrow> mem_store \<Rightarrow> gerr + string list" where
  "mem_list_topics pre limit s =
     Inr (apply_limit limit
       (sort (filter (\<lambda>t. pre = [] \<or> prefix pre t) (map fst (fm_items (ms_topics s))))))"

definition mem_expired :: "time \<Rightarrow> topic_data \<Rightarrow> bool" where
  "mem_expired cutoff td \<longleftrightarrow>
     \<not> is_zero_time (tm_last_event_at (td_meta td)) \<and> tm_last_event_at (td_meta td) < cutoff"

text \<open>The loop over the map, deleting as it goes; the order of the range does not matter.\<close>

definition mem_expire :: "time \<Rightarrow> mem_store \<Rightarrow> (gerr + nat) \<times> mem_store" where
  "mem_expire cutoff s =
     (let (n, m) = foldl (\<lambda>(n, m) (topic, td). if mem_expired cutoff td then (n + 1, fmdrop topic m) else (n, m))
                     (0, ms_topics s) (fm_items (ms_topics s))
      in (Inr n, s\<lparr>ms_topics := m\<rparr>))"

definition mem_delete_topic :: "string \<Rightarrow> mem_store \<Rightarrow> gerr option \<times> mem_store" where
  "mem_delete_topic topic s = (None, s\<lparr>ms_topics := fmdrop topic (ms_topics s)\<rparr>)"

definition mem_ops :: "mem_store store_ops" where
  "mem_ops =
     \<lparr>so_append = mem_append, so_read = mem_read, so_latest = mem_latest,
      so_get_state = mem_get_state, so_set_state = mem_set_state,
      so_get_meta = mem_get_meta, so_upsert_meta = mem_upsert_meta,
      so_list_topics = mem_list_topics, so_expire = mem_expire,
      so_delete_topic = mem_delete_topic\<rparr>"

section \<open>What each operation leaves of a topic\<close>

definition mem_log :: "mem_store \<Rightarrow> string \<Rightarrow> event list" where
  "mem_log s t = (case fmlookup (ms_topics s) t of None \<Rightarrow> [] | Some td \<Rightarrow> td_events td)"

definition mem_state :: "mem_store \<Rightarrow> string \<Rightarrow> raw option" where
  "mem_state s t = (case fmlookup (ms_topics s) t of None \<Rightarrow> None | Some td \<Rightarrow> td_state td)"

definition mem_topics :: "mem_store \<Rightarrow> string set" where
  "mem_topics s = fset (fmdom (ms_topics s))"

text \<open>The topic as \<open>get\<close> hands it out, and the store after a write to it.\<close>

definition mem_topic :: "time \<Rightarrow> string \<Rightarrow> mem_store \<Rightarrow> topic_data" where
  "mem_topic now t s = (case fmlookup (ms_topics s) t of Some td \<Rightarrow> td | None \<Rightarrow> fresh_topic now t)"

lemma mem_get_put: "mem_get now t s = (td, s1) \<Longrightarrow> put_topic t td' s1 = put_topic t td' s"
  by (auto simp: mem_get_def put_topic_def Let_def split: option.splits)

lemma fst_mem_get: "fst (mem_get now t s) = mem_topic now t s"
  by (simp add: mem_get_def mem_topic_def Let_def split: option.splits)

lemma td_events_mem_topic [store_simps]: "td_events (mem_topic now t s) = mem_log s t"
  by (simp add: mem_topic_def mem_log_def fresh_topic_def split: option.splits)

lemma td_state_mem_topic [store_simps]: "td_state (mem_topic now t s) = mem_state s t"
  by (simp add: mem_topic_def mem_state_def fresh_topic_def split: option.splits)

lemma put_topic_store [store_simps]:
  "mem_log (put_topic t td s) = (mem_log s)(t := td_events td)"
  "mem_state (put_topic t td s) = (mem_state s)(t := td_state td)"
  "mem_topics (put_topic t td s) = insert t (mem_topics s)"
  "fmlookup (ms_topics (put_topic t td s)) = (fmlookup (ms_topics s))(t \<mapsto> td)"
  by (auto simp: mem_log_def mem_state_def mem_topics_def put_topic_def)

definition append_meta :: "event \<Rightarrow> nat \<Rightarrow> topic_meta \<Rightarrow> topic_meta" where
  "append_meta e seq m =
     m\<lparr>tm_last_event_at := ev_at e, tm_last_seq := seq,
       tm_object_type := (if tm_object_type m = [] then
          (case parse_object_type (ev_topic e) of Inr ot \<Rightarrow> ot | Inl _ \<Rightarrow> []) else tm_object_type m)\<rparr>"

lemma tm_object_type_same: "tm_object_type m = ot \<Longrightarrow> m\<lparr>tm_object_type := ot\<rparr> = m"
  by (cases m) simp

lemma mem_append_eq:
  "mem_append now rid e s =
     (let n = Suc (length (mem_log s (ev_topic e))); e' = stamp_event now rid n e
      in (Inr n, e', put_topic (ev_topic e)
           ((mem_topic now (ev_topic e) s)\<lparr>td_events := mem_log s (ev_topic e) @ [e'],
             td_meta := append_meta e' n (td_meta (mem_topic now (ev_topic e) s))\<rparr>) s))"
proof -
  obtain td s1 where g: "mem_get now (ev_topic e) s = (td, s1)" by fastforce
  have td: "td = mem_topic now (ev_topic e) s" using fst_mem_get[of now "ev_topic e" s] g by simp
  have ev: "(if is_zero_time (ev_at e2) then e2\<lparr>ev_at := now\<rparr> else e2) = stamp_event now rid n e"
    if "e2 = (if ev_id (e\<lparr>ev_seq := n\<rparr>) = [] then e\<lparr>ev_seq := n\<rparr>\<lparr>ev_id := rid\<rparr> else e\<lparr>ev_seq := n\<rparr>)" for e2 n
    using that by (simp add: stamp_event_def)
  show ?thesis
    unfolding mem_append_def g Let_def prod.case mem_get_put[OF g] ev[OF refl]
    by (auto simp: td store_simps append_meta_def tm_object_type_same split: sum.splits)
qed

lemma mem_set_state_eq:
  "mem_set_state now t r s = (None, put_topic t ((mem_topic now t s)\<lparr>td_state := Some r\<rparr>) s)"
  using fst_mem_get[of now t s] mem_get_put[of now t s]
  by (auto simp: mem_set_state_def Let_def split: prod.splits)

definition upsert_meta :: "time \<Rightarrow> topic_meta \<Rightarrow> topic_meta \<Rightarrow> topic_meta" where
  "upsert_meta now m m0 =
     m0\<lparr>tm_created_at := (if is_zero_time (tm_created_at m0) then now else tm_created_at m0),
        tm_object_type := (if tm_object_type m \<noteq> [] then tm_object_type m else tm_object_type m0),
        tm_ttl := (if tm_ttl m \<noteq> 0 then tm_ttl m else tm_ttl m0)\<rparr>"

lemma mem_upsert_meta_eq:
  "mem_upsert_meta now m s =
     (None, put_topic (tm_topic m)
        ((mem_topic now (tm_topic m) s)\<lparr>td_meta := upsert_meta now m (td_meta (mem_topic now (tm_topic m) s))\<rparr>) s)"
proof -
  obtain td s1 where g: "mem_get now (tm_topic m) s = (td, s1)" by fastforce
  have "td = mem_topic now (tm_topic m) s" using fst_mem_get[of now "tm_topic m" s] g by simp
  then show ?thesis
    by (simp add: mem_upsert_meta_def g Let_def mem_get_put[OF g] upsert_meta_def)
qed

lemma mem_delete_store [store_simps]:
  "mem_log (snd (mem_delete_topic t s)) = (mem_log s)(t := [])"
  "mem_state (snd (mem_delete_topic t s)) = (mem_state s)(t := None)"
  "mem_topics (snd (mem_delete_topic t s)) = mem_topics s - {t}"
  by (auto simp: mem_delete_topic_def mem_log_def mem_state_def mem_topics_def)

section \<open>The binary search\<close>

definition upward :: "nat \<Rightarrow> (nat \<Rightarrow> bool) \<Rightarrow> bool" where
  "upward n f \<longleftrightarrow> (\<forall>k l. k \<le> l \<and> l < n \<and> f k \<longrightarrow> f l)"

lemma search_loop_spec:
  assumes "upward n f"
    and "i \<le> j" "j \<le> n" "\<forall>k < i. \<not> f k" "\<forall>k. j \<le> k \<and> k < n \<longrightarrow> f k"
  shows "search_loop f i j \<le> n \<and> (\<forall>k < search_loop f i j. \<not> f k)
    \<and> (\<forall>k. search_loop f i j \<le> k \<and> k < n \<longrightarrow> f k)"
  using assms
proof (induction f i j rule: search_loop.induct)
  case (1 f i j)
  show ?case
  proof (cases "i < j")
    case False
    with "1.prems"(2) have "i = j" by simp
    then have "search_loop f i j = j" by (subst search_loop.simps) simp
    with "1.prems"(3-5) \<open>i = j\<close> show ?thesis by simp
  next
    case True
    define h where "h = (i + j) div 2"
    have h: "i \<le> h" "h < j" using True by (auto simp: h_def)
    show ?thesis
    proof (cases "f h")
      case fh: True
      have e: "search_loop f i j = search_loop f i h"
        using True fh by (subst search_loop.simps) (simp add: h_def)
      have up: "\<forall>k. h \<le> k \<and> k < n \<longrightarrow> f k" using "1.prems"(1) fh unfolding upward_def by blast
      have n: "\<not> \<not> f h" "h \<le> n" using fh h(2) "1.prems"(3) by simp_all
      show ?thesis unfolding e
        by (rule "1.IH"(2)[OF True h_def n(1) "1.prems"(1) h(1) n(2) "1.prems"(4) up])
    next
      case fh: False
      have e: "search_loop f i j = search_loop f (h + 1) j"
        using True fh by (subst search_loop.simps) (simp add: h_def)
      have lo: "\<forall>k < h + 1. \<not> f k"
      proof (intro allI impI notI)
        fix k assume "k < h + 1" "f k"
        then have "k \<le> h" "h < n" "f k" using h(2) "1.prems"(3) by simp_all
        then have "f h" using "1.prems"(1) unfolding upward_def by blast
        with fh show False ..
      qed
      have n: "h + 1 \<le> j" using h(2) by simp
      show ?thesis unfolding e
        by (rule "1.IH"(1)[OF True h_def fh "1.prems"(1) n "1.prems"(3) lo "1.prems"(5)])
    qed
  qed
qed

lemma sort_search_drop:
  assumes "sorted_wrt (<) (map ev_seq es)"
  shows "drop (sort_search (length es) (\<lambda>i. from_seq \<le> ev_seq (es ! i))) es =
    filter (\<lambda>e. from_seq \<le> ev_seq e) es"
proof -
  define r where "r = sort_search (length es) (\<lambda>i. from_seq \<le> ev_seq (es ! i))"
  have up: "upward (length es) (\<lambda>i. from_seq \<le> ev_seq (es ! i))"
    unfolding upward_def
  proof (intro allI impI)
    fix k l assume kl: "k \<le> l \<and> l < length es \<and> from_seq \<le> ev_seq (es ! k)"
    then have "ev_seq (es ! k) \<le> ev_seq (es ! l)"
      using sorted_wrt_nth_less[OF assms, of k l] by (cases "k = l") simp_all
    with kl show "from_seq \<le> ev_seq (es ! l)" by simp
  qed
  have "r \<le> length es \<and> (\<forall>k < r. \<not> from_seq \<le> ev_seq (es ! k))
      \<and> (\<forall>k. r \<le> k \<and> k < length es \<longrightarrow> from_seq \<le> ev_seq (es ! k))"
    unfolding r_def sort_search_def by (rule search_loop_spec[OF up]) auto
  then have r: "r \<le> length es" "\<And>k. k < r \<Longrightarrow> \<not> from_seq \<le> ev_seq (es ! k)"
      "\<And>k. r \<le> k \<Longrightarrow> k < length es \<Longrightarrow> from_seq \<le> ev_seq (es ! k)"
    by blast+
  have "filter (\<lambda>e. from_seq \<le> ev_seq e) (take r es) = []"
    using r(1,2) by (auto simp: filter_empty_conv in_set_conv_nth)
  moreover have "filter (\<lambda>e. from_seq \<le> ev_seq e) (drop r es) = drop r es"
    using r(1,3) by (auto simp: filter_id_conv in_set_conv_nth)
  ultimately have "filter (\<lambda>e. from_seq \<le> ev_seq e) (take r es @ drop r es) = drop r es"
    by (simp only: filter_append append_Nil)
  then show ?thesis by (simp add: r_def)
qed

section \<open>The invariant\<close>

definition topic_inv :: "string \<Rightarrow> topic_data \<Rightarrow> bool" where
  "topic_inv t td \<longleftrightarrow>
     dense_log (td_events td) \<and> list_all (\<lambda>e. ev_topic e = t) (td_events td)
     \<and> tm_topic (td_meta td) = t \<and> tm_last_seq (td_meta td) = length (td_events td)
     \<and> tm_last_event_at (td_meta td) =
         (if td_events td = [] then 0 else ev_at (last (td_events td)))"

definition mem_inv :: "mem_store \<Rightarrow> bool" where
  "mem_inv s \<longleftrightarrow> (\<forall>t td. fmlookup (ms_topics s) t = Some td \<longrightarrow> topic_inv t td)"

lemma topic_inv_fresh: "topic_inv t (fresh_topic now t)"
  by (simp add: topic_inv_def fresh_topic_def dense_log_def)

lemma mem_inv_topic: "mem_inv s \<Longrightarrow> topic_inv t (mem_topic now t s)"
  by (auto simp: mem_inv_def mem_topic_def topic_inv_fresh split: option.splits)

lemma mem_inv_put: "mem_inv s \<Longrightarrow> topic_inv t td \<Longrightarrow> mem_inv (put_topic t td s)"
  by (simp add: mem_inv_def put_topic_def)

lemma mem_inv_new: "mem_inv mem_new"
  by (simp add: mem_inv_def mem_new_def)

lemma mem_inv_log: "mem_inv s \<Longrightarrow> dense_log (mem_log s t) \<and> list_all (\<lambda>e. ev_topic e = t) (mem_log s t)"
  by (auto simp: mem_inv_def mem_log_def topic_inv_def split: option.splits)

lemma mem_inv_append: "mem_inv s \<Longrightarrow> mem_inv (snd (snd (mem_append now rid e s)))"
  using mem_inv_topic[of s "ev_topic e" now] mem_inv_log[of s "ev_topic e"]
  by (auto simp: mem_append_eq Let_def topic_inv_def append_meta_def dense_log_snoc intro!: mem_inv_put)

lemma mem_inv_set_state: "mem_inv s \<Longrightarrow> mem_inv (snd (mem_set_state now t r s))"
  using mem_inv_topic[of s t now] by (auto simp: mem_set_state_eq topic_inv_def intro!: mem_inv_put)

lemma mem_inv_upsert: "mem_inv s \<Longrightarrow> mem_inv (snd (mem_upsert_meta now m s))"
  using mem_inv_topic[of s "tm_topic m" now]
  by (auto simp: mem_upsert_meta_eq topic_inv_def upsert_meta_def intro!: mem_inv_put)

lemma mem_inv_delete: "mem_inv s \<Longrightarrow> mem_inv (snd (mem_delete_topic t s))"
  by (auto simp: mem_inv_def mem_delete_topic_def split: if_splits)

subsection \<open>Expiry\<close>

lemma expire_loop:
  "distinct (map fst kvs) \<Longrightarrow>
   foldl (\<lambda>(n, m) (t, td). if P td then (n + 1, fmdrop t m) else (n, m)) (n, m) kvs =
     (n + length (filter (P \<circ> snd) kvs), fmfilter (\<lambda>t. t \<notin> fst ` set (filter (P \<circ> snd) kvs)) m)"
proof (induction kvs arbitrary: n m)
  case Nil
  then show ?case by (simp add: fmfilter_true)
next
  case (Cons kv kvs)
  obtain t td where kv: "kv = (t, td)" by fastforce
  show ?case
  proof (cases "P td")
    case True
    have "fmfilter (\<lambda>t. t \<notin> fst ` set (filter (P \<circ> snd) kvs)) (fmdrop t m) =
        fmfilter (\<lambda>x. x \<notin> fst ` set (filter (P \<circ> snd) (kv # kvs))) m"
      using True kv by (intro fmap_ext) auto
    with True kv Cons show ?thesis by simp
  next
    case False
    with kv Cons show ?thesis by simp
  qed
qed

lemma set_fm_items: "set (fm_items m) = {(k, v). fmlookup m k = Some v}"
  by (auto simp: fm_items_def image_iff fmlookup_dom_iff)

lemma mem_expire_eq:
  "mem_expire cutoff s =
     (Inr (length (filter (mem_expired cutoff \<circ> snd) (fm_items (ms_topics s)))),
      s\<lparr>ms_topics := fmfilter
          (\<lambda>t. \<forall>td. fmlookup (ms_topics s) t = Some td \<longrightarrow> \<not> mem_expired cutoff td) (ms_topics s)\<rparr>)"
proof -
  have "distinct (map fst (fm_items (ms_topics s)))" by (simp add: sorted_list_of_fset.rep_eq)
  from expire_loop[OF this, of "mem_expired cutoff" 0 "ms_topics s"]
  have "foldl (\<lambda>(n, m) (t, td). if mem_expired cutoff td then (n + 1, fmdrop t m) else (n, m))
        (0, ms_topics s) (fm_items (ms_topics s)) =
      (length (filter (mem_expired cutoff \<circ> snd) (fm_items (ms_topics s))),
       fmfilter (\<lambda>t. t \<notin> fst ` set (filter (mem_expired cutoff \<circ> snd) (fm_items (ms_topics s)))) (ms_topics s))"
    by simp
  moreover have "fmfilter (\<lambda>t. t \<notin> fst ` set (filter (mem_expired cutoff \<circ> snd) (fm_items (ms_topics s)))) (ms_topics s)
      = fmfilter (\<lambda>t. \<forall>td. fmlookup (ms_topics s) t = Some td \<longrightarrow> \<not> mem_expired cutoff td) (ms_topics s)"
    by (intro fmap_ext) (auto simp: set_fm_items image_iff)
  ultimately show ?thesis by (simp add: mem_expire_def)
qed

lemma mem_inv_expire: "mem_inv s \<Longrightarrow> mem_inv (snd (mem_expire cutoff s))"
  by (auto simp: mem_inv_def mem_expire_eq split: if_splits)

section \<open>The store contract\<close>

lemma mem_read_eq:
  assumes "mem_inv s"
  shows "mem_read t from limit s = Inr (apply_limit limit (filter (\<lambda>e. from \<le> ev_seq e) (mem_log s t)))"
proof (cases "fmlookup (ms_topics s) t")
  case None
  then show ?thesis by (simp add: mem_read_def mem_log_def apply_limit_def)
next
  case (Some td)
  then have log: "mem_log s t = td_events td" by (simp add: mem_log_def)
  have "sorted_wrt (<) (map ev_seq (td_events td))"
    using mem_inv_log[OF assms, of t] by (simp add: log dense_log_sorted)
  from sort_search_drop[OF this, of "from"] Some log show ?thesis
    by (simp add: mem_read_def Let_def)
qed

lemma mem_latest_eq:
  "mem_latest t n s = Inr (if 0 < n then cap_tail (nat n) (mem_log s t) else mem_log s t)"
  by (auto simp: mem_latest_def mem_log_def cap_tail_def split: option.splits)

lemma mem_get_state_eq:
  "mem_get_state t s = (case mem_state s t of None \<Rightarrow> Inl ErrNotFound | Some r \<Rightarrow> Inr r)"
  by (simp add: mem_get_state_def mem_state_def split: option.splits)

lemma mem_list_topics_eq:
  "mem_list_topics p limit s = Inr (apply_limit limit (sorted_list_of_set {t \<in> mem_topics s. prefix p t}))"
proof -
  have "sort (filter (\<lambda>t. p = [] \<or> prefix p t) (map fst (fm_items (ms_topics s)))) =
      sorted_list_of_set {t \<in> mem_topics s. prefix p t}"
    by (rule sorted_distinct_set_unique)
       (auto simp: mem_topics_def sorted_list_of_fset.rep_eq)
  then show ?thesis by (simp add: mem_list_topics_def)
qed

lemma mem_log_ok: "mem_inv s \<Longrightarrow> log_ok t (mem_log s t)"
proof -
  assume "mem_inv s"
  then have d: "dense_log (mem_log s t)" and a: "list_all (\<lambda>e. ev_topic e = t) (mem_log s t)"
    using mem_inv_log by auto
  have "1 \<le> ev_seq e" if "e \<in> set (mem_log s t)" for e
    using that dense_log_nth[OF d] by (auto simp: in_set_conv_nth)
  then show ?thesis using d a by (auto simp: log_ok_def dense_log_sorted list_all_iff)
qed

lemma mem_ops_simps [simp]:
  "so_append mem_ops = mem_append" "so_read mem_ops = mem_read" "so_latest mem_ops = mem_latest"
  "so_get_state mem_ops = mem_get_state" "so_set_state mem_ops = mem_set_state"
  "so_get_meta mem_ops = mem_get_meta" "so_upsert_meta mem_ops = mem_upsert_meta"
  "so_list_topics mem_ops = mem_list_topics" "so_expire mem_ops = mem_expire"
  "so_delete_topic mem_ops = mem_delete_topic"
  by (simp_all add: mem_ops_def)

interpretation mem: local_store mem_ops mem_inv mem_log mem_state mem_topics
proof unfold_locales
  fix s t assume "mem_inv s"
  then show "log_ok t (mem_log s t)" by (rule mem_log_ok)
next
  fix s t assume "t \<notin> mem_topics s"
  then show "mem_log s t = []"
    by (simp add: mem_topics_def mem_log_def fmdom_notD)
next
  fix s now rid e n e' s' assume "mem_inv s" "so_append mem_ops now rid e s = (Inr n, e', s')"
  then show "mem_inv s' \<and> e' = stamp_event now rid n e
      \<and> mem_log s' = (mem_log s)(ev_topic e := mem_log s (ev_topic e) @ [e']) \<and> mem_state s' = mem_state s
      \<and> mem_topics s' = insert (ev_topic e) (mem_topics s)"
    using mem_inv_append[of s now rid e] by (auto simp: mem_append_eq Let_def store_simps)
next
  fix s now rid e err e' s' assume "so_append mem_ops now rid e s = (Inl err, e', s')"
  then show "mem_inv s' \<and> mem_log s' = mem_log s \<and> mem_state s' = mem_state s"
    by (simp add: mem_append_eq Let_def)
next
  fix s t "from" limit es assume "mem_inv s" "so_read mem_ops t from limit s = Inr es"
  then show "es = apply_limit limit (filter (\<lambda>e. from \<le> ev_seq e) (mem_log s t))"
    by (simp add: mem_read_eq)
next
  fix s m t es assume "(0 :: int) < m" "so_latest mem_ops t m s = Inr es"
  then show "es = cap_tail (nat m) (mem_log s t)" by (simp add: mem_latest_eq)
next
  fix s t m es assume "so_latest mem_ops t m s = Inr es"
  then show "suffix es (mem_log s t)" by (auto simp: mem_latest_eq cap_tail_def suffix_drop)
next
  fix s t r assume "so_get_state mem_ops t s = Inr r"
  then show "mem_state s t = Some r" by (simp add: mem_get_state_eq split: option.splits)
next
  fix s t assume "so_get_state mem_ops t s = Inl ErrNotFound"
  then show "mem_state s t = None" by (simp add: mem_get_state_eq split: option.splits)
next
  fix s now t r s' assume "mem_inv s" "so_set_state mem_ops now t r s = (None, s')"
  then show "mem_inv s' \<and> mem_log s' = mem_log s \<and> mem_state s' = (mem_state s)(t \<mapsto> r) \<and> mem_topics s \<subseteq> mem_topics s'"
    using mem_inv_set_state[of s now t r] by (auto simp: mem_set_state_eq store_simps)
next
  fix s now t r err s' assume "so_set_state mem_ops now t r s = (Some err, s')"
  then show "mem_inv s' \<and> mem_log s' = mem_log s \<and> mem_state s' = mem_state s \<and> mem_topics s \<subseteq> mem_topics s'"
    by (simp add: mem_set_state_eq)
next
  fix s now meta err s' assume "mem_inv s" "so_upsert_meta mem_ops now meta s = (err, s')"
  then show "mem_inv s' \<and> mem_log s' = mem_log s \<and> mem_state s' = mem_state s \<and> mem_topics s \<subseteq> mem_topics s'"
    using mem_inv_upsert[of s now meta] by (auto simp: mem_upsert_meta_eq store_simps)
next
  fix s p ts assume "so_list_topics mem_ops p 0 s = Inr ts"
  then have "ts = sorted_list_of_set {t \<in> mem_topics s. prefix p t}" by (simp add: mem_list_topics_eq)
  then show "distinct ts \<and> set ts = {t \<in> mem_topics s. prefix p t}"
    by (simp add: mem_topics_def)
next
  fix s t s' assume "mem_inv s" "so_delete_topic mem_ops t s = (None, s')"
  then show "mem_inv s' \<and> mem_log s' = (mem_log s)(t := []) \<and> mem_state s' = (mem_state s)(t := None)
      \<and> mem_topics s' = mem_topics s - {t}"
    using mem_inv_delete[of s t] mem_delete_store[of t s] by (simp add: mem_delete_topic_def)
next
  fix s cutoff r s' t assume "mem_inv s" "so_expire mem_ops cutoff s = (r, s')"
  then show "mem_inv s' \<and> ((mem_log s' t = mem_log s t \<and> mem_state s' t = mem_state s t)
      \<or> (mem_log s' t = [] \<and> mem_state s' t = None))"
    using mem_inv_expire[of s cutoff]
    by (auto simp: mem_expire_eq mem_log_def mem_state_def split: option.splits if_splits)
next
  fix s t err s' assume "so_delete_topic mem_ops t s = (Some err, s')"
  then show "mem_inv s' \<and> mem_log s' = mem_log s \<and> mem_state s' = mem_state s \<and> mem_topics s' = mem_topics s"
    by (simp add: mem_delete_topic_def)
next
  fix s t assume "mem_inv s"
  then show "dense_log (mem_log s t)" using mem_inv_log by blast
next
  fix s now rid e
  show "\<exists>n. fst (so_append mem_ops now rid e s) = Inr n" by (simp add: mem_append_eq Let_def)
next
  fix s t
  show "so_get_state mem_ops t s = (case mem_state s t of None \<Rightarrow> Inl ErrNotFound | Some r \<Rightarrow> Inr r)"
    by (simp add: mem_get_state_eq)
next
  fix s now t r
  show "fst (so_set_state mem_ops now t r s) = None" by (simp add: mem_set_state_eq)
qed

section \<open>Reachable stores\<close>

text \<open>One step per mutating operation, in any order and with any arguments.\<close>

inductive mem_step :: "mem_store \<Rightarrow> mem_store \<Rightarrow> bool" where
  step_append: "mem_append now rid e s = (r, e', s') \<Longrightarrow> mem_step s s'"
| step_set_state: "mem_set_state now t r s = (x, s') \<Longrightarrow> mem_step s s'"
| step_upsert_meta: "mem_upsert_meta now m s = (x, s') \<Longrightarrow> mem_step s s'"
| step_expire: "mem_expire cutoff s = (n, s') \<Longrightarrow> mem_step s s'"
| step_delete: "mem_delete_topic t s = (x, s') \<Longrightarrow> mem_step s s'"

inductive mem_reachable :: "mem_store \<Rightarrow> bool" where
  mem_start: "mem_reachable mem_new"
| mem_next: "mem_reachable s \<Longrightarrow> mem_step s s' \<Longrightarrow> mem_reachable s'"

lemma mem_step_inv: "mem_step s s' \<Longrightarrow> mem_inv s \<Longrightarrow> mem_inv s'"
  by (induction rule: mem_step.induct)
     (metis snd_conv mem_inv_append mem_inv_set_state mem_inv_upsert mem_inv_expire mem_inv_delete)+

lemma mem_reachable_mem_inv: "mem_reachable s \<Longrightarrow> mem_inv s"
  by (induction rule: mem_reachable.induct) (auto intro: mem_inv_new mem_step_inv)

section \<open>Properties\<close>

text \<open>A small reachable store for the witnesses: three appends, two of them to one topic.\<close>

definition demo_event :: "string \<Rightarrow> string \<Rightarrow> event" where
  "demo_event topic typ = new_event topic typ ''alice'' RNil 0"

definition demo_store :: mem_store where
  "demo_store =
     (let (_, _, s1) = mem_append 5 ''a'' (demo_event ''job/1'' ''started'') mem_new;
          (_, _, s2) = mem_append 6 ''b'' (demo_event ''job/2'' ''started'') s1;
          (_, _, s3) = mem_append 7 ''c'' (demo_event ''job/1'' ''progress'') s2
      in s3)"

lemma mem_reachable_append: "mem_reachable s \<Longrightarrow> mem_reachable (snd (snd (mem_append now rid e s)))"
  by (metis mem_next step_append prod.collapse)

lemma demo_store_reachable: "mem_reachable demo_store"
  unfolding demo_store_def case_prod_unfold Let_def
  by (intro mem_reachable_append mem_start)

lemma demo_store_log:
  "map ev_type (mem_log demo_store ''job/1'') = [''started'', ''progress'']"
  "length (mem_log demo_store ''job/1'') = 2"
  by (simp_all add: demo_store_def case_prod_unfold Let_def mem_append_eq store_simps demo_event_def
      new_event_def mem_log_def mem_new_def)

text \<open>C16: in every reachable memory store the events of a topic carry its name and are numbered
  1, 2, 3, ... without a gap, and the topic's recorded last sequence number is that of its last event.\<close>

theorem mem_seq_dense:
  assumes "mem_reachable s" "fmlookup (ms_topics s) t = Some td"
  shows "map ev_seq (td_events td) = [1 ..< Suc (length (td_events td))]
    \<and> list_all (\<lambda>e. ev_topic e = t) (td_events td)
    \<and> tm_topic (td_meta td) = t \<and> tm_last_seq (td_meta td) = length (td_events td)"
  using mem_reachable_mem_inv[OF assms(1)] assms(2)
  by (simp add: mem_inv_def topic_inv_def dense_log_def)

theorem mem_seq_dense_witness:
  "\<exists>td. fmlookup (ms_topics demo_store) ''job/1'' = Some td \<and> map ev_seq (td_events td) = [1, 2]"
proof -
  obtain td where td: "fmlookup (ms_topics demo_store) ''job/1'' = Some td" "length (td_events td) = 2"
    using demo_store_log(2) by (auto simp: mem_log_def split: option.splits)
  have "[1 ..< Suc 2] = [1, 2 :: nat]" by (simp add: upt_rec)
  with mem_seq_dense[OF demo_store_reachable td(1)] td show ?thesis by simp
qed

text \<open>In a reachable memory store \<open>Read\<close> from a sequence number, found by binary search, is
  the log from that number on, cut to the limit; from 0 and from 1 it is the whole log.\<close>

lemma mem_read_from:
  assumes "mem_reachable s"
  shows "mem_read t from_seq limit s = Inr (apply_limit limit (drop (from_seq - 1) (mem_log s t)))"
proof -
  have inv: "mem_inv s" by (rule mem_reachable_mem_inv[OF assms])
  then have "dense_log (mem_log s t)" using mem_inv_log by blast
  then show ?thesis by (simp add: mem_read_eq[OF inv] dense_log_filter_ge)
qed

lemma mem_read_from_example:
  "\<exists>e. mem_read ''job/1'' 2 10 demo_store = Inr [e] \<and> ev_type e = ''progress''"
proof -
  obtain a b where l: "mem_log demo_store ''job/1'' = [a, b]" "ev_type b = ''progress''"
    using demo_store_log(1) by auto
  show ?thesis
    using mem_read_from[OF demo_store_reachable, of "''job/1''" 2 10] l by (simp add: apply_limit_def)
qed

text \<open>\<open>Latest\<close> of a positive count gives that many most recent events in order; of a count
  of zero or less it gives the whole log.\<close>

lemma mem_latest_spec:
  "mem_latest t n s = Inr (if 0 < n then drop (length (mem_log s t) - nat n) (mem_log s t) else mem_log s t)"
  by (auto simp: mem_latest_eq cap_tail_def)

text \<open>Expiry drops exactly the topics whose last event is older than the cutoff (a topic
  without an event never expires), keeps every other topic as it was, and returns how many it dropped.\<close>

lemma mem_expire_spec:
  "fst (mem_expire cutoff s) =
       Inr (card {t. \<exists>td. fmlookup (ms_topics s) t = Some td \<and> mem_expired cutoff td})
   \<and> (\<forall>t. fmlookup (ms_topics (snd (mem_expire cutoff s))) t =
        (case fmlookup (ms_topics s) t of
           None \<Rightarrow> None
         | Some td \<Rightarrow> if mem_expired cutoff td then None else Some td))"
proof -
  let ?kvs = "filter (mem_expired cutoff \<circ> snd) (fm_items (ms_topics s))"
  have "distinct (map fst (fm_items (ms_topics s)))" by (simp add: sorted_list_of_fset.rep_eq)
  then have d: "distinct (map fst ?kvs)" by (rule distinct_map_filter)
  have "length ?kvs = card (set (map fst ?kvs))" using distinct_card[OF d] by simp
  also have "set (map fst ?kvs) = {t. \<exists>td. fmlookup (ms_topics s) t = Some td \<and> mem_expired cutoff td}"
    by (auto simp: set_fm_items image_iff)
  finally show ?thesis by (auto simp: mem_expire_eq comp_def split: option.split)
qed

text \<open>Deleting a topic removes its log and its state and nothing else, and restarts its
  numbering: the next event appended to it gets sequence number 1 again.\<close>

lemma mem_delete_restarts:
  "mem_log (snd (mem_delete_topic t s)) = (mem_log s)(t := [])
   \<and> mem_state (snd (mem_delete_topic t s)) = (mem_state s)(t := None)
   \<and> fst (mem_append now rid (e\<lparr>ev_topic := t\<rparr>) (snd (mem_delete_topic t s))) = Inr 1"
  by (simp add: mem_append_eq mem_delete_store Let_def)

end
