(* ===== verification/HubModel.thy ===== *)
theory HubModel
  imports CoreTypes "HOL-Library.Multiset"
begin

text \<open>
  The in-process fan-out registry, \<open>internal/hub/hub.go\<close>. Subscriptions are shared by pointer
  between the registry, the publishers and the sessions, so they live in a heap \<open>hub_subs\<close> indexed
  by id (ids are never reused) and the registry \<open>hub_topics\<close> holds ids; a closed subscription leaves
  the registry and stays in the heap. A channel is the list of the events buffered in it. The order
  of a range over the registry's map is unspecified in Go; \<open>hub_publish_any_order\<close> shows that it does
  not matter.

  The main results: the registry invariant holds in every reachable hub; a publish gives each open
  subscriber of the topic the event or one more lag, never both, and touches nobody else; closing
  is idempotent and ends delivery; nothing a subscriber was given is lost or reordered before it is
  received.
\<close>

section \<open>State\<close>

record subscription =
  sub_topic :: string
  sub_chan :: "event list"
  sub_closed :: bool
  sub_done :: bool
  sub_lag :: nat

record hub =
  hub_next :: nat
  hub_subs :: "(nat, subscription) fmap"
  hub_topics :: "(string, nat list) fmap"
  hub_buf :: nat

definition default_buffer :: nat where
  "default_buffer = 256"

definition hub_new :: hub where
  "hub_new = \<lparr>hub_next = 0, hub_subs = fmempty, hub_topics = fmempty, hub_buf = default_buffer\<rparr>"

definition registered :: "hub \<Rightarrow> string \<Rightarrow> nat list" where
  "registered h topic = (case fmlookup (hub_topics h) topic of None \<Rightarrow> [] | Some ids \<Rightarrow> ids)"

definition subscriber_count :: "string \<Rightarrow> hub \<Rightarrow> nat" where
  "subscriber_count topic h = length (registered h topic)"

section \<open>Operations\<close>

definition hub_subscribe :: "string \<Rightarrow> hub \<Rightarrow> nat \<times> hub" where
  "hub_subscribe topic h =
     (let sid = hub_next h + 1;
          sub = \<lparr>sub_topic = topic, sub_chan = [], sub_closed = False, sub_done = False, sub_lag = 0\<rparr>
      in (sid, h\<lparr>hub_next := sid,
               hub_subs := fmupd sid sub (hub_subs h),
               hub_topics := fmupd topic (registered h topic @ [sid]) (hub_topics h)\<rparr>))"

definition hub_remove :: "string \<Rightarrow> nat \<Rightarrow> hub \<Rightarrow> hub" where
  "hub_remove topic sid h =
     (case fmlookup (hub_topics h) topic of
        None \<Rightarrow> h
      | Some subs \<Rightarrow>
          (let subs' = removeAll sid subs
           in if subs' = [] then h\<lparr>hub_topics := fmdrop topic (hub_topics h)\<rparr>
              else h\<lparr>hub_topics := fmupd topic subs' (hub_topics h)\<rparr>))"

definition update_sub :: "nat \<Rightarrow> (subscription \<Rightarrow> subscription) \<Rightarrow> hub \<Rightarrow> hub" where
  "update_sub sid f h =
     (case fmlookup (hub_subs h) sid of
        None \<Rightarrow> h
      | Some s \<Rightarrow> h\<lparr>hub_subs := fmupd sid (f s) (hub_subs h)\<rparr>)"

definition hub_close :: "nat \<Rightarrow> hub \<Rightarrow> hub" where
  "hub_close sid h =
     (case fmlookup (hub_subs h) sid of
        None \<Rightarrow> h
      | Some s \<Rightarrow>
          if sub_closed s then h
          else update_sub sid (\<lambda>s. s\<lparr>sub_done := True\<rparr>)
                 (hub_remove (sub_topic s) sid (update_sub sid (\<lambda>s. s\<lparr>sub_closed := True\<rparr>) h)))"

text \<open>One send: skip a closed subscriber; else the channel, or \<open>done\<close>, or a lag and one \<open>OnDrop\<close>.\<close>

definition deliver :: "nat \<Rightarrow> event \<Rightarrow> subscription \<Rightarrow> subscription \<times> nat" where
  "deliver buf e s =
     (if sub_closed s then (s, 0)
      else if length (sub_chan s) < buf then (s\<lparr>sub_chan := sub_chan s @ [e]\<rparr>, 0)
      else if sub_done s then (s, 0)
      else (s\<lparr>sub_lag := sub_lag s + 1\<rparr>, 1))"

definition deliver_to :: "event \<Rightarrow> hub \<times> nat \<Rightarrow> nat \<Rightarrow> hub \<times> nat" where
  "deliver_to e = (\<lambda>(h, drops) sid.
     (case fmlookup (hub_subs h) sid of
        None \<Rightarrow> (h, drops)
      | Some s \<Rightarrow> (let (s', d) = deliver (hub_buf h) e s
                  in (h\<lparr>hub_subs := fmupd sid s' (hub_subs h)\<rparr>, drops + d))))"

text \<open>Fan out to the snapshot of the topic's subscribers; also the number of \<open>OnDrop\<close> calls.\<close>

definition hub_publish :: "event \<Rightarrow> hub \<Rightarrow> hub \<times> nat" where
  "hub_publish e h = foldl (deliver_to e) (h, 0) (registered h (ev_topic e))"

text \<open>The consumer's end: take the next buffered event.\<close>

definition hub_recv :: "nat \<Rightarrow> hub \<Rightarrow> (event \<times> hub) option" where
  "hub_recv sid h =
     (case fmlookup (hub_subs h) sid of
        None \<Rightarrow> None
      | Some s \<Rightarrow>
          (case sub_chan s of
             [] \<Rightarrow> None
           | e # es \<Rightarrow> Some (e, h\<lparr>hub_subs := fmupd sid (s\<lparr>sub_chan := es\<rparr>) (hub_subs h)\<rparr>)))"

section \<open>The fan-out loop\<close>

lemma update_sub_simps [hub_simps]:
  "hub_topics (update_sub i f h) = hub_topics h" "hub_buf (update_sub i f h) = hub_buf h"
  "hub_next (update_sub i f h) = hub_next h" "registered (update_sub i f h) t = registered h t"
  "fmlookup (hub_subs (update_sub i f h)) j =
     (if j = i then map_option f (fmlookup (hub_subs h) j) else fmlookup (hub_subs h) j)"
  by (auto simp: update_sub_def registered_def split: option.splits)

definition drops_at :: "event \<Rightarrow> hub \<Rightarrow> nat \<Rightarrow> nat" where
  "drops_at e h i = (case fmlookup (hub_subs h) i of None \<Rightarrow> 0 | Some s \<Rightarrow> snd (deliver (hub_buf h) e s))"

lemma deliver_to_eq:
  "deliver_to e (h, n) i = (update_sub i (\<lambda>s. fst (deliver (hub_buf h) e s)) h, n + drops_at e h i)"
  by (simp add: deliver_to_def update_sub_def drops_at_def split: option.splits prod.splits)

lemma drops_at_update: "j \<noteq> i \<Longrightarrow> drops_at e (update_sub i f h) j = drops_at e h j"
  by (simp add: drops_at_def hub_simps split: option.split)

lemma fanout_frame:
  "hub_topics (fst (foldl (deliver_to e) (h, n) ids)) = hub_topics h
   \<and> hub_buf (fst (foldl (deliver_to e) (h, n) ids)) = hub_buf h
   \<and> hub_next (fst (foldl (deliver_to e) (h, n) ids)) = hub_next h"
  by (induction ids arbitrary: h n) (simp_all add: deliver_to_eq hub_simps)

lemma fanout_lookup:
  "distinct ids \<Longrightarrow>
   fmlookup (hub_subs (fst (foldl (deliver_to e) (h, n) ids))) i =
     (if i \<in> set ids then map_option (\<lambda>s. fst (deliver (hub_buf h) e s)) (fmlookup (hub_subs h) i)
      else fmlookup (hub_subs h) i)"
  by (induction ids arbitrary: h n) (auto simp: deliver_to_eq hub_simps)

lemma fanout_drops:
  "distinct ids \<Longrightarrow> snd (foldl (deliver_to e) (h, n) ids) = n + (\<Sum>i \<leftarrow> ids. drops_at e h i)"
proof (induction ids arbitrary: h n)
  case (Cons i ids)
  then have "(\<Sum>j \<leftarrow> ids. drops_at e (update_sub i (\<lambda>s. fst (deliver (hub_buf h) e s)) h) j) =
      (\<Sum>j \<leftarrow> ids. drops_at e h j)"
    by (intro arg_cong[of _ _ sum_list] map_cong refl drops_at_update) auto
  with Cons show ?case by (simp add: deliver_to_eq)
qed simp

section \<open>The registry invariant\<close>

text \<open>
  The registry of a topic holds exactly its open subscriptions, once each; ids are below the
  counter; no topic is kept without a subscriber; no channel is over its capacity.
\<close>

definition hub_inv :: "hub \<Rightarrow> bool" where
  "hub_inv h \<longleftrightarrow>
     (\<forall>t. distinct (registered h t))
     \<and> (\<forall>t i. i \<in> set (registered h t) \<longleftrightarrow>
           (\<exists>s. fmlookup (hub_subs h) i = Some s \<and> sub_topic s = t \<and> \<not> sub_closed s))
     \<and> (\<forall>i s. fmlookup (hub_subs h) i = Some s \<longrightarrow>
           1 \<le> i \<and> i \<le> hub_next h \<and> length (sub_chan s) \<le> hub_buf h \<and> sub_done s = sub_closed s)
     \<and> (\<forall>t. fmlookup (hub_topics h) t \<noteq> Some [])"

lemma hub_inv_distinct: "hub_inv h \<Longrightarrow> distinct (registered h t)"
  by (simp add: hub_inv_def)

lemma hub_inv_registered:
  "hub_inv h \<Longrightarrow> i \<in> set (registered h t) \<longleftrightarrow>
     (\<exists>s. fmlookup (hub_subs h) i = Some s \<and> sub_topic s = t \<and> \<not> sub_closed s)"
  by (simp add: hub_inv_def)

lemma hub_inv_sub:
  "hub_inv h \<Longrightarrow> fmlookup (hub_subs h) i = Some s \<Longrightarrow>
     1 \<le> i \<and> i \<le> hub_next h \<and> length (sub_chan s) \<le> hub_buf h \<and> sub_done s = sub_closed s"
  by (simp add: hub_inv_def)

lemma hub_inv_fresh: "hub_inv h \<Longrightarrow> fmlookup (hub_subs h) (hub_next h + 1) = None"
  using hub_inv_sub[of h "hub_next h + 1"] by (cases "fmlookup (hub_subs h) (hub_next h + 1)") auto

lemma hub_inv_new: "hub_inv (hub_new\<lparr>hub_buf := b\<rparr>)"
  by (simp add: hub_inv_def hub_new_def registered_def)

lemma deliver_frame [hub_simps]:
  "sub_topic (fst (deliver buf e s)) = sub_topic s" "sub_closed (fst (deliver buf e s)) = sub_closed s"
  "sub_done (fst (deliver buf e s)) = sub_done s"
  by (simp_all add: deliver_def)

lemma deliver_bound: "length (sub_chan s) \<le> buf \<Longrightarrow> length (sub_chan (fst (deliver buf e s))) \<le> buf"
  by (simp add: deliver_def)

subsection \<open>Subscribe\<close>

lemma hub_subscribe_simps [hub_simps]:
  "fst (hub_subscribe t h) = hub_next h + 1"
  "hub_next (snd (hub_subscribe t h)) = hub_next h + 1"
  "hub_buf (snd (hub_subscribe t h)) = hub_buf h"
  "fmlookup (hub_subs (snd (hub_subscribe t h))) i =
     (if i = hub_next h + 1 then Some \<lparr>sub_topic = t, sub_chan = [], sub_closed = False, sub_done = False, sub_lag = 0\<rparr>
      else fmlookup (hub_subs h) i)"
  "registered (snd (hub_subscribe t h)) t' =
     (if t' = t then registered h t @ [hub_next h + 1] else registered h t')"
  "fmlookup (hub_topics (snd (hub_subscribe t h))) t' =
     (if t' = t then Some (registered h t @ [hub_next h + 1]) else fmlookup (hub_topics h) t')"
  by (auto simp: hub_subscribe_def registered_def Let_def)

lemma hub_inv_subscribe:
  assumes "hub_inv h"
  shows "hub_inv (snd (hub_subscribe t h))"
proof -
  have fresh: "hub_next h + 1 \<notin> set (registered h t')" for t'
    using hub_inv_fresh[OF assms] hub_inv_registered[OF assms] by auto
  have reg: "i \<in> set (registered (snd (hub_subscribe t h)) t') \<longleftrightarrow>
      (\<exists>s. fmlookup (hub_subs (snd (hub_subscribe t h))) i = Some s \<and> sub_topic s = t' \<and> \<not> sub_closed s)" for t' i
    using hub_inv_registered[OF assms, of i t'] fresh[of t'] by (auto simp: hub_simps)
  have "distinct (registered (snd (hub_subscribe t h)) t')" for t'
    using hub_inv_distinct[OF assms, of t'] fresh[of t'] by (auto simp: hub_simps)
  moreover have "1 \<le> i \<and> i \<le> hub_next (snd (hub_subscribe t h)) \<and> length (sub_chan s) \<le> hub_buf (snd (hub_subscribe t h))
      \<and> sub_done s = sub_closed s" if "fmlookup (hub_subs (snd (hub_subscribe t h))) i = Some s" for i s
    using that hub_inv_sub[OF assms, of i s] by (auto simp: hub_simps split: if_splits)
  moreover have "fmlookup (hub_topics (snd (hub_subscribe t h))) t' \<noteq> Some []" for t'
    using assms by (auto simp: hub_simps hub_inv_def)
  ultimately show ?thesis using reg unfolding hub_inv_def by blast
qed

subsection \<open>Close\<close>

lemma registered_remove [hub_simps]:
  "registered (hub_remove t i h) t' = (if t' = t then removeAll i (registered h t) else registered h t')"
  by (auto simp: hub_remove_def registered_def Let_def split: option.splits)

lemma hub_remove_simps [hub_simps]:
  "hub_subs (hub_remove t i h) = hub_subs h" "hub_buf (hub_remove t i h) = hub_buf h"
  "hub_next (hub_remove t i h) = hub_next h"
  by (auto simp: hub_remove_def Let_def split: option.splits)

lemma hub_remove_nonempty:
  "\<forall>t. fmlookup (hub_topics h) t \<noteq> Some [] \<Longrightarrow> fmlookup (hub_topics (hub_remove t i h)) t' \<noteq> Some []"
  by (auto simp: hub_remove_def Let_def split: option.splits)

text \<open>A close marks the subscription and takes it out of the registry; a second one does nothing.\<close>

lemma hub_close_simps [hub_simps]:
  "hub_buf (hub_close i h) = hub_buf h" "hub_next (hub_close i h) = hub_next h"
  "fmlookup (hub_subs (hub_close i h)) j =
     (case fmlookup (hub_subs h) j of
        None \<Rightarrow> None
      | Some s \<Rightarrow> Some (if j = i \<and> \<not> sub_closed s then s\<lparr>sub_closed := True, sub_done := True\<rparr> else s))"
  by (auto simp: hub_close_def hub_simps split: option.splits)

lemma registered_close [hub_simps]:
  assumes "hub_inv h"
  shows "registered (hub_close i h) t = removeAll i (registered h t)"
proof (cases "i \<in> set (registered h t)")
  case True
  then obtain s where "fmlookup (hub_subs h) i = Some s" "sub_topic s = t" "\<not> sub_closed s"
    using hub_inv_registered[OF assms] by blast
  then show ?thesis by (simp add: hub_close_def hub_simps)
next
  case False
  then show ?thesis
    using hub_inv_registered[OF assms, of i t]
    by (auto simp: hub_close_def hub_simps split: option.splits)
qed

lemma hub_inv_close:
  assumes "hub_inv h"
  shows "hub_inv (hub_close i h)"
proof -
  have "distinct (registered (hub_close i h) t)" for t
    using hub_inv_distinct[OF assms, of t] by (simp add: registered_close[OF assms] distinct_removeAll)
  moreover have "j \<in> set (registered (hub_close i h) t) \<longleftrightarrow>
      (\<exists>s. fmlookup (hub_subs (hub_close i h)) j = Some s \<and> sub_topic s = t \<and> \<not> sub_closed s)" for j t
    using hub_inv_registered[OF assms, of j t]
    by (auto simp: registered_close[OF assms] hub_simps split: option.splits)
  moreover have "1 \<le> j \<and> j \<le> hub_next (hub_close i h) \<and> length (sub_chan s) \<le> hub_buf (hub_close i h)
      \<and> sub_done s = sub_closed s" if "fmlookup (hub_subs (hub_close i h)) j = Some s" for j s
    using that hub_inv_sub[OF assms, of j] by (auto simp: hub_simps split: option.splits if_splits)
  moreover have "fmlookup (hub_topics (hub_close i h)) t \<noteq> Some []" for t
    using assms hub_remove_nonempty[of "update_sub i (\<lambda>s. s\<lparr>sub_closed := True\<rparr>) h"]
    by (auto simp: hub_close_def hub_simps hub_inv_def split: option.splits)
  ultimately show ?thesis unfolding hub_inv_def by blast
qed

lemma hub_close_closed:
  "(\<And>s. fmlookup (hub_subs h) i = Some s \<Longrightarrow> sub_closed s) \<Longrightarrow> hub_close i h = h"
  by (auto simp: hub_close_def split: option.splits)

lemma hub_close_idem: "hub_close i (hub_close i h) = hub_close i h"
  by (rule hub_close_closed) (auto simp: hub_simps split: option.splits if_splits)

text \<open>Closing a list of subscriptions one after the other.\<close>

lemma close_all_inv: "hub_inv h \<Longrightarrow> hub_inv (foldl (\<lambda>h i. hub_close i h) h is)"
  by (induction "is" arbitrary: h) (simp_all add: hub_inv_close)

lemma close_all_keeps:
  "hub_inv h \<Longrightarrow> set (registered (foldl (\<lambda>h i. hub_close i h) h is) t) \<subseteq> set (registered h t)"
proof (induction "is" arbitrary: h)
  case (Cons k ks)
  show ?case
    using Cons.IH[OF hub_inv_close[OF Cons.prems, of k]] by (auto simp: registered_close[OF Cons.prems])
qed simp

lemma close_all_registered:
  "hub_inv h \<Longrightarrow> i \<in> set is \<Longrightarrow> i \<notin> set (registered (foldl (\<lambda>h i. hub_close i h) h is) t)"
proof (induction "is" arbitrary: h)
  case (Cons j js)
  show ?case
  proof (cases "i \<in> set js")
    case True
    with Cons hub_inv_close show ?thesis by simp
  next
    case False
    then have "i = j" using Cons.prems(2) by simp
    then show ?thesis
      using close_all_keeps[OF hub_inv_close[OF Cons.prems(1), of j], of js t]
      by (auto simp: registered_close[OF Cons.prems(1)])
  qed
qed simp

subsection \<open>Publish and receive\<close>

lemma hub_publish_simps [hub_simps]:
  "hub_buf (fst (hub_publish e h)) = hub_buf h" "hub_next (fst (hub_publish e h)) = hub_next h"
  "hub_topics (fst (hub_publish e h)) = hub_topics h"
  "registered (fst (hub_publish e h)) t = registered h t"
  using fanout_frame[of e h 0 "registered h (ev_topic e)"]
  by (simp_all add: hub_publish_def registered_def)

lemma hub_publish_lookup:
  assumes "hub_inv h"
  shows "fmlookup (hub_subs (fst (hub_publish e h))) i =
    (case fmlookup (hub_subs h) i of
       None \<Rightarrow> None
     | Some s \<Rightarrow> Some (if sub_topic s = ev_topic e then fst (deliver (hub_buf h) e s) else s))"
  using fanout_lookup[OF hub_inv_distinct[OF assms], of e h 0 "ev_topic e" i] hub_inv_registered[OF assms, of i "ev_topic e"]
  by (auto simp: hub_publish_def deliver_def split: option.splits)

lemma hub_publish_drops:
  assumes "hub_inv h"
  shows "snd (hub_publish e h) = (\<Sum>i \<leftarrow> registered h (ev_topic e). drops_at e h i)"
  using fanout_drops[OF hub_inv_distinct[OF assms]] by (simp add: hub_publish_def)

text \<open>The subscriptions a publish cannot give the event to.\<close>

lemma hub_drop_count:
  assumes "hub_inv h"
  shows "snd (hub_publish e h) = card {i. \<exists>s. fmlookup (hub_subs h) i = Some s \<and> \<not> sub_closed s
    \<and> sub_topic s = ev_topic e \<and> hub_buf h \<le> length (sub_chan s)}"
proof -
  let ?ids = "registered h (ev_topic e)"
  let ?full = "\<lambda>i. \<exists>s. fmlookup (hub_subs h) i = Some s \<and> hub_buf h \<le> length (sub_chan s)"
  have one: "drops_at e h i = (if ?full i then 1 else 0)" if "i \<in> set ?ids" for i
    using that hub_inv_registered[OF assms] hub_inv_sub[OF assms] by (fastforce simp: drops_at_def deliver_def)
  have "snd (hub_publish e h) = (\<Sum>i \<in> set ?ids. drops_at e h i)"
    using hub_publish_drops[OF assms, of e] sum_list_distinct_conv_sum_set[OF hub_inv_distinct[OF assms]] by metis
  also have "\<dots> = card (set ?ids \<inter> {i. ?full i})" by (simp add: one sum.If_cases cong: sum.cong)
  also have "set ?ids \<inter> {i. ?full i} = {i. \<exists>s. fmlookup (hub_subs h) i = Some s
      \<and> \<not> sub_closed s \<and> sub_topic s = ev_topic e \<and> hub_buf h \<le> length (sub_chan s)}"
    using hub_inv_registered[OF assms] by fastforce
  finally show ?thesis .
qed

lemma hub_inv_publish:
  assumes "hub_inv h"
  shows "hub_inv (fst (hub_publish e h))"
proof -
  have "j \<in> set (registered (fst (hub_publish e h)) t) \<longleftrightarrow>
      (\<exists>s. fmlookup (hub_subs (fst (hub_publish e h))) j = Some s \<and> sub_topic s = t \<and> \<not> sub_closed s)" for j t
    using hub_inv_registered[OF assms, of j t]
    by (auto simp: hub_publish_lookup[OF assms] hub_simps split: option.splits)
  moreover have "1 \<le> j \<and> j \<le> hub_next (fst (hub_publish e h))
      \<and> length (sub_chan s) \<le> hub_buf (fst (hub_publish e h)) \<and> sub_done s = sub_closed s"
    if "fmlookup (hub_subs (fst (hub_publish e h))) j = Some s" for j s
    using that hub_inv_sub[OF assms, of j] deliver_bound
    by (auto simp: hub_publish_lookup[OF assms] hub_simps split: option.splits if_splits)
  ultimately show ?thesis using assms unfolding hub_inv_def by (simp add: hub_simps)
qed

lemma hub_recv_simps:
  "hub_recv i h = Some (e, h') \<longleftrightarrow>
     (\<exists>s es. fmlookup (hub_subs h) i = Some s \<and> sub_chan s = e # es \<and> h' = update_sub i (\<lambda>s. s\<lparr>sub_chan := es\<rparr>) h)"
  by (auto simp: hub_recv_def update_sub_def split: option.splits list.splits)

lemma hub_inv_recv:
  assumes "hub_inv h" "hub_recv i h = Some (e, h')"
  shows "hub_inv h'"
proof -
  obtain s es where s: "fmlookup (hub_subs h) i = Some s" "sub_chan s = e # es"
      "h' = update_sub i (\<lambda>s. s\<lparr>sub_chan := es\<rparr>) h"
    using assms(2) hub_recv_simps by blast
  have "j \<in> set (registered h' t) \<longleftrightarrow>
      (\<exists>s. fmlookup (hub_subs h') j = Some s \<and> sub_topic s = t \<and> \<not> sub_closed s)" for j t
    using hub_inv_registered[OF assms(1), of j t] s by (auto simp: hub_simps)
  moreover have "1 \<le> j \<and> j \<le> hub_next h' \<and> length (sub_chan s') \<le> hub_buf h' \<and> sub_done s' = sub_closed s'"
    if "fmlookup (hub_subs h') j = Some s'" for j s'
    using that s hub_inv_sub[OF assms(1), of j] by (auto simp: hub_simps split: if_splits)
  ultimately show ?thesis using assms(1) s(3) unfolding hub_inv_def by (simp add: hub_simps)
qed

section \<open>Reachable hubs\<close>

text \<open>From \<open>New()\<close>, for any channel capacity; the code's is \<open>default_buffer\<close>.\<close>

inductive hub_step :: "hub \<Rightarrow> hub \<Rightarrow> bool" where
  step_subscribe: "hub_subscribe t h = (i, h') \<Longrightarrow> hub_step h h'"
| step_close: "hub_step h (hub_close i h)"
| step_publish: "hub_publish e h = (h', n) \<Longrightarrow> hub_step h h'"
| step_recv: "hub_recv i h = Some (e, h') \<Longrightarrow> hub_step h h'"

inductive hub_reachable :: "hub \<Rightarrow> bool" where
  hub_start: "hub_reachable (hub_new\<lparr>hub_buf := b\<rparr>)"
| hub_next_step: "hub_reachable h \<Longrightarrow> hub_step h h' \<Longrightarrow> hub_reachable h'"

lemma hub_step_inv: "hub_step h h' \<Longrightarrow> hub_inv h \<Longrightarrow> hub_inv h'"
  by (induction rule: hub_step.induct)
     (metis hub_inv_subscribe hub_inv_close hub_inv_publish hub_inv_recv fst_conv snd_conv)+

lemma hub_reachable_hub_inv: "hub_reachable h \<Longrightarrow> hub_inv h"
  by (induction rule: hub_reachable.induct) (auto intro: hub_inv_new hub_step_inv)

section \<open>The order of the fan-out\<close>

lemma hub_eqI:
  assumes "hub_next a = hub_next b" "hub_buf a = hub_buf b" "hub_topics a = hub_topics b"
    and "\<And>i. fmlookup (hub_subs a) i = fmlookup (hub_subs b) i"
  shows "a = (b :: hub)"
proof -
  have "hub_subs a = hub_subs b" by (rule fmap_ext) (rule assms(4))
  with assms(1-3) show ?thesis by (cases a, cases b) simp
qed

lemma fanout_perm:
  assumes "distinct ids" "mset ids' = mset ids"
  shows "foldl (deliver_to e) (h, n) ids' = foldl (deliver_to e) (h, n) ids"
proof -
  have d: "distinct ids'" "set ids' = set ids"
    using assms by (metis mset_eq_imp_distinct_iff, metis set_mset_mset)
  have "fst (foldl (deliver_to e) (h, n) ids') = fst (foldl (deliver_to e) (h, n) ids)"
    by (rule hub_eqI) (simp_all add: fanout_frame fanout_lookup assms(1) d)
  moreover have "(\<Sum>i \<leftarrow> ids'. drops_at e h i) = (\<Sum>i \<leftarrow> ids. drops_at e h i)"
    by (metis assms(2) mset_map sum_mset_sum_list)
  then have "snd (foldl (deliver_to e) (h, n) ids') = snd (foldl (deliver_to e) (h, n) ids)"
    by (simp add: fanout_drops assms(1) d)
  ultimately show ?thesis by (rule prod_eqI)
qed

section \<open>What one subscriber sees of a run\<close>

datatype hub_op = OpSubscribe string | OpClose nat | OpPublish event | OpRecv nat

fun hub_exec :: "hub_op \<Rightarrow> hub \<Rightarrow> hub" where
  "hub_exec (OpSubscribe t) h = snd (hub_subscribe t h)"
| "hub_exec (OpClose i) h = hub_close i h"
| "hub_exec (OpPublish e) h = fst (hub_publish e h)"
| "hub_exec (OpRecv i) h = (case hub_recv i h of None \<Rightarrow> h | Some (e, h') \<Rightarrow> h')"

text \<open>The events subscriber \<open>i\<close> receives in a step, and in a run.\<close>

fun op_received :: "nat \<Rightarrow> hub_op \<Rightarrow> hub \<Rightarrow> event list" where
  "op_received i (OpRecv j) h =
     (if j = i then (case hub_recv i h of None \<Rightarrow> [] | Some (e, _) \<Rightarrow> [e]) else [])"
| "op_received i _ h = []"

fun hub_run :: "nat \<Rightarrow> hub_op list \<Rightarrow> hub \<Rightarrow> hub \<times> event list" where
  "hub_run i [] h = (h, [])"
| "hub_run i (op # ops) h =
     (let (h', got) = hub_run i ops (hub_exec op h) in (h', op_received i op h @ got))"

fun op_published :: "string \<Rightarrow> hub_op \<Rightarrow> event list" where
  "op_published t (OpPublish e) = (if ev_topic e = t then [e] else [])"
| "op_published t _ = []"

definition published :: "string \<Rightarrow> hub_op list \<Rightarrow> event list" where
  "published t ops = concat (map (op_published t) ops)"

lemma hub_exec_inv: "hub_inv h \<Longrightarrow> hub_inv (hub_exec op h)"
  by (cases op) (auto simp: hub_inv_subscribe hub_inv_close hub_inv_publish intro: hub_inv_recv split: option.splits)

text \<open>One step: what was buffered, plus what the step published, is what is received plus what is
  still buffered, short of the events counted as lag.\<close>

lemma hub_exec_sub:
  assumes "hub_inv h" "fmlookup (hub_subs h) i = Some s" "\<not> sub_closed s" "op \<noteq> OpClose i"
  shows "\<exists>s'. fmlookup (hub_subs (hub_exec op h)) i = Some s' \<and> \<not> sub_closed s' \<and> sub_topic s' = sub_topic s
    \<and> subseq (op_received i op h @ sub_chan s') (sub_chan s @ op_published (sub_topic s) op)
    \<and> length (op_received i op h @ sub_chan s') + sub_lag s' =
        length (sub_chan s @ op_published (sub_topic s) op) + sub_lag s"
proof (cases op)
  case (OpSubscribe t)
  then show ?thesis using assms hub_inv_sub[OF assms(1,2)] by (auto simp: hub_simps)
next
  case (OpClose j)
  then show ?thesis using assms by (auto simp: hub_simps)
next
  case (OpPublish e)
  then show ?thesis
    using assms hub_inv_sub[OF assms(1,2)] by (auto simp: hub_publish_lookup deliver_def)
next
  case (OpRecv j)
  show ?thesis
  proof (cases "hub_recv j h")
    case None
    then show ?thesis using OpRecv assms by auto
  next
    case (Some r)
    obtain e h' where r: "hub_recv j h = Some (e, h')" using Some by (cases r) auto
    then obtain sj es where "fmlookup (hub_subs h) j = Some sj" "sub_chan sj = e # es"
        "h' = update_sub j (\<lambda>s. s\<lparr>sub_chan := es\<rparr>) h"
      using hub_recv_simps by blast
    then show ?thesis using OpRecv r assms by (auto simp: hub_simps)
  qed
qed

lemma hub_run_sub:
  assumes "hub_inv h" "fmlookup (hub_subs h) i = Some s" "\<not> sub_closed s" "OpClose i \<notin> set ops"
    and "hub_run i ops h = (h', got)"
  shows "\<exists>s'. fmlookup (hub_subs h') i = Some s'
    \<and> subseq (got @ sub_chan s') (sub_chan s @ published (sub_topic s) ops)
    \<and> length (got @ sub_chan s') + sub_lag s' = length (sub_chan s @ published (sub_topic s) ops) + sub_lag s"
  using assms
proof (induction ops arbitrary: h s got)
  case (Cons op ops)
  obtain got' where run: "hub_run i ops (hub_exec op h) = (h', got')" and got: "got = op_received i op h @ got'"
    using Cons.prems(5) by (auto split: prod.splits)
  obtain s1 where s1: "fmlookup (hub_subs (hub_exec op h)) i = Some s1" "\<not> sub_closed s1"
      "sub_topic s1 = sub_topic s"
      "subseq (op_received i op h @ sub_chan s1) (sub_chan s @ op_published (sub_topic s) op)"
      "length (op_received i op h @ sub_chan s1) + sub_lag s1 =
        length (sub_chan s @ op_published (sub_topic s) op) + sub_lag s"
    using hub_exec_sub[OF Cons.prems(1-3), of op] Cons.prems(4) by auto
  obtain s' where s': "fmlookup (hub_subs h') i = Some s'"
      "subseq (got' @ sub_chan s') (sub_chan s1 @ published (sub_topic s) ops)"
      "length (got' @ sub_chan s') + sub_lag s' = length (sub_chan s1 @ published (sub_topic s) ops) + sub_lag s1"
    using Cons.IH[OF hub_exec_inv[OF Cons.prems(1)] s1(1,2) _ run] Cons.prems(4) s1(3) by auto
  have tail: "subseq (op_received i op h @ got' @ sub_chan s')
      (op_received i op h @ sub_chan s1 @ published (sub_topic s) ops)"
    using s'(2) by (simp only: subseq_append')
  have step: "subseq ((op_received i op h @ sub_chan s1) @ published (sub_topic s) ops)
      ((sub_chan s @ op_published (sub_topic s) op) @ published (sub_topic s) ops)"
    by (rule list_emb_append_mono[OF s1(4)]) simp
  have "subseq (got @ sub_chan s') (sub_chan s @ published (sub_topic s) (op # ops))"
    using subseq_order.order_trans[OF tail step[unfolded append_assoc]]
    by (simp add: got published_def)
  then show ?case
    using s'(1,3) s1(5) by (auto simp: got published_def)
qed (auto simp: published_def)

section \<open>Properties\<close>

text \<open>A hub for the witnesses, with room for one event: subscriber 1 is full, subscriber 2 is not.\<close>

definition demo_started :: event where
  "demo_started = new_event ''job/1'' ''started'' [] RNil 1"

definition demo_hub :: hub where
  "demo_hub = hub_exec (OpSubscribe ''job/1'') (hub_exec (OpPublish demo_started)
     (hub_exec (OpSubscribe ''job/1'') (hub_new\<lparr>hub_buf := 1\<rparr>)))"

lemma hub_reachable_exec: "hub_reachable h \<Longrightarrow> hub_reachable (hub_exec op h)"
  by (cases op)
     (auto intro: hub_next_step step_subscribe[OF prod.collapse[symmetric]] step_close
       step_publish[OF prod.collapse[symmetric]] step_recv split: option.splits)

lemma demo_hub_reachable: "hub_reachable demo_hub"
  unfolding demo_hub_def by (intro hub_reachable_exec hub_start)

lemma demo_hub_subs:
  "fmlookup (hub_subs demo_hub) i =
     (if i = 2 then Some \<lparr>sub_topic = ''job/1'', sub_chan = [], sub_closed = False, sub_done = False, sub_lag = 0\<rparr>
      else if i = 1 then
        Some \<lparr>sub_topic = ''job/1'', sub_chan = [demo_started], sub_closed = False, sub_done = False, sub_lag = 0\<rparr>
      else None)"
  "hub_buf demo_hub = 1" "registered demo_hub ''job/1'' = [1, 2]"
  by (simp_all add: demo_hub_def hub_new_def hub_subscribe_def hub_publish_def deliver_to_def deliver_def
      registered_def demo_started_def new_event_def)

text \<open>C14: in every reachable hub the registry of a topic lists each open subscription of the topic
  exactly once and nothing else, no topic stays registered without a subscriber, and no channel
  holds more than its capacity.\<close>

theorem hub_registry_exact:
  assumes "hub_reachable h"
  shows "distinct (registered h t)
    \<and> set (registered h t) =
        {i. \<exists>s. fmlookup (hub_subs h) i = Some s \<and> sub_topic s = t \<and> \<not> sub_closed s}
    \<and> fmlookup (hub_topics h) t \<noteq> Some []
    \<and> (\<forall>i s. fmlookup (hub_subs h) i = Some s \<longrightarrow> length (sub_chan s) \<le> hub_buf h)"
proof -
  have inv: "hub_inv h" by (rule hub_reachable_hub_inv[OF assms])
  show ?thesis
    using hub_inv_distinct[OF inv] hub_inv_registered[OF inv] hub_inv_sub[OF inv] inv
    unfolding hub_inv_def by blast
qed

theorem hub_registry_exact_witness:
  "2 \<in> {i. \<exists>s. fmlookup (hub_subs demo_hub) i = Some s \<and> sub_topic s = ''job/1'' \<and> \<not> sub_closed s}
   \<and> fmlookup (hub_topics demo_hub) ''job/2'' \<noteq> Some []"
  using hub_registry_exact[OF demo_hub_reachable, of "''job/1''"]
    hub_registry_exact[OF demo_hub_reachable, of "''job/2''"] demo_hub_subs(3) by auto

text \<open>C13: a publish gives each open subscription of the event's topic the event, at the end of its
  channel, when there is room, and one more lag when there is not; it changes no other subscription,
  and calls \<open>OnDrop\<close> once for each subscription it could not give the event.\<close>

theorem hub_publish_exact:
  assumes "hub_reachable h" "hub_publish e h = (h', drops)"
  shows "(\<forall>i. fmlookup (hub_subs h') i =
      (case fmlookup (hub_subs h) i of
         None \<Rightarrow> None
       | Some s \<Rightarrow> Some (if sub_closed s \<or> sub_topic s \<noteq> ev_topic e then s
                        else if length (sub_chan s) < hub_buf h then s\<lparr>sub_chan := sub_chan s @ [e]\<rparr>
                        else s\<lparr>sub_lag := sub_lag s + 1\<rparr>)))
    \<and> drops = card {i. \<exists>s. fmlookup (hub_subs h) i = Some s \<and> \<not> sub_closed s
        \<and> sub_topic s = ev_topic e \<and> hub_buf h \<le> length (sub_chan s)}"
proof -
  have inv: "hub_inv h" by (rule hub_reachable_hub_inv[OF assms(1)])
  have "drops = card {i. \<exists>s. fmlookup (hub_subs h) i = Some s \<and> \<not> sub_closed s
      \<and> sub_topic s = ev_topic e \<and> hub_buf h \<le> length (sub_chan s)}"
    using hub_drop_count[OF inv, of e] assms(2) by simp
  then show ?thesis
    using hub_publish_lookup[OF inv, of e] assms(2) hub_inv_sub[OF inv]
    by (auto simp: deliver_def split: option.splits)
qed

theorem hub_publish_exact_witness:
  "\<exists>h' s1 s2. hub_publish demo_started demo_hub = (h', 1)
    \<and> fmlookup (hub_subs h') 1 = Some s1 \<and> sub_chan s1 = [demo_started] \<and> sub_lag s1 = 1
    \<and> fmlookup (hub_subs h') 2 = Some s2 \<and> sub_chan s2 = [demo_started] \<and> sub_lag s2 = 0"
proof -
  obtain h' n where p: "hub_publish demo_started demo_hub = (h', n)" by fastforce
  have "{i. \<exists>s. fmlookup (hub_subs demo_hub) i = Some s \<and> \<not> sub_closed s
      \<and> sub_topic s = ev_topic demo_started \<and> hub_buf demo_hub \<le> length (sub_chan s)} = {1}"
    by (auto simp: demo_hub_subs demo_started_def new_event_def split: if_splits)
  then show ?thesis
    using hub_publish_exact[OF demo_hub_reachable p] p
    by (auto simp: demo_hub_subs demo_started_def new_event_def)
qed

text \<open>The order in which a publish ranges over the topic's subscribers does not matter.\<close>

lemma hub_publish_any_order:
  assumes "hub_reachable h" "mset ids = mset (registered h (ev_topic e))"
  shows "foldl (deliver_to e) (h, 0) ids = hub_publish e h"
  unfolding hub_publish_def
  by (rule fanout_perm[OF hub_inv_distinct[OF hub_reachable_hub_inv[OF assms(1)]] assms(2)])

text \<open>Over any run of subscribes, publishes, receives and other subscribers' closes, what an
  open subscriber has received and still holds is, in order, a part of what it held at the start
  and what was published to its topic, and the events missing from it are counted by its lag; so
  it is all of them when its lag did not grow.\<close>

lemma hub_delivery:
  assumes "hub_reachable h" "fmlookup (hub_subs h) i = Some s" "\<not> sub_closed s"
    and "OpClose i \<notin> set ops" "hub_run i ops h = (h', got)"
  shows "\<exists>s'. fmlookup (hub_subs h') i = Some s'
    \<and> subseq (got @ sub_chan s') (sub_chan s @ published (sub_topic s) ops)
    \<and> length (got @ sub_chan s') + sub_lag s' = length (sub_chan s @ published (sub_topic s) ops) + sub_lag s
    \<and> (sub_lag s' = sub_lag s \<longrightarrow> got @ sub_chan s' = sub_chan s @ published (sub_topic s) ops)"
proof -
  obtain s' where s': "fmlookup (hub_subs h') i = Some s'"
      "subseq (got @ sub_chan s') (sub_chan s @ published (sub_topic s) ops)"
      "length (got @ sub_chan s') + sub_lag s' = length (sub_chan s @ published (sub_topic s) ops) + sub_lag s"
    using hub_run_sub[OF hub_reachable_hub_inv[OF assms(1)] assms(2-5)] by blast
  have "got @ sub_chan s' = sub_chan s @ published (sub_topic s) ops" if "sub_lag s' = sub_lag s"
    using subseq_same_length[OF s'(2)] s'(3) that by simp
  with s' show ?thesis by blast
qed

lemma hub_delivery_example:
  "\<exists>h' got s'. hub_run 2 [OpPublish demo_started, OpRecv 2, OpPublish demo_started, OpPublish demo_started] demo_hub
      = (h', got)
    \<and> fmlookup (hub_subs h') 2 = Some s' \<and> subseq (got @ sub_chan s') (replicate 3 demo_started)
    \<and> length (got @ sub_chan s') + sub_lag s' = 3"
proof -
  let ?ops = "[OpPublish demo_started, OpRecv 2, OpPublish demo_started, OpPublish demo_started]"
  let ?s = "\<lparr>sub_topic = ''job/1'', sub_chan = [], sub_closed = False, sub_done = False, sub_lag = 0\<rparr>"
  obtain h' got where r: "hub_run 2 ?ops demo_hub = (h', got)" by (rule prod.exhaust)
  have s: "fmlookup (hub_subs demo_hub) 2 = Some ?s" by (simp add: demo_hub_subs)
  have pub: "published ''job/1'' ?ops = replicate 3 demo_started"
    by (simp add: published_def demo_started_def new_event_def numeral_3_eq_3)
  show ?thesis
    using hub_delivery[OF demo_hub_reachable s _ _ r] pub r by auto
qed

text \<open>Closing a subscription takes it out of the registry for good: a second close changes
  nothing, and no later publish reaches its channel or its lag.\<close>

lemma hub_close_ends_delivery:
  assumes "hub_reachable h" "fmlookup (hub_subs h) i = Some s"
  shows "hub_close i (hub_close i h) = hub_close i h
    \<and> i \<notin> set (registered (hub_close i h) t)
    \<and> fmlookup (hub_subs (fst (hub_publish e (hub_close i h)))) i =
        Some (s\<lparr>sub_closed := True, sub_done := True\<rparr>)"
proof -
  have inv: "hub_inv h" by (rule hub_reachable_hub_inv[OF assms(1)])
  have "s\<lparr>sub_closed := True, sub_done := True\<rparr> = s" if "sub_closed s"
    using that hub_inv_sub[OF inv assms(2)] by (cases s) simp
  then show ?thesis
    using assms(2) hub_inv_close[OF inv, of i]
    by (auto simp: hub_close_idem registered_close[OF inv] hub_publish_lookup deliver_def hub_simps)
qed

lemma hub_close_ends_delivery_example:
  "\<exists>s. fmlookup (hub_subs (fst (hub_publish demo_started (hub_close 2 demo_hub)))) 2 = Some s
    \<and> sub_chan s = [] \<and> sub_lag s = 0"
proof -
  have s: "fmlookup (hub_subs demo_hub) 2 =
      Some \<lparr>sub_topic = ''job/1'', sub_chan = [], sub_closed = False, sub_done = False, sub_lag = 0\<rparr>"
    by (simp add: demo_hub_subs)
  show ?thesis using hub_close_ends_delivery[OF demo_hub_reachable s] by simp
qed

end
