(* ===== verification/BrokerModel.thy ===== *)
theory BrokerModel
  imports ObjTypes MemStore HubModel
begin

text \<open>
  The broker, \<open>internal/broker/broker.go\<close>: the ingest path (append, reduce, store the state, fan
  out) over any store and hub, and the read path. \<open>Publish\<close> runs under one lock, so it is one
  function of the broker's state; the interleavings of its two halves with a subscriber's steps are
  in the theory \<open>Delivery\<close>. The metrics a call updates are logged in \<open>br_metrics\<close> in the order of
  the updates. The several clock reads of one call are taken to give the same time \<open>now\<close>.

  The main result is \<open>broker_state_is_fold\<close>: with an in-process store, after any operations, the
  stored state of a topic is the fold of its stored events through the reducer.
\<close>

section \<open>State\<close>

datatype metric_op =
    IncIngested string string
  | AddFannedOut string nat
  | IncDropped string
  | IncSubscriptions string
  | DecSubscriptions string
  | IncConnected
  | DecConnected
  | SetTopics nat

record 's broker =
  br_ops :: "'s store_ops"
  br_store :: 's
  br_hub :: hub
  br_reducers :: registry
  br_default_ttl :: i64
  br_metrics :: "metric_op list"

definition broker_new :: "'s store_ops \<Rightarrow> 's \<Rightarrow> hub \<Rightarrow> registry \<Rightarrow> i64 \<Rightarrow> 's broker" where
  "broker_new ops s h r ttl =
     \<lparr>br_ops = ops, br_store = s, br_hub = h, br_reducers = r, br_default_ttl = ttl, br_metrics = []\<rparr>"

text \<open>The \<open>OnDrop\<close> callback that \<open>New\<close> installs, called once per dropped event.\<close>

definition on_drop :: "string \<Rightarrow> metric_op list" where
  "on_drop topic = (case parse_object_type topic of Inr ot \<Rightarrow> [IncDropped ot] | Inl _ \<Rightarrow> [])"

definition add_metrics :: "metric_op list \<Rightarrow> 's broker \<Rightarrow> 's broker" where
  "add_metrics ms b = b\<lparr>br_metrics := br_metrics b @ ms\<rparr>"

section \<open>Publish\<close>

text \<open>The store half of \<open>Publish\<close>, after the event is accepted: append, reduce, save, upsert the
  meta. It gives the sequence number, the stored event and the state to attach.\<close>

definition broker_ingest ::
    "time \<Rightarrow> string \<Rightarrow> string \<Rightarrow> event \<Rightarrow> 's broker \<Rightarrow> (gerr + nat \<times> event \<times> raw) \<times> 's broker" where
  "broker_ingest now fresh_id ot e b =
     (case so_append (br_ops b) now fresh_id e (br_store b) of
        (Inl err, _, s1) \<Rightarrow> (Inl err, b\<lparr>br_store := s1\<rparr>)
      | (Inr seq, e1, s1) \<Rightarrow>
          (let prev = (case so_get_state (br_ops b) (ev_topic e1) s1 of Inr r \<Rightarrow> r | Inl _ \<Rightarrow> RNil);
               (next, rerr) = registry_apply (br_reducers b) prev e1;
               s2 = (if rerr = None \<and> next \<noteq> RNil
                     then snd (so_set_state (br_ops b) now (ev_topic e1) next s1) else s1);
               meta = \<lparr>tm_topic = ev_topic e1, tm_object_type = ot, tm_ttl = br_default_ttl b,
                       tm_created_at = 0, tm_last_event_at = 0, tm_last_seq = 0\<rparr>;
               s3 = snd (so_upsert_meta (br_ops b) now meta s2)
           in (Inr (seq, e1, next), b\<lparr>br_store := s3\<rparr>)))"

text \<open>The hub half: a copy of the event that carries the state, then the metrics.\<close>

definition broker_fanout :: "string \<Rightarrow> string \<Rightarrow> event \<Rightarrow> raw \<Rightarrow> 's broker \<Rightarrow> 's broker" where
  "broker_fanout ot source e next b =
     (let fanout = e\<lparr>ev_state := next\<rparr>;
          (h, drops) = hub_publish fanout (br_hub b);
          b1 = add_metrics (concat (replicate drops (on_drop (ev_topic e)))) (b\<lparr>br_hub := h\<rparr>)
      in add_metrics [IncIngested ot source, AddFannedOut ot (subscriber_count (ev_topic e) h)] b1)"

definition broker_publish ::
    "time \<Rightarrow> string \<Rightarrow> event \<Rightarrow> string \<Rightarrow> 's broker \<Rightarrow> (gerr + nat) \<times> 's broker" where
  "broker_publish now fresh_id e source b =
     (case validate_topic (ev_topic e) of
        Some err \<Rightarrow> (Inl err, b)
      | None \<Rightarrow>
          if ev_type e = [] then (Inl (ErrMsg ''event type required''), b)
          else (case parse_object_type (ev_topic e) of
                  Inl err \<Rightarrow> (Inl err, b)
                | Inr ot \<Rightarrow>
                    (case broker_ingest now fresh_id ot e b of
                       (Inl err, b1) \<Rightarrow> (Inl err, b1)
                     | (Inr (seq, e1, next), b1) \<Rightarrow> (Inr seq, broker_fanout ot source e1 next b1))))"

section \<open>Subscribe, unsubscribe and the reads\<close>

text \<open>The backfill a subscription starts with; \<open>int(from.Value)\<close> may come out negative.\<close>

definition read_backfill :: "'s store_ops \<Rightarrow> string \<Rightarrow> from_spec \<Rightarrow> 's \<Rightarrow> gerr + event list" where
  "read_backfill ops topic from s =
     (case fr_kind from of
        FromLatest \<Rightarrow> Inr []
      | FromLastN \<Rightarrow> so_latest ops topic (int_of_u64 (fr_value from)) s
      | FromSeq \<Rightarrow> so_read ops topic (fr_value from) 0 s)"

definition fence_of :: "event list \<Rightarrow> nat" where
  "fence_of backfill = (if backfill = [] then 0 else ev_seq (last backfill))"

definition broker_subscribe ::
    "string \<Rightarrow> from_spec \<Rightarrow> 's broker \<Rightarrow> (gerr + nat \<times> event list \<times> nat) \<times> 's broker" where
  "broker_subscribe topic from b =
     (case validate_topic topic of
        Some err \<Rightarrow> (Inl err, b)
      | None \<Rightarrow>
          (let ot = (case parse_object_type topic of Inr ot \<Rightarrow> ot | Inl _ \<Rightarrow> []);
               (sub, h) = hub_subscribe topic (br_hub b)
           in case read_backfill (br_ops b) topic from (br_store b) of
                Inl err \<Rightarrow> (Inl err, b\<lparr>br_hub := hub_close sub h\<rparr>)
              | Inr backfill \<Rightarrow>
                  (Inr (sub, backfill, fence_of backfill),
                   add_metrics [IncSubscriptions ot] (b\<lparr>br_hub := h\<rparr>))))"

definition broker_unsubscribe :: "nat \<Rightarrow> 's broker \<Rightarrow> 's broker" where
  "broker_unsubscribe sub b =
     (case fmlookup (hub_subs (br_hub b)) sub of
        None \<Rightarrow> b
      | Some s \<Rightarrow>
          (let b1 = (case parse_object_type (sub_topic s) of
                       Inr ot \<Rightarrow> add_metrics [DecSubscriptions ot] b
                     | Inl _ \<Rightarrow> b)
           in b1\<lparr>br_hub := hub_close sub (br_hub b1)\<rparr>))"

definition broker_get_state :: "string \<Rightarrow> 's broker \<Rightarrow> gerr + raw" where
  "broker_get_state topic b = so_get_state (br_ops b) topic (br_store b)"

definition broker_events :: "string \<Rightarrow> nat \<Rightarrow> int \<Rightarrow> 's broker \<Rightarrow> gerr + event list" where
  "broker_events topic from_seq limit b = so_read (br_ops b) topic from_seq limit (br_store b)"

definition broker_latest :: "string \<Rightarrow> int \<Rightarrow> 's broker \<Rightarrow> gerr + event list" where
  "broker_latest topic n b = so_latest (br_ops b) topic n (br_store b)"

definition broker_list_topics :: "string \<Rightarrow> int \<Rightarrow> 's broker \<Rightarrow> gerr + string list" where
  "broker_list_topics pre limit b = so_list_topics (br_ops b) pre limit (br_store b)"

section \<open>What each half leaves\<close>

lemma add_metrics_simps [simp]:
  "br_store (add_metrics ms b) = br_store b" "br_hub (add_metrics ms b) = br_hub b"
  "br_ops (add_metrics ms b) = br_ops b" "br_reducers (add_metrics ms b) = br_reducers b"
  "br_default_ttl (add_metrics ms b) = br_default_ttl b"
  "br_metrics (add_metrics ms b) = br_metrics b @ ms"
  by (simp_all add: add_metrics_def)

lemma broker_fanout_simps [simp]:
  "br_store (broker_fanout ot source e next b) = br_store b"
  "br_ops (broker_fanout ot source e next b) = br_ops b"
  "br_reducers (broker_fanout ot source e next b) = br_reducers b"
  "br_hub (broker_fanout ot source e next b) = fst (hub_publish (e\<lparr>ev_state := next\<rparr>) (br_hub b))"
  by (simp_all add: broker_fanout_def case_prod_unfold Let_def)

lemma broker_unsubscribe_simps [simp]:
  "br_store (broker_unsubscribe i b) = br_store b" "br_ops (broker_unsubscribe i b) = br_ops b"
  "br_reducers (broker_unsubscribe i b) = br_reducers b"
  "br_hub (broker_unsubscribe i b) = hub_close i (br_hub b)"
  by (auto simp: broker_unsubscribe_def hub_close_def Let_def split: option.splits sum.splits)

lemma broker_ingest_frame:
  "br_hub (snd (broker_ingest now rid ot e b)) = br_hub b"
  "br_ops (snd (broker_ingest now rid ot e b)) = br_ops b"
  "br_reducers (snd (broker_ingest now rid ot e b)) = br_reducers b"
  "br_metrics (snd (broker_ingest now rid ot e b)) = br_metrics b"
  by (auto simp: broker_ingest_def Let_def case_prod_unfold split: sum.splits)

lemma broker_subscribe_store:
  "br_store (snd (broker_subscribe t f b)) = br_store b" "br_ops (snd (broker_subscribe t f b)) = br_ops b"
  "br_reducers (snd (broker_subscribe t f b)) = br_reducers b"
  by (auto simp: broker_subscribe_def Let_def case_prod_unfold split: option.splits sum.splits)

section \<open>The stored state is the fold of the stored events\<close>

definition state_view :: "raw option \<Rightarrow> raw" where
  "state_view r = (case r of None \<Rightarrow> RNil | Some r \<Rightarrow> r)"

lemma state_view_simps [simp]: "state_view None = RNil" "state_view (Some r) = r"
  by (simp_all add: state_view_def)

context local_store
begin

definition folded where
  "folded reg s \<longleftrightarrow> (\<forall>t. state_view (state_of s t) = raw_fold (registry_apply reg) RNil (log s t))"

lemma read_state: "invar s \<Longrightarrow> (case so_get_state ops t s of Inr r \<Rightarrow> r | Inl _ \<Rightarrow> RNil) = state_view (state_of s t)"
  by (simp add: get_state_total state_view_def split: option.splits)

text \<open>The ingest path on a store in the same process never fails; what it leaves of the store.\<close>

lemma ingest_spec:
  assumes "invar (br_store b)" "br_ops b = ops"
  shows "\<exists>n e' next b'. broker_ingest now rid ot e b = (Inr (n, e', next), b')
    \<and> n = Suc (length (log (br_store b) (ev_topic e))) \<and> e' = stamp_event now rid n e
    \<and> next = fst (registry_apply (br_reducers b) (state_view (state_of (br_store b) (ev_topic e))) e')
    \<and> invar (br_store b')
    \<and> log (br_store b') = (log (br_store b))(ev_topic e := log (br_store b) (ev_topic e) @ [e'])
    \<and> (\<forall>t. state_view (state_of (br_store b') t) =
         (if t = ev_topic e
          then kept (state_view (state_of (br_store b) t))
                 (registry_apply (br_reducers b) (state_view (state_of (br_store b) t)) e')
          else state_view (state_of (br_store b) t)))"
proof -
  let ?s = "br_store b"
  obtain n e' s1 where a: "so_append ops now rid e ?s = (Inr n, e', s1)"
    using append_total[OF assms(1), of now rid e] by (metis prod.collapse)
  have A: "invar s1" "e' = stamp_event now rid n e" "log s1 = (log ?s)(ev_topic e := log ?s (ev_topic e) @ [e'])"
      "state_of s1 = state_of ?s" and n: "n = Suc (length (log ?s (ev_topic e)))"
    using append_ok[OF assms(1) a] append_next[OF assms(1) a] by auto
  have t: "ev_topic e' = ev_topic e" using A(2) by simp
  define prev where "prev = state_view (state_of ?s (ev_topic e))"
  obtain next' rerr where r: "registry_apply (br_reducers b) prev e' = (next', rerr)" by fastforce
  define s2 where "s2 = (if rerr = None \<and> next' \<noteq> RNil then snd (so_set_state ops now (ev_topic e) next' s1) else s1)"
  have S2: "invar s2 \<and> log s2 = log s1
      \<and> state_of s2 = (if rerr = None \<and> next' \<noteq> RNil then (state_of ?s)(ev_topic e \<mapsto> next') else state_of ?s)"
  proof (cases "rerr = None \<and> next' \<noteq> RNil")
    case True
    then have "so_set_state ops now (ev_topic e) next' s1 = (None, s2)"
      using set_state_total[OF A(1), of now "ev_topic e" next'] by (simp add: s2_def prod_eq_iff)
    with set_state_ok[OF A(1) this] True A(4) show ?thesis by simp
  qed (auto simp: s2_def A)
  define meta where "meta = \<lparr>tm_topic = ev_topic e, tm_object_type = ot, tm_ttl = br_default_ttl b,
    tm_created_at = 0, tm_last_event_at = 0, tm_last_seq = 0\<rparr>"
  obtain u s3 where u: "so_upsert_meta ops now meta s2 = (u, s3)" by fastforce
  have S3: "invar s3 \<and> log s3 = log s2 \<and> state_of s3 = state_of s2"
    using upsert_meta_ok[OF _ u] S2 by blast
  have "broker_ingest now rid ot e b = (Inr (n, e', next'), b\<lparr>br_store := s3\<rparr>)"
    using a r u by (auto simp: broker_ingest_def assms(2) read_state[OF A(1)] t A(4) prev_def[symmetric]
        meta_def[symmetric] s2_def split: if_splits)
  then show ?thesis
    using n A S2 S3 r by (auto simp: prev_def[symmetric] kept_def)
qed

lemma ingest_folded:
  assumes "invar (br_store b)" "br_ops b = ops" "folded (br_reducers b) (br_store b)"
  shows "invar (br_store (snd (broker_ingest now rid ot e b)))
    \<and> folded (br_reducers b) (br_store (snd (broker_ingest now rid ot e b)))"
  using ingest_spec[OF assms(1,2), of now rid ot e] assms(3) unfolding folded_def by auto

lemma publish_folded:
  assumes "invar (br_store b)" "br_ops b = ops" "folded (br_reducers b) (br_store b)"
  shows "invar (br_store (snd (broker_publish now rid e source b)))
    \<and> folded (br_reducers b) (br_store (snd (broker_publish now rid e source b)))"
  using ingest_folded[OF assms] assms(1,3)
  by (auto simp: broker_publish_def split: option.splits sum.splits prod.splits) (metis snd_conv)+

lemma delete_folded:
  assumes "invar s" "folded reg s"
  shows "invar (snd (so_delete_topic ops t s)) \<and> folded reg (snd (so_delete_topic ops t s))"
proof (cases "so_delete_topic ops t s")
  case (Pair err s')
  then show ?thesis
    using assms delete_topic_ok[OF assms(1)] delete_topic_err[OF assms(1)]
    by (cases err) (auto simp: folded_def state_view_def)
qed

lemma expire_folded:
  assumes "invar s" "folded reg s"
  shows "invar (snd (so_expire ops cutoff s)) \<and> folded reg (snd (so_expire ops cutoff s))"
proof -
  obtain cnt s' where e: "so_expire ops cutoff s = (cnt, s')" by fastforce
  have "state_view (state_of s' t) = raw_fold (registry_apply reg) RNil (log s' t)" for t
    using expire_ok[OF assms(1) e, of t] assms(2) by (auto simp: folded_def state_view_def)
  then show ?thesis using expire_ok[OF assms(1) e] e by (simp add: folded_def)
qed

end

section \<open>Reachable brokers\<close>

text \<open>Any interleaving of calls of the broker, receives of subscribers, and sweeps of the archiver.\<close>

inductive broker_step :: "'s broker \<Rightarrow> 's broker \<Rightarrow> bool" where
  step_publish: "broker_step b (snd (broker_publish now rid e source b))"
| step_subscribe: "broker_step b (snd (broker_subscribe t from b))"
| step_unsubscribe: "broker_step b (broker_unsubscribe i b)"
| step_recv: "hub_recv i (br_hub b) = Some (e, h) \<Longrightarrow> broker_step b (b\<lparr>br_hub := h\<rparr>)"
| step_expire: "broker_step b (b\<lparr>br_store := snd (so_expire (br_ops b) cutoff (br_store b))\<rparr>)"
| step_delete: "broker_step b (b\<lparr>br_store := snd (so_delete_topic (br_ops b) t (br_store b))\<rparr>)"

inductive broker_reachable :: "'s broker \<Rightarrow> 's broker \<Rightarrow> bool" for b0 where
  broker_start: "broker_reachable b0 b0"
| broker_next: "broker_reachable b0 b \<Longrightarrow> broker_step b b' \<Longrightarrow> broker_reachable b0 b'"

lemma broker_publish_frame:
  "br_ops (snd (broker_publish now rid e source b)) = br_ops b"
  "br_reducers (snd (broker_publish now rid e source b)) = br_reducers b"
  using broker_ingest_frame[of now rid _ e b]
  by (auto simp: broker_publish_def split: option.splits sum.splits prod.splits) (metis snd_conv)+

lemma broker_publish_ttl:
  "br_default_ttl (snd (broker_publish now rid e source b)) = br_default_ttl b"
  by (auto simp: broker_publish_def broker_ingest_def broker_fanout_def Let_def case_prod_unfold
      split: option.splits sum.splits)

lemma broker_step_frame: "broker_step b b' \<Longrightarrow> br_ops b' = br_ops b \<and> br_reducers b' = br_reducers b"
  by (induction rule: broker_step.induct) (simp_all add: broker_publish_frame broker_subscribe_store)

lemma broker_publish_hub:
  "br_hub (snd (broker_publish now rid e source b)) = br_hub b
   \<or> (\<exists>x. br_hub (snd (broker_publish now rid e source b)) = fst (hub_publish x (br_hub b)))"
  using broker_ingest_frame(1)[of now rid _ e b]
  by (auto simp: broker_publish_def split: option.splits sum.splits prod.splits) (metis snd_conv)+

lemma broker_subscribe_hub:
  "br_hub (snd (broker_subscribe t f b)) \<in>
     {br_hub b, snd (hub_subscribe t (br_hub b)), hub_close (fst (hub_subscribe t (br_hub b))) (snd (hub_subscribe t (br_hub b)))}"
  by (auto simp: broker_subscribe_def Let_def case_prod_unfold split: option.splits sum.splits)

lemma broker_step_hub: "broker_step b b' \<Longrightarrow> hub_inv (br_hub b) \<Longrightarrow> hub_inv (br_hub b')"
proof (induction rule: broker_step.induct)
  case (step_publish b now rid e source)
  then show ?case using broker_publish_hub[of now rid e source b] hub_inv_publish by auto
next
  case (step_subscribe b t f)
  then show ?case using broker_subscribe_hub[of t f b] hub_inv_subscribe hub_inv_close by auto
qed (auto simp: hub_inv_close hub_inv_recv)

lemma broker_reachable_hub: "broker_reachable b0 b \<Longrightarrow> hub_inv (br_hub b0) \<Longrightarrow> hub_inv (br_hub b)"
  by (induction rule: broker_reachable.induct) (auto intro: broker_step_hub)

context local_store
begin

lemma broker_step_folded:
  assumes "broker_step b b'" "br_ops b = ops" "invar (br_store b)" "folded (br_reducers b) (br_store b)"
  shows "invar (br_store b') \<and> folded (br_reducers b) (br_store b')"
  using assms
  by (induction rule: broker_step.induct)
     (auto simp: broker_subscribe_store publish_folded expire_folded delete_folded)

lemma broker_reachable_folded:
  assumes "broker_reachable b0 b" "br_ops b0 = ops" "invar (br_store b0)" "folded (br_reducers b0) (br_store b0)"
  shows "br_ops b = ops \<and> br_reducers b = br_reducers b0 \<and> invar (br_store b) \<and> folded (br_reducers b0) (br_store b)"
  using assms
  by (induction rule: broker_reachable.induct) (metis broker_step_frame broker_step_folded)+

end

section \<open>Properties\<close>

definition memory_broker :: "registry \<Rightarrow> i64 \<Rightarrow> mem_store broker" where
  "memory_broker reg ttl = broker_new mem_ops mem_new hub_new reg ttl"

lemma memory_broker_reachable:
  assumes "broker_reachable (memory_broker reg ttl) b"
  shows "br_ops b = mem_ops \<and> br_reducers b = reg \<and> mem_inv (br_store b) \<and> mem.folded reg (br_store b)"
proof -
  have "mem.folded reg mem_new"
    by (simp add: mem.folded_def mem_new_def mem_log_def mem_state_def)
  then show ?thesis
    using mem.broker_reachable_folded[OF assms] mem_inv_new
    by (simp add: memory_broker_def broker_new_def)
qed

lemma memory_broker_hub: "broker_reachable (memory_broker reg ttl) b \<Longrightarrow> hub_inv (br_hub b)"
  using broker_reachable_hub[of "memory_broker reg ttl" b] hub_inv_new[of default_buffer]
  by (simp add: memory_broker_def broker_new_def hub_new_def)

lemma broker_reachable_publish:
  "broker_reachable b0 b \<Longrightarrow> broker_reachable b0 (snd (broker_publish now rid e source b))"
  by (rule broker_next[OF _ step_publish])

definition incr_event :: event where
  "incr_event = new_event ''int/hits'' ''int_incr'' ''al'' (RJson (JObj [])) 0"

definition demo_broker :: "mem_store broker" where
  "demo_broker = snd (broker_publish 9 ''b'' incr_event ''publish''
     (snd (broker_publish 8 ''a'' incr_event ''publish'' (memory_broker standard_reducers 0))))"

lemma demo_broker_reachable: "broker_reachable (memory_broker standard_reducers 0) demo_broker"
  unfolding demo_broker_def by (intro broker_reachable_publish broker_start)

lemma valid_int_hits: "validate_topic ''int/hits'' = None" "parse_object_type ''int/hits'' = Inr ''int''"
  by (code_simp, simp add: parse_object_type_def)



text \<open>C17: end to end, an integer topic counts: when the events of an \<open>int/...\<close> topic of a memory
  broker are increments and decrements, the state served for it decodes to the sum of their deltas.\<close>

theorem broker_counter:
  assumes "broker_reachable (memory_broker standard_reducers ttl) b"
    and "parse_object_type t = Inr ''int''" "broker_events t 0 0 b = Inr es" "es \<noteq> []"
    and "\<forall>e \<in> set es. (ev_type e = ''int_incr'' \<or> ev_type e = ''int_decr'') \<and> valid_year (ev_at e)"
  shows "\<exists>r s. broker_get_state t b = Inr r \<and> load_raw int_dec r = (s, True)
    \<and> is_value s = (\<Sum>e \<leftarrow> es. int_change e) \<and> is_exists s"
proof -
  have R: "br_ops b = mem_ops" "mem_inv (br_store b)" "mem.folded standard_reducers (br_store b)"
    using memory_broker_reachable[OF assms(1)] by auto
  have es: "es = mem_log (br_store b) t"
    using assms(3) by (simp add: broker_events_def R(1) mem_read_eq[OF R(2)])
  have "list_all (\<lambda>e. ev_topic e = t) es" using mem_inv_log[OF R(2)] es by simp
  then have fold: "state_view (mem_state (br_store b) t) = raw_fold int_apply RNil es"
    using R(3) raw_fold_registry[OF _ assms(2) standard_reducers_lookup(7)] es by (simp add: mem.folded_def)
  define s where "s = typed_fold int_enc int_step (fst (int_dec JNull)) es"
  have s: "load_raw int_dec (raw_fold int_apply RNil es) = (s, True)" using int_red.load_raw_fold by (simp add: s_def)
  have v: "is_value s = (\<Sum>e \<leftarrow> es. int_change e)" "is_exists s"
    using int_fold_counter[OF assms(5), of "fst (int_dec JNull)"] assms(4)
    by (simp_all add: s_def int_dec_def dec_struct_def codec_simps)
  have "mem_state (br_store b) t \<noteq> None"
  proof
    assume "mem_state (br_store b) t = None"
    then have "s = fst (int_dec JNull)" using s fold by (simp add: load_raw_def)
    then show False using v(2) by (simp add: int_dec_def dec_struct_def codec_simps)
  qed
  then obtain r where "mem_state (br_store b) t = Some r" by blast
  then have "broker_get_state t b = Inr r" "r = raw_fold int_apply RNil es"
    using fold by (simp_all add: broker_get_state_def R(1) mem_get_state_eq)
  then show ?thesis using s v by blast
qed

lemma mem_log_publish:
  assumes "mem_inv (br_store b)" "br_ops b = mem_ops" "validate_topic (ev_topic e) = None" "ev_type e \<noteq> []"
  shows "mem_log (br_store (snd (broker_publish now rid e source b))) =
    (mem_log (br_store b))(ev_topic e := mem_log (br_store b) (ev_topic e)
        @ [stamp_event now rid (Suc (length (mem_log (br_store b) (ev_topic e)))) e])"
  using mem.ingest_spec[OF assms(1,2), of now rid "takeWhile (\<lambda>c. c \<noteq> CHR ''/'') (ev_topic e)" e]
    assms(3,4) validate_parse(1)[OF assms(3)]
  by (auto simp: broker_publish_def)

text \<open>An accepted publish on a reachable memory broker, as the proofs of its clients use it.\<close>

lemma broker_publish_ok:
  assumes "broker_reachable (memory_broker reg ttl) b" "validate_topic (ev_topic e) = None" "ev_type e \<noteq> []"
  shows "\<exists>n b'. broker_publish now rid e source b = (Inr n, b') \<and> n = Suc (length (mem_log (br_store b) (ev_topic e)))
    \<and> mem_log (br_store b') = (mem_log (br_store b))(ev_topic e := mem_log (br_store b) (ev_topic e) @ [stamp_event now rid n e])"
proof -
  have R: "br_ops b = mem_ops" "mem_inv (br_store b)" using memory_broker_reachable[OF assms(1)] by auto
  obtain ot where ot: "parse_object_type (ev_topic e) = Inr ot" using validate_parse assms(2) by blast
  from mem.ingest_spec[OF R(2,1), of now rid ot e] show ?thesis
    using assms(2,3) ot by (force simp: broker_publish_def)
qed

lemma demo_broker_log:
  "mem_log (br_store demo_broker) ''int/hits'' = [stamp_event 8 ''a'' 1 incr_event, stamp_event 9 ''b'' 2 incr_event]"
proof -
  let ?b0 = "memory_broker standard_reducers 0"
  let ?b1 = "snd (broker_publish 8 ''a'' incr_event ''publish'' ?b0)"
  have R: "mem_inv (br_store ?b0)" "br_ops ?b0 = mem_ops" "mem_inv (br_store ?b1)" "br_ops ?b1 = mem_ops"
    using memory_broker_reachable[of standard_reducers 0] broker_reachable_publish broker_start by metis+
  have e: "ev_topic incr_event = ''int/hits''" "ev_type incr_event \<noteq> []"
    by (simp_all add: incr_event_def new_event_def)
  have "mem_log (br_store ?b0) t = []" for t
    by (simp add: memory_broker_def broker_new_def mem_log_def mem_new_def)
  then show ?thesis
    using mem_log_publish[OF R(1,2), of incr_event 8 "''a''" "''publish''"]
      mem_log_publish[OF R(3,4), of incr_event 9 "''b''" "''publish''"] e valid_int_hits(1)
    by (simp add: demo_broker_def numeral_2_eq_2)
qed

lemma demo_broker_other: "t \<noteq> ''int/hits'' \<Longrightarrow> mem_log (br_store demo_broker) t = []"
proof -
  assume t: "t \<noteq> ''int/hits''"
  let ?b0 = "memory_broker standard_reducers 0"
  let ?b1 = "snd (broker_publish 8 ''a'' incr_event ''publish'' ?b0)"
  have R: "mem_inv (br_store ?b0)" "br_ops ?b0 = mem_ops" "mem_inv (br_store ?b1)" "br_ops ?b1 = mem_ops"
    using memory_broker_reachable[of standard_reducers 0] broker_reachable_publish broker_start by metis+
  have e: "ev_topic incr_event = ''int/hits''" "ev_type incr_event \<noteq> []"
    by (simp_all add: incr_event_def new_event_def)
  have "mem_log (br_store ?b0) t = []"
    by (simp add: memory_broker_def broker_new_def mem_log_def mem_new_def)
  then show ?thesis
    using mem_log_publish[OF R(1,2), of incr_event 8 "''a''" "''publish''"]
      mem_log_publish[OF R(3,4), of incr_event 9 "''b''" "''publish''"] e valid_int_hits(1) t
    by (simp add: demo_broker_def)
qed

theorem broker_counter_witness:
  "\<exists>r s. broker_get_state ''int/hits'' demo_broker = Inr r \<and> load_raw int_dec r = (s, True) \<and> is_value s = 2"
proof -
  let ?es = "[stamp_event 8 ''a'' 1 incr_event, stamp_event 9 ''b'' 2 incr_event]"
  have ev: "broker_events ''int/hits'' 0 0 demo_broker = Inr ?es"
    using memory_broker_reachable[OF demo_broker_reachable] demo_broker_log
    by (simp add: broker_events_def mem_read_eq)
  have v: "\<forall>e \<in> set ?es. (ev_type e = ''int_incr'' \<or> ev_type e = ''int_decr'') \<and> valid_year (ev_at e)"
    by (simp add: incr_event_def new_event_def stamp_event_def is_zero_time_def valid_year_def year_of_day_def)
  have "(\<Sum>e \<leftarrow> ?es. int_change e) = 2"
    by (simp add: int_change_def int_delta_def incr_event_def new_event_def pget_def number_as_int64_def)
  with broker_counter[OF demo_broker_reachable valid_int_hits(2) ev _ v] show ?thesis by auto
qed





text \<open>C39: when the store cannot read a topic's state, \<open>Publish\<close> goes on as if there were none: the
  state it stores is the reducer's fold of this one event over nothing, whatever was stored before.\<close>

theorem publish_after_failed_read_restarts_state:
  assumes "validate_topic (ev_topic e) = None" "ev_type e \<noteq> []"
    and "so_append (br_ops b) now rid e (br_store b) = (Inr n, e', s1)"
    and "so_get_state (br_ops b) (ev_topic e') s1 = Inl err"
    and "registry_apply (br_reducers b) RNil e' = (next, None)" "next \<noteq> RNil"
  shows "\<exists>meta. br_store (snd (broker_publish now rid e source b)) =
      snd (so_upsert_meta (br_ops b) now meta (snd (so_set_state (br_ops b) now (ev_topic e') next s1)))"
proof -
  obtain ot where "parse_object_type (ev_topic e) = Inr ot" using validate_parse[OF assms(1)] by blast
  then show ?thesis using assms by (auto simp: broker_publish_def broker_ingest_def Let_def)
qed

definition flaky_broker :: "mem_store broker" where
  "flaky_broker = demo_broker\<lparr>br_ops := mem_ops\<lparr>so_get_state := \<lambda>t s. Inl (ErrMsg ''i/o timeout'')\<rparr>\<rparr>"

theorem publish_after_failed_read_restarts_state_witness:
  "\<exists>r s. mem_state (br_store (snd (broker_publish 7 ''c'' incr_event ''publish'' flaky_broker))) ''int/hits'' = Some r
    \<and> load_raw int_dec r = (s, True) \<and> is_value s = 1"
proof -
  let ?e = "stamp_event 7 ''c'' 3 incr_event"
  have t: "ev_topic incr_event = ''int/hits''" "ev_type incr_event \<noteq> []"
    by (simp_all add: incr_event_def new_event_def)
  obtain s1 where s1: "mem_append 7 ''c'' incr_event (br_store demo_broker) = (Inr 3, ?e, s1)"
    using demo_broker_log by (simp add: mem_append_eq Let_def t numeral_3_eq_3)
  define s where "s = int_step ?e (fst (int_dec JNull))"
  have i: "is_value s = 1" "valid_year (is_updated_at s)"
    by (simp_all add: s_def int_step_def stamp_event_def incr_event_def new_event_def int_delta_def pget_def
        number_as_int64_def int_dec_def dec_struct_def codec_simps is_zero_time_def valid_year_def year_of_day_def)
  then obtain j where j: "int_enc s = Some j" by (cases "int_enc s") (simp_all add: int_enc_None)
  then have a: "registry_apply standard_reducers RNil ?e = (RJson j, None)"
    using registry_apply_type[OF _ standard_reducers_lookup(7), of ?e RNil] valid_int_hits(2) t
    by (simp add: int_apply_def apply_lenient_def load_raw_def marshal_result_def s_def)
  have f: "br_ops flaky_broker = mem_ops\<lparr>so_get_state := \<lambda>t s. Inl (ErrMsg ''i/o timeout'')\<rparr>"
    "br_store flaky_broker = br_store demo_broker" "br_reducers flaky_broker = standard_reducers"
    using memory_broker_reachable[OF demo_broker_reachable] by (simp_all add: flaky_broker_def)
  obtain meta where "br_store (snd (broker_publish 7 ''c'' incr_event ''publish'' flaky_broker)) =
      snd (mem_upsert_meta 7 meta (snd (mem_set_state 7 ''int/hits'' (RJson j) s1)))"
    using publish_after_failed_read_restarts_state[of incr_event flaky_broker 7 "''c''" 3 ?e s1
        "ErrMsg ''i/o timeout''" "RJson j" "''publish''"] s1 a f t valid_int_hits(1)
    by (auto simp: mem_ops_def)
  then have "mem_state (br_store (snd (broker_publish 7 ''c'' incr_event ''publish'' flaky_broker))) ''int/hits''
      = Some (RJson j)"
    by (simp add: mem_upsert_meta_eq mem_set_state_eq store_simps)
  then show ?thesis using i(1) int_roundtrip[OF j] by (simp add: load_raw_def)
qed

text \<open>The fan-out counter is increased by the number of the topic's subscribers, those for
  whom the event was dropped included: the drops of one publish are also counted as dropped.\<close>

lemma fanned_out_counts_drops:
  assumes "hub_reachable (br_hub b)" "parse_object_type (ev_topic e) = Inr ot"
  shows "\<exists>drops. drops = card {i. \<exists>s. fmlookup (hub_subs (br_hub b)) i = Some s \<and> \<not> sub_closed s
        \<and> sub_topic s = ev_topic e \<and> hub_buf (br_hub b) \<le> length (sub_chan s)}
    \<and> br_metrics (broker_fanout ot source e next b) =
        br_metrics b @ replicate drops (IncDropped ot)
          @ [IncIngested ot source, AddFannedOut ot (length (registered (br_hub b) (ev_topic e)))]"
proof -
  obtain h d where p: "hub_publish (e\<lparr>ev_state := next\<rparr>) (br_hub b) = (h, d)" by fastforce
  have inv: "hub_inv (br_hub b)" by (rule hub_reachable_hub_inv[OF assms(1)])
  have d: "d = card {i. \<exists>s. fmlookup (hub_subs (br_hub b)) i = Some s \<and> \<not> sub_closed s
        \<and> sub_topic s = ev_topic e \<and> hub_buf (br_hub b) \<le> length (sub_chan s)}"
    using hub_drop_count[OF inv, of "e\<lparr>ev_state := next\<rparr>"] p by simp
  have "registered h (ev_topic e) = registered (br_hub b) (ev_topic e)"
    using hub_publish_simps(4)[of "e\<lparr>ev_state := next\<rparr>" "br_hub b"] p by simp
  moreover have "concat (replicate d [IncDropped ot]) = replicate d (IncDropped ot)" by (induction d) simp_all
  ultimately show ?thesis
    using p d assms(2) by (simp add: broker_fanout_def on_drop_def subscriber_count_def)
qed

end
