(* ===== verification/RedisStore.thy ===== *)
theory RedisStore
  imports EventStore
begin

text \<open>
  The Redis store, \<open>internal/store/redis/store.go\<close>. The Redis client and server are not part of the
  repository: they are the argument \<open>rd\<close> of the operations, a record of the commands the store uses,
  and the locale \<open>redis_server\<close> states of them what the Redis documentation does, in terms of the
  keyspace they work on. A failed command is taken to have had no effect (\<open>INCR\<close> may have).

  JSON is kept decoded as everywhere (\<open>BulkJson\<close>); a number or a name is a text (\<open>BulkText\<close>).

  The main results: \<open>event_roundtrip\<close> (an event survives its JSON), \<open>redis_store_contract\<close> (the store
  keeps the contract the broker relies on), and \<open>redis_meta_after_append\<close>. The store is not a dense
  one: a transaction that fails has used up a number (\<open>append_burns\<close>), and two processes that
  append to one topic can put their events in the stream out of order (\<open>append_race\<close>).
\<close>

section \<open>Events as JSON\<close>

definition enc_raw :: "string \<Rightarrow> raw \<Rightarrow> (string \<times> json) list option" where
  "enc_raw k r = (case r of RNil \<Rightarrow> Some [] | RBad \<Rightarrow> None | RJson j \<Rightarrow> Some [(k, j)])"

definition dec_raw :: "(string \<times> json) list \<Rightarrow> string \<Rightarrow> raw" where
  "dec_raw o1 k = (case jget o1 k of None \<Rightarrow> RNil | Some j \<Rightarrow> RJson j)"

definition dec_u64 :: "json \<Rightarrow> nat decoded" where
  "dec_u64 j =
     (case j of
        JNull \<Rightarrow> (0, True)
      | JNum m k \<Rightarrow> if k = 0 \<and> 0 \<le> m \<and> m < 2 ^ 64 then (nat m, True) else (0, False)
      | _ \<Rightarrow> (0, False))"

definition enc_event :: "event \<Rightarrow> json option" where
  "enc_event e =
     (case (enc_time (ev_at e), enc_raw ''payload'' (ev_payload e), enc_raw ''state'' (ev_state e)) of
        (Some at, Some p, Some st) \<Rightarrow>
          Some (JObj ([(''id'', JStr (ev_id e)), (''topic'', JStr (ev_topic e)), (''type'', JStr (ev_type e)),
                       (''seq'', JNum (int (ev_seq e)) 0), (''occurred_at'', at)]
                      @ opt_string ''actor'' (ev_actor e) @ p @ st))
      | _ \<Rightarrow> None)"

definition dec_event_fields :: "(string \<times> json) list \<Rightarrow> event decoded" where
  "dec_event_fields o1 =
     (let (i, ok1) = dec_string (jfield o1 ''id''); (t, ok2) = dec_string (jfield o1 ''topic'');
          (y, ok3) = dec_string (jfield o1 ''type''); (n, ok4) = dec_u64 (jfield o1 ''seq'');
          (w, ok5) = dec_time (jfield o1 ''occurred_at''); (a, ok6) = dec_string (jfield o1 ''actor'')
      in (\<lparr>ev_id = i, ev_topic = t, ev_type = y, ev_seq = n, ev_at = w, ev_actor = a,
           ev_payload = dec_raw o1 ''payload'', ev_state = dec_raw o1 ''state''\<rparr>,
          ok1 \<and> ok2 \<and> ok3 \<and> ok4 \<and> ok5 \<and> ok6))"

definition dec_event :: "json \<Rightarrow> event decoded" where
  "dec_event j =
     (case j of
        JNull \<Rightarrow> dec_event_fields []
      | JObj o1 \<Rightarrow> dec_event_fields o1
      | _ \<Rightarrow> (fst (dec_event_fields []), False))"

lemma enc_event_total:
  "enc_event e \<noteq> None \<longleftrightarrow> valid_year (ev_at e) \<and> ev_payload e \<noteq> RBad \<and> ev_state e \<noteq> RBad"
  by (cases "ev_payload e"; cases "ev_state e") (auto simp: enc_event_def enc_raw_def enc_time_valid)

lemma dec_enc_event:
  assumes "enc_event e = Some j" "ev_seq e < 2 ^ 64"
  shows "dec_event j = (e, True)"
proof -
  have "dec_u64 (JNum (int (ev_seq e)) 0) = (ev_seq e, True)" using assms by (simp add: dec_u64_def)
  then show ?thesis
    using assms(1) by (cases "ev_payload e"; cases "ev_state e")
       (auto simp: enc_event_def dec_event_def dec_event_fields_def enc_raw_def dec_raw_def jfield_def enc_time_valid
         opt_string_def opt_field_def codec_simps split: if_splits)
qed

section \<open>The Redis client\<close>

text \<open>A string of bytes; the values of a hash and of a stream's entry are such.\<close>

datatype redis_bulk = BulkText string | BulkJson raw

type_synonym redis_fields = "(string, redis_bulk) fmap"

datatype redis_cmd =
    XAdd string "(string \<times> redis_bulk) list"
  | HSet string "(string \<times> redis_bulk) list"
  | HSetNX string string redis_bulk
  | SAdd string string
  | SRem string string
  | Del "string list"
  | SetKey string redis_bulk

text \<open>\<open>rd_exec\<close> is \<open>MULTI\<close>, the commands, \<open>EXEC\<close>; \<open>rd_do\<close> one command that writes.\<close>

record 'r redis =
  rd_incr :: "string \<Rightarrow> 'r \<Rightarrow> (gerr + nat) \<times> 'r"
  rd_exec :: "redis_cmd list \<Rightarrow> 'r \<Rightarrow> gerr option \<times> 'r"
  rd_do :: "redis_cmd \<Rightarrow> 'r \<Rightarrow> gerr option \<times> 'r"
  rd_xrange :: "string \<Rightarrow> 'r \<Rightarrow> gerr + redis_fields list"
  rd_xrevrange :: "string \<Rightarrow> nat \<Rightarrow> 'r \<Rightarrow> gerr + redis_fields list"
  rd_get :: "string \<Rightarrow> 'r \<Rightarrow> gerr + redis_bulk option"
  rd_hgetall :: "string \<Rightarrow> 'r \<Rightarrow> gerr + redis_fields"
  rd_smembers :: "string \<Rightarrow> 'r \<Rightarrow> gerr + string list"

section \<open>The store's operations\<close>

definition stream_key :: "string \<Rightarrow> string" where "stream_key topic = ''ew:stream:'' @ topic"

definition state_key :: "string \<Rightarrow> string" where "state_key topic = ''ew:state:'' @ topic"

definition meta_key :: "string \<Rightarrow> string" where "meta_key topic = ''ew:meta:'' @ topic"

definition seq_key :: "string \<Rightarrow> string" where "seq_key topic = ''ew:seq:'' @ topic"

definition topics_set :: string where "topics_set = ''ew:topics''"

text \<open>\<open>t.UnixNano()\<close> and \<open>time.Unix(0, v)\<close>; a time counts from the year 1.\<close>

definition unix_epoch :: time where
  "unix_epoch = 62135596800 * 1000000000"

definition unix_nano :: "time \<Rightarrow> i64" where
  "unix_nano t = word_of_int (t - unix_epoch)"

definition time_unix :: "i64 \<Rightarrow> time" where
  "time_unix v = unix_epoch + sint v"

definition bulk_i64 :: "i64 \<Rightarrow> redis_bulk" where
  "bulk_i64 v = BulkText (show_int (sint v))"

definition bulk_nat :: "nat \<Rightarrow> redis_bulk" where
  "bulk_nat n = BulkText (show_nat n)"

text \<open>\<open>strconv.ParseUint\<close> and \<open>strconv.ParseInt\<close> in base 10, 64 bits; \<open>None\<close> is an error.\<close>

definition parse_u64 :: "string \<Rightarrow> nat option" where
  "parse_u64 s = (if s \<noteq> [] \<and> list_all is_digit s \<and> digits_val s < 2 ^ 64 then Some (digits_val s) else None)"

definition parse_i64 :: "string \<Rightarrow> i64 option" where
  "parse_i64 s =
     (let (neg, ds) = (case s of
            [] \<Rightarrow> (False, [])
          | c # cs \<Rightarrow> if c = CHR ''-'' then (True, cs) else if c = CHR ''+'' then (False, cs) else (False, s));
          v = (if neg then - int (digits_val ds) else int (digits_val ds))
      in if ds \<noteq> [] \<and> list_all is_digit ds \<and> in_i64 v then Some (word_of_int v) else None)"

text \<open>A field read as a number: a missing one is the empty string, which does not parse.\<close>

definition field_text :: "redis_fields \<Rightarrow> string \<Rightarrow> string" where
  "field_text m k = (case fmlookup m k of Some (BulkText s) \<Rightarrow> s | _ \<Rightarrow> [])"

text \<open>The commands of the transaction in \<open>Append\<close>, from the numbered event and its text.\<close>

definition append_cmds :: "time \<Rightarrow> event \<Rightarrow> json \<Rightarrow> redis_cmd list" where
  "append_cmds now e body =
     (let ot = (case parse_object_type (ev_topic e) of Inr ot \<Rightarrow> ot | Inl _ \<Rightarrow> [])
      in [XAdd (stream_key (ev_topic e)) [(''e'', BulkJson (RJson body)), (''seq'', bulk_nat (ev_seq e))],
          HSet (meta_key (ev_topic e)) [(''object_type'', BulkText ot), (''last_seq'', bulk_nat (ev_seq e)),
            (''last_event_at'', bulk_i64 (unix_nano (ev_at e)))],
          HSetNX (meta_key (ev_topic e)) ''created_at'' (bulk_i64 (unix_nano now)),
          SAdd topics_set (ev_topic e)])"

text \<open>\<open>Append\<close> in its two trips to the server: the number, then the transaction.\<close>

definition redis_append_exec ::
    "'r redis \<Rightarrow> time \<Rightarrow> string \<Rightarrow> event \<Rightarrow> nat \<Rightarrow> 'r \<Rightarrow> (gerr + nat) \<times> event \<times> 'r" where
  "redis_append_exec rd now fresh_id e seq r =
     (let e1 = stamp_event now fresh_id seq e
      in case enc_event e1 of
           None \<Rightarrow> (Inl marshal_error, e1, r)
         | Some body \<Rightarrow>
             (case rd_exec rd (append_cmds now e1 body) r of
                (Some err, r1) \<Rightarrow> (Inl err, e1, r1)
              | (None, r1) \<Rightarrow> (Inr seq, e1, r1)))"

definition redis_append ::
    "'r redis \<Rightarrow> time \<Rightarrow> string \<Rightarrow> event \<Rightarrow> 'r \<Rightarrow> (gerr + nat) \<times> event \<times> 'r" where
  "redis_append rd now fresh_id e r =
     (case rd_incr rd (seq_key (ev_topic e)) r of
        (Inl err, r1) \<Rightarrow> (Inl err, e, r1)
      | (Inr seq, r1) \<Rightarrow> redis_append_exec rd now fresh_id e seq r1)"

definition decode_entry :: "redis_fields \<Rightarrow> event option" where
  "decode_entry en =
     (case fmlookup en ''e'' of
        Some (BulkJson (RJson j)) \<Rightarrow> (case dec_event j of (e, True) \<Rightarrow> Some e | (_, False) \<Rightarrow> None)
      | _ \<Rightarrow> None)"

fun redis_scan :: "nat \<Rightarrow> int \<Rightarrow> event list \<Rightarrow> redis_fields list \<Rightarrow> event list" where
  "redis_scan from limit out [] = out"
| "redis_scan from limit out (en # ens) =
     (case decode_entry en of
        None \<Rightarrow> redis_scan from limit out ens
      | Some e \<Rightarrow>
          if ev_seq e < from then redis_scan from limit out ens
          else (let out1 = out @ [e]
                in if 0 < limit \<and> limit \<le> int (length out1) then out1 else redis_scan from limit out1 ens))"

definition redis_read :: "'r redis \<Rightarrow> string \<Rightarrow> nat \<Rightarrow> int \<Rightarrow> 'r \<Rightarrow> gerr + event list" where
  "redis_read rd topic from limit r =
     (case rd_xrange rd (stream_key topic) r of
        Inl err \<Rightarrow> Inl err
      | Inr entries \<Rightarrow> Inr (redis_scan from limit [] entries))"

definition redis_latest :: "'r redis \<Rightarrow> string \<Rightarrow> int \<Rightarrow> 'r \<Rightarrow> gerr + event list" where
  "redis_latest rd topic n r =
     (if n \<le> 0 then Inr []
      else (case rd_xrevrange rd (stream_key topic) (nat n) r of
              Inl err \<Rightarrow> Inl err
            | Inr entries \<Rightarrow> Inr (List.map_filter decode_entry (rev entries))))"

definition bulk_raw :: "redis_bulk \<Rightarrow> raw" where
  "bulk_raw v = (case v of BulkJson r \<Rightarrow> r | BulkText _ \<Rightarrow> RBad)"

definition redis_get_state :: "'r redis \<Rightarrow> string \<Rightarrow> 'r \<Rightarrow> gerr + raw" where
  "redis_get_state rd topic r =
     (case rd_get rd (state_key topic) r of
        Inl err \<Rightarrow> Inl err
      | Inr None \<Rightarrow> Inl ErrNotFound
      | Inr (Some v) \<Rightarrow> Inr (bulk_raw v))"

definition redis_set_state :: "'r redis \<Rightarrow> time \<Rightarrow> string \<Rightarrow> raw \<Rightarrow> 'r \<Rightarrow> gerr option \<times> 'r" where
  "redis_set_state rd now topic state r = rd_do rd (SetKey (state_key topic) (BulkJson state)) r"

definition redis_get_meta :: "'r redis \<Rightarrow> string \<Rightarrow> 'r \<Rightarrow> gerr + topic_meta" where
  "redis_get_meta rd topic r =
     (case rd_hgetall rd (meta_key topic) r of
        Inl err \<Rightarrow> Inl err
      | Inr m \<Rightarrow>
          if m = fmempty then Inl ErrNotFound
          else Inr \<lparr>tm_topic = topic, tm_object_type = field_text m ''object_type'',
                    tm_ttl = (case parse_i64 (field_text m ''ttl_seconds'') of
                        Some v \<Rightarrow> if 0 < sint v then v * 1000000000 else 0 | None \<Rightarrow> 0),
                    tm_created_at = (case parse_i64 (field_text m ''created_at'') of Some v \<Rightarrow> time_unix v | None \<Rightarrow> 0),
                    tm_last_event_at = (case parse_i64 (field_text m ''last_event_at'') of Some v \<Rightarrow> time_unix v | None \<Rightarrow> 0),
                    tm_last_seq = (case parse_u64 (field_text m ''last_seq'') of Some n \<Rightarrow> n | None \<Rightarrow> 0)\<rparr>)"

definition meta_fields :: "topic_meta \<Rightarrow> (string \<times> redis_bulk) list" where
  "meta_fields meta =
     (if tm_object_type meta \<noteq> [] then [(''object_type'', BulkText (tm_object_type meta))] else [])
     @ (if 0 < sint (tm_ttl meta)
        then [(''ttl_seconds'', bulk_i64 (word_of_int (sint (tm_ttl meta) sdiv 1000000000)))] else [])"

definition redis_upsert_meta :: "'r redis \<Rightarrow> time \<Rightarrow> topic_meta \<Rightarrow> 'r \<Rightarrow> gerr option \<times> 'r" where
  "redis_upsert_meta rd now meta r =
     (if meta_fields meta = [] then (None, r) else rd_do rd (HSet (meta_key (tm_topic meta)) (meta_fields meta)) r)"

definition redis_list_topics :: "'r redis \<Rightarrow> string \<Rightarrow> int \<Rightarrow> 'r \<Rightarrow> gerr + string list" where
  "redis_list_topics rd pre limit r =
     (case rd_smembers rd topics_set r of
        Inl err \<Rightarrow> Inl err
      | Inr members \<Rightarrow> Inr (apply_limit limit (filter (\<lambda>m. pre = [] \<or> prefix pre m) members)))"

definition redis_delete_topic :: "'r redis \<Rightarrow> string \<Rightarrow> 'r \<Rightarrow> gerr option \<times> 'r" where
  "redis_delete_topic rd topic r =
     rd_exec rd [Del [stream_key topic, state_key topic, meta_key topic, seq_key topic], SRem topics_set topic] r"

text \<open>The loop of \<open>Expire\<close>: a topic whose meta or deletion fails is passed over.\<close>

definition redis_expire_topic :: "'r redis \<Rightarrow> time \<Rightarrow> nat \<times> 'r \<Rightarrow> string \<Rightarrow> nat \<times> 'r" where
  "redis_expire_topic rd cutoff = (\<lambda>(n, r) t.
     (case redis_get_meta rd t r of
        Inl _ \<Rightarrow> (n, r)
      | Inr meta \<Rightarrow>
          if \<not> is_zero_time (tm_last_event_at meta) \<and> tm_last_event_at meta < cutoff then
            (case redis_delete_topic rd t r of (None, r1) \<Rightarrow> (n + 1, r1) | (Some _, r1) \<Rightarrow> (n, r1))
          else (n, r)))"

definition redis_expire :: "'r redis \<Rightarrow> time \<Rightarrow> 'r \<Rightarrow> (gerr + nat) \<times> 'r" where
  "redis_expire rd cutoff r =
     (case redis_list_topics rd [] 0 r of
        Inl err \<Rightarrow> (Inl err, r)
      | Inr ts \<Rightarrow> (let (n, r1) = foldl (redis_expire_topic rd cutoff) (0, r) ts in (Inr n, r1)))"

definition redis_ops :: "'r redis \<Rightarrow> 'r store_ops" where
  "redis_ops rd = \<lparr>so_append = redis_append rd, so_read = redis_read rd, so_latest = redis_latest rd,
     so_get_state = redis_get_state rd, so_set_state = redis_set_state rd, so_get_meta = redis_get_meta rd,
     so_upsert_meta = redis_upsert_meta rd, so_list_topics = redis_list_topics rd, so_expire = redis_expire rd,
     so_delete_topic = redis_delete_topic rd\<rparr>"

section \<open>What the commands do\<close>

datatype redis_val =
    RvStream "redis_fields list"
  | RvString redis_bulk
  | RvHash redis_fields
  | RvSet "string fset"

type_synonym keyspace = "(string, redis_val) fmap"

definition ks_stream :: "string \<Rightarrow> keyspace \<Rightarrow> redis_fields list" where
  "ks_stream k ks = (case fmlookup ks k of Some (RvStream es) \<Rightarrow> es | _ \<Rightarrow> [])"

definition ks_string :: "string \<Rightarrow> keyspace \<Rightarrow> redis_bulk option" where
  "ks_string k ks = (case fmlookup ks k of Some (RvString v) \<Rightarrow> Some v | _ \<Rightarrow> None)"

definition ks_hash :: "string \<Rightarrow> keyspace \<Rightarrow> redis_fields" where
  "ks_hash k ks = (case fmlookup ks k of Some (RvHash m) \<Rightarrow> m | _ \<Rightarrow> fmempty)"

definition ks_set :: "string \<Rightarrow> keyspace \<Rightarrow> string fset" where
  "ks_set k ks = (case fmlookup ks k of Some (RvSet xs) \<Rightarrow> xs | _ \<Rightarrow> {||})"

definition ks_counter :: "string \<Rightarrow> keyspace \<Rightarrow> nat" where
  "ks_counter k ks = (case fmlookup ks k of Some (RvString (BulkText s)) \<Rightarrow> digits_val s | _ \<Rightarrow> 0)"

definition set_fields :: "(string \<times> redis_bulk) list \<Rightarrow> redis_fields \<Rightarrow> redis_fields" where
  "set_fields kvs m = foldl (\<lambda>m (k, v). fmupd k v m) m kvs"

fun cmd_effect :: "redis_cmd \<Rightarrow> keyspace \<Rightarrow> keyspace" where
  "cmd_effect (XAdd k kvs) ks = fmupd k (RvStream (ks_stream k ks @ [set_fields kvs fmempty])) ks"
| "cmd_effect (HSet k kvs) ks = fmupd k (RvHash (set_fields kvs (ks_hash k ks))) ks"
| "cmd_effect (HSetNX k f v) ks =
     (if fmlookup (ks_hash k ks) f = None then fmupd k (RvHash (fmupd f v (ks_hash k ks))) ks else ks)"
| "cmd_effect (SAdd k x) ks = fmupd k (RvSet (finsert x (ks_set k ks))) ks"
| "cmd_effect (SRem k x) ks =
     (let xs = ks_set k ks |-| {|x|}
      in if fmlookup ks k = None then ks else if xs = {||} then fmdrop k ks else fmupd k (RvSet xs) ks)"
| "cmd_effect (Del keys) ks = fmdrop_set (set keys) ks"
| "cmd_effect (SetKey k v) ks = fmupd k (RvString v) ks"

definition cmd_effects :: "redis_cmd list \<Rightarrow> keyspace \<Rightarrow> keyspace" where
  "cmd_effects cmds ks = foldl (\<lambda>ks c. cmd_effect c ks) ks cmds"

definition incr_effect :: "string \<Rightarrow> keyspace \<Rightarrow> keyspace" where
  "incr_effect k ks = fmupd k (RvString (bulk_nat (Suc (ks_counter k ks)))) ks"

text \<open>
  The documented behaviour, in terms of the keyspace \<open>keys r\<close> of a server \<open>r\<close>: what a command that
  succeeds has done or found, and that one that fails has done nothing.
\<close>

locale redis_server =
  fixes rd :: "'r redis" and keys :: "'r \<Rightarrow> keyspace"
  assumes incr_ok: "rd_incr rd k r = (Inr n, r') \<Longrightarrow>
      n = Suc (ks_counter k (keys r)) \<and> n < 2 ^ 63 \<and> keys r' = incr_effect k (keys r)"
    and incr_err: "rd_incr rd k r = (Inl err, r') \<Longrightarrow> keys r' = keys r \<or> keys r' = incr_effect k (keys r)"
    and exec_ok: "rd_exec rd cmds r = (None, r') \<Longrightarrow> keys r' = cmd_effects cmds (keys r)"
    and exec_err: "rd_exec rd cmds r = (Some err, r') \<Longrightarrow> keys r' = keys r"
    and do_ok: "rd_do rd cmd r = (None, r') \<Longrightarrow> keys r' = cmd_effect cmd (keys r)"
    and do_err: "rd_do rd cmd r = (Some err, r') \<Longrightarrow> keys r' = keys r"
    and xrange_ok: "rd_xrange rd k r = Inr es \<Longrightarrow> es = ks_stream k (keys r)"
    and xrevrange_ok: "rd_xrevrange rd k n r = Inr es \<Longrightarrow> es = take n (rev (ks_stream k (keys r)))"
    and get_ok: "rd_get rd k r = Inr v \<Longrightarrow> v = ks_string k (keys r)"
    and get_err: "rd_get rd k r = Inl err \<Longrightarrow> err \<noteq> ErrNotFound"
    and hgetall_ok: "rd_hgetall rd k r = Inr m \<Longrightarrow> m = ks_hash k (keys r)"
    and smembers_ok: "rd_smembers rd k r = Inr xs \<Longrightarrow> distinct xs \<and> set xs = fset (ks_set k (keys r))"

section \<open>A topic's keys\<close>

named_theorems redis_keys

lemma key_inj [redis_keys]:
  "stream_key t = stream_key u \<longleftrightarrow> t = u" "state_key t = state_key u \<longleftrightarrow> t = u"
  "meta_key t = meta_key u \<longleftrightarrow> t = u" "seq_key t = seq_key u \<longleftrightarrow> t = u"
  by (simp_all add: stream_key_def state_key_def meta_key_def seq_key_def)

lemma key_distinct [redis_keys]:
  "stream_key t \<noteq> state_key u" "stream_key t \<noteq> meta_key u" "stream_key t \<noteq> seq_key u" "stream_key t \<noteq> topics_set"
  "state_key t \<noteq> stream_key u" "state_key t \<noteq> meta_key u" "state_key t \<noteq> seq_key u" "state_key t \<noteq> topics_set"
  "meta_key t \<noteq> stream_key u" "meta_key t \<noteq> state_key u" "meta_key t \<noteq> seq_key u" "meta_key t \<noteq> topics_set"
  "seq_key t \<noteq> stream_key u" "seq_key t \<noteq> state_key u" "seq_key t \<noteq> meta_key u" "seq_key t \<noteq> topics_set"
  "topics_set \<noteq> stream_key u" "topics_set \<noteq> state_key u" "topics_set \<noteq> meta_key u" "topics_set \<noteq> seq_key u"
  by (simp_all add: stream_key_def state_key_def meta_key_def seq_key_def topics_set_def)

text \<open>What a topic has in the keyspace.\<close>

definition ks_log :: "keyspace \<Rightarrow> string \<Rightarrow> event list" where
  "ks_log ks t = List.map_filter decode_entry (ks_stream (stream_key t) ks)"

definition ks_state :: "keyspace \<Rightarrow> string \<Rightarrow> raw option" where
  "ks_state ks t = map_option bulk_raw (ks_string (state_key t) ks)"

definition ks_topics :: "keyspace \<Rightarrow> string set" where
  "ks_topics ks = fset (ks_set topics_set ks)"

definition ks_inv :: "keyspace \<Rightarrow> bool" where
  "ks_inv ks \<longleftrightarrow>
     (\<forall>t. log_ok t (ks_log ks t)
        \<and> (\<forall>en \<in> set (ks_stream (stream_key t) ks). decode_entry en \<noteq> None)
        \<and> (\<forall>e \<in> set (ks_log ks t). ev_seq e \<le> ks_counter (seq_key t) ks)
        \<and> (t \<notin> ks_topics ks \<longrightarrow> ks_stream (stream_key t) ks = []))"

lemma set_fields_simps [simp]: "set_fields [] m = m" "set_fields ((k, v) # kvs) m = set_fields kvs (fmupd k v m)"
  by (simp_all add: set_fields_def)

lemma cmd_effects_simps [simp]: "cmd_effects [] ks = ks" "cmd_effects (c # cs) ks = cmd_effects cs (cmd_effect c ks)"
  by (simp_all add: cmd_effects_def)

lemma ks_upd [redis_keys]:
  "ks_stream k (fmupd k' v ks) = (if k = k' then (case v of RvStream es \<Rightarrow> es | _ \<Rightarrow> []) else ks_stream k ks)"
  "ks_string k (fmupd k' v ks) = (if k = k' then (case v of RvString x \<Rightarrow> Some x | _ \<Rightarrow> None) else ks_string k ks)"
  "ks_hash k (fmupd k' v ks) = (if k = k' then (case v of RvHash m \<Rightarrow> m | _ \<Rightarrow> fmempty) else ks_hash k ks)"
  "ks_set k (fmupd k' v ks) = (if k = k' then (case v of RvSet xs \<Rightarrow> xs | _ \<Rightarrow> {||}) else ks_set k ks)"
  "ks_counter k (fmupd k' v ks) =
     (if k = k' then (case v of RvString (BulkText s) \<Rightarrow> digits_val s | _ \<Rightarrow> 0) else ks_counter k ks)"
  by (auto simp: ks_stream_def ks_string_def ks_hash_def ks_set_def ks_counter_def)

lemma ks_drop [redis_keys]:
  "ks_stream k (fmdrop k' ks) = (if k = k' then [] else ks_stream k ks)"
  "ks_string k (fmdrop k' ks) = (if k = k' then None else ks_string k ks)"
  "ks_set k (fmdrop k' ks) = (if k = k' then {||} else ks_set k ks)"
  "ks_counter k (fmdrop k' ks) = (if k = k' then 0 else ks_counter k ks)"
  by (auto simp: ks_stream_def ks_string_def ks_set_def ks_counter_def)

lemma ks_srem [redis_keys]:
  "ks_set k (cmd_effect (SRem k x) ks) = ks_set k ks |-| {|x|}"
  "k' \<noteq> k \<Longrightarrow> ks_stream k' (cmd_effect (SRem k x) ks) = ks_stream k' ks"
  "k' \<noteq> k \<Longrightarrow> ks_string k' (cmd_effect (SRem k x) ks) = ks_string k' ks"
  "k' \<noteq> k \<Longrightarrow> ks_counter k' (cmd_effect (SRem k x) ks) = ks_counter k' ks"
  by (auto simp: ks_set_def ks_stream_def ks_string_def ks_counter_def Let_def)

text \<open>The keyspace after each of the store's writes, as far as a topic's log, state and number go.\<close>

lemma append_effect:
  "ks_log (cmd_effects (append_cmds now e body) ks) = (ks_log ks)(ev_topic e := ks_log ks (ev_topic e) @
     (case dec_event body of (e', True) \<Rightarrow> [e'] | (_, False) \<Rightarrow> []))"
  "ks_state (cmd_effects (append_cmds now e body) ks) = ks_state ks"
  "ks_topics (cmd_effects (append_cmds now e body) ks) = insert (ev_topic e) (ks_topics ks)"
  "ks_counter (seq_key t) (cmd_effects (append_cmds now e body) ks) = ks_counter (seq_key t) ks"
  by (auto simp: append_cmds_def Let_def ks_log_def ks_state_def ks_topics_def redis_keys fun_eq_iff
      decode_entry_def map_filter_simps List.map_filter_def split: prod.split bool.split)

lemma append_stream:
  "ks_stream (stream_key t) (cmd_effects (append_cmds now e body) ks) = ks_stream (stream_key t) ks @
     (if t = ev_topic e then [set_fields [(''e'', BulkJson (RJson body)), (''seq'', bulk_nat (ev_seq e))] fmempty] else [])"
  by (auto simp: append_cmds_def Let_def redis_keys)

lemma incr_effect_view:
  "ks_log (incr_effect (seq_key u) ks) = ks_log ks" "ks_state (incr_effect (seq_key u) ks) = ks_state ks"
  "ks_topics (incr_effect (seq_key u) ks) = ks_topics ks"
  "ks_stream (stream_key t) (incr_effect (seq_key u) ks) = ks_stream (stream_key t) ks"
  "ks_counter (seq_key t) (incr_effect (seq_key u) ks) =
     (if t = u then Suc (ks_counter (seq_key u) ks) else ks_counter (seq_key t) ks)"
  by (auto simp: incr_effect_def ks_log_def ks_state_def ks_topics_def redis_keys fun_eq_iff bulk_nat_def)

lemma set_state_effect:
  "ks_log (cmd_effect (SetKey (state_key u) v) ks) = ks_log ks"
  "ks_state (cmd_effect (SetKey (state_key u) v) ks) = (ks_state ks)(u \<mapsto> bulk_raw v)"
  "ks_topics (cmd_effect (SetKey (state_key u) v) ks) = ks_topics ks"
  "ks_stream (stream_key t) (cmd_effect (SetKey (state_key u) v) ks) = ks_stream (stream_key t) ks"
  "ks_counter (seq_key t) (cmd_effect (SetKey (state_key u) v) ks) = ks_counter (seq_key t) ks"
  by (auto simp: ks_log_def ks_state_def ks_topics_def redis_keys fun_eq_iff)

lemma set_meta_effect:
  "ks_log (cmd_effect (HSet (meta_key u) kvs) ks) = ks_log ks"
  "ks_state (cmd_effect (HSet (meta_key u) kvs) ks) = ks_state ks"
  "ks_topics (cmd_effect (HSet (meta_key u) kvs) ks) = ks_topics ks"
  "ks_stream (stream_key t) (cmd_effect (HSet (meta_key u) kvs) ks) = ks_stream (stream_key t) ks"
  "ks_counter (seq_key t) (cmd_effect (HSet (meta_key u) kvs) ks) = ks_counter (seq_key t) ks"
  by (auto simp: ks_log_def ks_state_def ks_topics_def redis_keys fun_eq_iff)

definition delete_cmds :: "string \<Rightarrow> redis_cmd list" where
  "delete_cmds topic = [Del [stream_key topic, state_key topic, meta_key topic, seq_key topic], SRem topics_set topic]"

lemma delete_effect:
  "ks_log (cmd_effects (delete_cmds u) ks) = (ks_log ks)(u := [])"
  "ks_state (cmd_effects (delete_cmds u) ks) = (ks_state ks)(u := None)"
  "ks_topics (cmd_effects (delete_cmds u) ks) = ks_topics ks - {u}"
  "ks_stream (stream_key t) (cmd_effects (delete_cmds u) ks) = (if t = u then [] else ks_stream (stream_key t) ks)"
  "ks_counter (seq_key t) (cmd_effects (delete_cmds u) ks) = (if t = u then 0 else ks_counter (seq_key t) ks)"
  by (auto simp: delete_cmds_def ks_log_def ks_state_def ks_topics_def redis_keys fun_eq_iff List.map_filter_def
      simp del: cmd_effect.simps(5))

section \<open>The invariant\<close>

lemma ks_inv_same:
  assumes "ks_inv ks" "ks_log ks' = ks_log ks" "\<And>t. ks_stream (stream_key t) ks' = ks_stream (stream_key t) ks"
    and "\<And>t. ks_counter (seq_key t) ks \<le> ks_counter (seq_key t) ks'" "ks_topics ks \<subseteq> ks_topics ks'"
  shows "ks_inv ks'"
  using assms unfolding ks_inv_def by (metis le_trans subsetD)

lemma ks_inv_incr: "ks_inv ks \<Longrightarrow> ks_inv (incr_effect (seq_key t) ks)"
  by (rule ks_inv_same[of ks]) (auto simp: incr_effect_view)

lemma ks_inv_set_state: "ks_inv ks \<Longrightarrow> ks_inv (cmd_effect (SetKey (state_key t) v) ks)"
  by (rule ks_inv_same[of ks]) (simp_all only: set_state_effect order_refl)

lemma ks_inv_set_meta: "ks_inv ks \<Longrightarrow> ks_inv (cmd_effect (HSet (meta_key t) kvs) ks)"
  by (rule ks_inv_same[of ks]) (simp_all only: set_meta_effect order_refl)

lemma ks_inv_delete: "ks_inv ks \<Longrightarrow> ks_inv (cmd_effects (delete_cmds t) ks)"
  by (auto simp: ks_inv_def delete_effect)

text \<open>The transaction of an append whose number is the counter's last.\<close>

lemma ks_inv_append:
  assumes "ks_inv ks" "dec_event body = (e, True)" "ev_seq e = ks_counter (seq_key (ev_topic e)) ks"
    and "\<forall>x \<in> set (ks_log ks (ev_topic e)). ev_seq x < ev_seq e" "1 \<le> ev_seq e"
  shows "ks_inv (cmd_effects (append_cmds now e body) ks)"
proof -
  let ?ks = "cmd_effects (append_cmds now e body) ks"
  have log: "ks_log ?ks = (ks_log ks)(ev_topic e := ks_log ks (ev_topic e) @ [e])"
    by (simp add: append_effect assms(2))
  have "log_ok t (ks_log ?ks t)" for t
    using assms unfolding log ks_inv_def by (auto simp: log_ok_def sorted_wrt_append)
  moreover have "\<forall>en \<in> set (ks_stream (stream_key t) ?ks). decode_entry en \<noteq> None" for t
    using assms(1,2) by (auto simp: append_stream ks_inv_def decode_entry_def)
  moreover have "\<forall>x \<in> set (ks_log ?ks t). ev_seq x \<le> ks_counter (seq_key t) ?ks" for t
    using assms(1,3) by (auto simp: log append_effect(4) ks_inv_def)
  moreover have "t \<notin> ks_topics ?ks \<longrightarrow> ks_stream (stream_key t) ?ks = []" for t
    using assms(1) by (auto simp: append_stream append_effect ks_inv_def)
  ultimately show ?thesis unfolding ks_inv_def by blast
qed

section \<open>Loops\<close>

lemma redis_scan_eq:
  assumes "limit \<le> 0 \<or> int (length out) < limit" "\<forall>en \<in> set ens. decode_entry en \<noteq> None"
  shows "redis_scan from limit out ens =
    apply_limit limit (out @ filter (\<lambda>e. from \<le> ev_seq e) (List.map_filter decode_entry ens))"
  using assms
proof (induction ens arbitrary: out)
  case Nil
  then show ?case by (auto simp: apply_limit_def List.map_filter_def)
next
  case (Cons en ens)
  then obtain e where e: "decode_entry en = Some e" by auto
  show ?case
  proof (cases "ev_seq e < from \<or> \<not> (0 < limit \<and> limit \<le> int (length (out @ [e])))")
    case True
    then show ?thesis
      using Cons.IH[of out] Cons.IH[of "out @ [e]"] Cons.prems e
      by (auto simp: List.map_filter_def Let_def)
  next
    case False
    then have l: "nat limit = Suc (length out)" "0 < limit" using Cons.prems(1) by auto
    have "apply_limit limit ((out @ [e]) @ rest) = out @ [e]" for rest
      using l by (cases rest) (auto simp: apply_limit_def)
    then show ?thesis using False e l by (simp add: map_filter_simps)
  qed
qed

lemma map_filter_decode:
  assumes "\<forall>en \<in> set ens. decode_entry en \<noteq> None"
  shows "List.map_filter decode_entry (rev (take n (rev ens))) = cap_tail n (List.map_filter decode_entry ens)"
proof -
  have "filter (\<lambda>x. \<exists>y. decode_entry x = Some y) ens = ens" using assms by (auto simp: filter_id_conv)
  moreover have "filter (\<lambda>x. \<exists>y. decode_entry x = Some y) (rev (take n (rev ens))) = rev (take n (rev ens))"
    using assms set_take_subset[of n "rev ens"] by (auto simp: filter_id_conv)
  ultimately show ?thesis
    by (simp add: List.map_filter_def cap_tail_def rev_take drop_map)
qed

lemma redis_ops_simps [simp]:
  "so_append (redis_ops rd) = redis_append rd" "so_read (redis_ops rd) = redis_read rd"
  "so_latest (redis_ops rd) = redis_latest rd" "so_get_state (redis_ops rd) = redis_get_state rd"
  "so_set_state (redis_ops rd) = redis_set_state rd" "so_get_meta (redis_ops rd) = redis_get_meta rd"
  "so_upsert_meta (redis_ops rd) = redis_upsert_meta rd" "so_list_topics (redis_ops rd) = redis_list_topics rd"
  "so_expire (redis_ops rd) = redis_expire rd" "so_delete_topic (redis_ops rd) = redis_delete_topic rd"
  by (simp_all add: redis_ops_def)

section \<open>The store contract\<close>

context redis_server
begin

lemma append_exec_cases:
  assumes "redis_append_exec rd now rid e n r = (res, e', r')" "n < 2 ^ 63"
  shows "(\<exists>err. res = Inl err \<and> keys r' = keys r)
    \<or> (\<exists>body. res = Inr n \<and> e' = stamp_event now rid n e \<and> dec_event body = (e', True)
         \<and> keys r' = cmd_effects (append_cmds now e' body) (keys r))"
  using assms exec_err exec_ok dec_enc_event[of "stamp_event now rid n e"]
  by (fastforce simp: redis_append_exec_def Let_def split: option.splits prod.splits)

lemma append_cases:
  assumes "ks_inv (keys r)" "redis_append rd now rid e r = (res, e', r')"
  shows "ks_inv (keys r') \<and> ks_state (keys r') = ks_state (keys r)
    \<and> (case res of
         Inl _ \<Rightarrow> ks_log (keys r') = ks_log (keys r)
       | Inr n \<Rightarrow> e' = stamp_event now rid n e
           \<and> ks_log (keys r') = (ks_log (keys r))(ev_topic e := ks_log (keys r) (ev_topic e) @ [e'])
           \<and> ks_topics (keys r') = insert (ev_topic e) (ks_topics (keys r)))"
proof (cases "rd_incr rd (seq_key (ev_topic e)) r")
  case (Pair c r1)
  show ?thesis
  proof (cases c)
    case (Inl err)
    then show ?thesis
      using assms Pair incr_err[of "seq_key (ev_topic e)" r err r1] ks_inv_incr[OF assms(1), of "ev_topic e"]
      by (auto simp: redis_append_def incr_effect_view)
  next
    case (Inr n)
    let ?t = "ev_topic e"
    have n: "n = Suc (ks_counter (seq_key ?t) (keys r))" "n < 2 ^ 63" "keys r1 = incr_effect (seq_key ?t) (keys r)"
      using incr_ok Pair Inr by blast+
    have inv1: "ks_inv (keys r1)" and cnt: "ks_counter (seq_key ?t) (keys r1) = n"
      using ks_inv_incr[OF assms(1)] n by (simp_all add: incr_effect_view)
    have less: "\<forall>x \<in> set (ks_log (keys r1) ?t). ev_seq x < n"
      using assms(1) n by (auto simp: incr_effect_view ks_inv_def less_Suc_eq_le)
    have "redis_append_exec rd now rid e n r1 = (res, e', r')" using assms(2) Pair Inr by (simp add: redis_append_def)
    from append_exec_cases[OF this n(2)] show ?thesis
      using inv1 cnt less n ks_inv_append[OF inv1, of _ "stamp_event now rid n e" now]
      by (auto simp: append_effect incr_effect_view)
  qed
qed

lemma delete_cases:
  assumes "ks_inv (keys r)" "redis_delete_topic rd t r = (err, r')"
  shows "ks_inv (keys r') \<and> (case err of
      Some _ \<Rightarrow> keys r' = keys r
    | None \<Rightarrow> keys r' = cmd_effects (delete_cmds t) (keys r))"
  using assms ks_inv_delete[OF assms(1), of t] exec_ok[of "delete_cmds t"] exec_err[of "delete_cmds t"]
  by (auto simp: redis_delete_topic_def delete_cmds_def split: option.splits)

lemma redis_expire_loop:
  assumes "ks_inv (keys r)" "foldl (redis_expire_topic rd cutoff) (n, r) ts = (n', r')"
  shows "ks_inv (keys r') \<and> (\<forall>t. (ks_log (keys r') t = ks_log (keys r) t \<and> ks_state (keys r') t = ks_state (keys r) t)
      \<or> (ks_log (keys r') t = [] \<and> ks_state (keys r') t = None))"
  using assms
proof (induction ts arbitrary: n r)
  case (Cons u ts)
  obtain n1 r1 where 1: "redis_expire_topic rd cutoff (n, r) u = (n1, r1)" by fastforce
  then have "keys r1 = keys r \<or> keys r1 = cmd_effects (delete_cmds u) (keys r)"
    using delete_cases[OF Cons.prems(1), of u]
    by (auto simp: redis_expire_topic_def split: sum.splits if_splits prod.splits option.splits)
  then have "ks_inv (keys r1) \<and> (\<forall>t. (ks_log (keys r1) t = ks_log (keys r) t \<and> ks_state (keys r1) t = ks_state (keys r) t)
      \<or> (ks_log (keys r1) t = [] \<and> ks_state (keys r1) t = None))"
    using Cons.prems(1) ks_inv_delete[OF Cons.prems(1)] by (auto simp: delete_effect split: if_splits)
  with Cons.IH[of r1 n1] Cons.prems(2) 1 show ?case by simp metis
qed simp

sublocale store: event_store "redis_ops rd" "\<lambda>r. ks_inv (keys r)" "\<lambda>r. ks_log (keys r)" "\<lambda>r. ks_state (keys r)"
  "\<lambda>r. ks_topics (keys r)"
proof unfold_locales
  fix s t assume "ks_inv (keys s)"
  then show "log_ok t (ks_log (keys s) t)" by (simp add: ks_inv_def)
next
  fix s t assume "ks_inv (keys s)" "t \<notin> ks_topics (keys s)"
  then show "ks_log (keys s) t = []" by (simp add: ks_inv_def ks_log_def List.map_filter_def)
next
  fix s now rid e n e' s' assume "ks_inv (keys s)" "so_append (redis_ops rd) now rid e s = (Inr n, e', s')"
  then show "ks_inv (keys s') \<and> e' = stamp_event now rid n e
      \<and> ks_log (keys s') = (ks_log (keys s))(ev_topic e := ks_log (keys s) (ev_topic e) @ [e'])
      \<and> ks_state (keys s') = ks_state (keys s) \<and> ks_topics (keys s') = insert (ev_topic e) (ks_topics (keys s))"
    using append_cases[of s now rid e "Inr n" e' s'] by simp
next
  fix s now rid e err e' s' assume "ks_inv (keys s)" "so_append (redis_ops rd) now rid e s = (Inl err, e', s')"
  then show "ks_inv (keys s') \<and> ks_log (keys s') = ks_log (keys s) \<and> ks_state (keys s') = ks_state (keys s)"
    using append_cases[of s now rid e "Inl err" e' s'] by simp
next
  fix s t "from" limit es assume i: "ks_inv (keys s)" and "so_read (redis_ops rd) t from limit s = Inr es"
  then have "es = redis_scan from limit [] (ks_stream (stream_key t) (keys s))"
    using xrange_ok[of "stream_key t" s] by (auto simp: redis_read_def split: sum.splits)
  moreover have "limit \<le> 0 \<or> int (length ([] :: event list)) < limit" by auto
  ultimately show "es = apply_limit limit (filter (\<lambda>e. from \<le> ev_seq e) (ks_log (keys s) t))"
    using redis_scan_eq[of limit "[]" "ks_stream (stream_key t) (keys s)" "from"] i by (simp add: ks_inv_def ks_log_def)
next
  fix s m t es assume "ks_inv (keys s)" "(0 :: int) < m" "so_latest (redis_ops rd) t m s = Inr es"
  then show "es = cap_tail (nat m) (ks_log (keys s) t)"
    using xrevrange_ok[of "stream_key t" "nat m" s] map_filter_decode[of "ks_stream (stream_key t) (keys s)" "nat m"]
    by (auto simp: redis_latest_def ks_inv_def ks_log_def split: sum.splits)
next
  fix s t m es assume "ks_inv (keys s)" "so_latest (redis_ops rd) t m s = Inr es"
  then show "suffix es (ks_log (keys s) t)"
    using xrevrange_ok[of "stream_key t" "nat m" s] map_filter_decode[of "ks_stream (stream_key t) (keys s)" "nat m"]
      cap_tail_suffix[of "ks_log (keys s) t" "nat m"]
    by (auto simp: redis_latest_def ks_inv_def ks_log_def suffix_def split: sum.splits if_splits)
next
  fix s t r assume "so_get_state (redis_ops rd) t s = Inr r"
  then show "ks_state (keys s) t = Some r"
    using get_ok[of "state_key t" s] by (auto simp: redis_get_state_def ks_state_def split: sum.splits option.splits)
next
  fix s t assume "so_get_state (redis_ops rd) t s = Inl ErrNotFound"
  then show "ks_state (keys s) t = None"
    using get_ok[of "state_key t" s] get_err[of "state_key t" s] by (auto simp: redis_get_state_def ks_state_def split: sum.splits option.splits)
next
  fix s now t r s' assume "ks_inv (keys s)" "so_set_state (redis_ops rd) now t r s = (None, s')"
  then show "ks_inv (keys s') \<and> ks_log (keys s') = ks_log (keys s) \<and> ks_state (keys s') = (ks_state (keys s))(t \<mapsto> r)
      \<and> ks_topics (keys s) \<subseteq> ks_topics (keys s')"
    using do_ok[of _ s s'] ks_inv_set_state[of "keys s" t "BulkJson r"]
    by (simp add: redis_set_state_def set_state_effect bulk_raw_def del: cmd_effect.simps)
next
  fix s now t r err s' assume "ks_inv (keys s)" "so_set_state (redis_ops rd) now t r s = (Some err, s')"
  then show "ks_inv (keys s') \<and> ks_log (keys s') = ks_log (keys s) \<and> ks_state (keys s') = ks_state (keys s)
      \<and> ks_topics (keys s) \<subseteq> ks_topics (keys s')"
    using do_err[of _ s err s'] by (simp add: redis_set_state_def)
next
  fix s now meta err s' assume "ks_inv (keys s)" "so_upsert_meta (redis_ops rd) now meta s = (err, s')"
  then have u: "redis_upsert_meta rd now meta s = (err, s')" by simp
  have "keys s' = keys s \<or> (\<exists>kvs. keys s' = cmd_effect (HSet (meta_key (tm_topic meta)) kvs) (keys s))"
  proof (cases "meta_fields meta = []")
    case False
    then have d: "rd_do rd (HSet (meta_key (tm_topic meta)) (meta_fields meta)) s = (err, s')"
      using u by (simp only: redis_upsert_meta_def if_False)
    then show ?thesis
    proof (cases err)
      case None
      then show ?thesis using do_ok d by blast
    next
      case (Some e)
      then show ?thesis using do_err d by blast
    qed
  qed (use u in \<open>simp add: redis_upsert_meta_def\<close>)
  then show "ks_inv (keys s') \<and> ks_log (keys s') = ks_log (keys s) \<and> ks_state (keys s') = ks_state (keys s)
      \<and> ks_topics (keys s) \<subseteq> ks_topics (keys s')"
    by (elim disjE exE) (simp_all only: set_meta_effect ks_inv_set_meta[OF \<open>ks_inv (keys s)\<close>] \<open>ks_inv (keys s)\<close> order_refl simp_thms)
next
  fix s p ts assume "so_list_topics (redis_ops rd) p 0 s = Inr ts"
  then obtain xs where "rd_smembers rd topics_set s = Inr xs" "ts = filter (\<lambda>m. p = [] \<or> prefix p m) xs"
    by (cases "rd_smembers rd topics_set s") (simp_all add: redis_list_topics_def)
  then show "distinct ts \<and> set ts = {t \<in> ks_topics (keys s). prefix p t}"
    using smembers_ok[of topics_set s xs] by (auto simp: ks_topics_def)
next
  fix s t s' assume "ks_inv (keys s)" "so_delete_topic (redis_ops rd) t s = (None, s')"
  then show "ks_inv (keys s') \<and> ks_log (keys s') = (ks_log (keys s))(t := [])
      \<and> ks_state (keys s') = (ks_state (keys s))(t := None) \<and> ks_topics (keys s') = ks_topics (keys s) - {t}"
    using delete_cases[of s t None s'] by (simp add: delete_effect ks_inv_delete)
next
  fix s cutoff cnt s' t assume "ks_inv (keys s)" "so_expire (redis_ops rd) cutoff s = (cnt, s')"
  then show "ks_inv (keys s') \<and> ((ks_log (keys s') t = ks_log (keys s) t \<and> ks_state (keys s') t = ks_state (keys s) t)
      \<or> (ks_log (keys s') t = [] \<and> ks_state (keys s') t = None))"
    using redis_expire_loop[of s cutoff 0] by (auto simp: redis_expire_def split: sum.splits prod.splits)
next
  fix s t err s' assume "ks_inv (keys s)" "so_delete_topic (redis_ops rd) t s = (Some err, s')"
  then show "ks_inv (keys s') \<and> ks_log (keys s') = ks_log (keys s) \<and> ks_state (keys s') = ks_state (keys s)
      \<and> ks_topics (keys s') = ks_topics (keys s)"
    using delete_cases[of s t "Some err" s'] by simp
qed

lemma contract:
  "event_store (redis_ops rd) (\<lambda>r. ks_inv (keys r)) (\<lambda>r. ks_log (keys r)) (\<lambda>r. ks_state (keys r)) (\<lambda>r. ks_topics (keys r))"
  by (rule store.event_store_axioms)

text \<open>Two processes appending to one topic: each takes its number, and the later one is stored first.\<close>

lemma append_race:
  assumes "rd_incr rd (seq_key t) r = (Inr n1, r1)" "rd_incr rd (seq_key t) r1 = (Inr n2, r2)"
    and "redis_append_exec rd now2 rid2 e2 n2 r2 = (Inr m2, x2, r3)"
    and "redis_append_exec rd now1 rid1 e1 n1 r3 = (Inr m1, x1, r4)"
    and "ev_topic e1 = t" "ev_topic e2 = t"
  shows "n1 < n2 \<and> ks_log (keys r4) t = ks_log (keys r) t @ [stamp_event now2 rid2 n2 e2, stamp_event now1 rid1 n1 e1]"
proof -
  have 1: "n1 = Suc (ks_counter (seq_key t) (keys r))" "n1 < 2 ^ 63" "keys r1 = incr_effect (seq_key t) (keys r)"
    using incr_ok[OF assms(1)] by auto
  have 2: "n2 = Suc (ks_counter (seq_key t) (keys r1))" "n2 < 2 ^ 63" "keys r2 = incr_effect (seq_key t) (keys r1)"
    using incr_ok[OF assms(2)] by auto
  have "ks_log (keys r3) t = ks_log (keys r2) t @ [stamp_event now2 rid2 n2 e2]"
    using append_exec_cases[OF assms(3) 2(2)] assms(6) by (auto simp: append_effect)
  moreover have "ks_log (keys r4) t = ks_log (keys r3) t @ [stamp_event now1 rid1 n1 e1]"
    using append_exec_cases[OF assms(4) 1(2)] assms(5) by (auto simp: append_effect)
  ultimately show ?thesis using 1 2 by (simp add: incr_effect_view)
qed

text \<open>An append whose transaction failed has used its number up: the next one skips it.\<close>

lemma append_burns:
  assumes "rd_incr rd (seq_key (ev_topic e)) r = (Inr n, r1)" "redis_append rd now rid e r = (Inl err, e', r2)"
    and "redis_append rd now' rid' e2 r2 = (Inr m, e2', r3)" "ev_topic e2 = ev_topic e"
  shows "m = Suc n \<and> n = Suc (ks_counter (seq_key (ev_topic e)) (keys r))"
proof -
  have n: "n = Suc (ks_counter (seq_key (ev_topic e)) (keys r))" "n < 2 ^ 63" "keys r1 = incr_effect (seq_key (ev_topic e)) (keys r)"
    using incr_ok[OF assms(1)] by auto
  have "keys r2 = keys r1"
    using append_exec_cases[of now rid e n r1 "Inl err" e' r2] assms(1,2) n(2) by (auto simp: redis_append_def)
  moreover obtain r2' where i: "rd_incr rd (seq_key (ev_topic e)) r2 = (Inr m, r2')"
    using assms(3,4) by (auto simp: redis_append_def redis_append_exec_def Let_def split: prod.splits sum.splits option.splits)
  ultimately show ?thesis using incr_ok[OF i] n by (simp add: incr_effect_view)
qed

end

section \<open>A server in memory\<close>

text \<open>The documented commands run on a keyspace held in memory, where nothing fails.\<close>

definition ref_redis :: "keyspace redis" where
  "ref_redis = \<lparr>
     rd_incr = (\<lambda>k ks. if Suc (ks_counter k ks) < 2 ^ 63 then (Inr (Suc (ks_counter k ks)), incr_effect k ks)
                       else (Inl (ErrMsg ''ERR increment or decrement would overflow''), ks)),
     rd_exec = (\<lambda>cmds ks. (None, cmd_effects cmds ks)),
     rd_do = (\<lambda>cmd ks. (None, cmd_effect cmd ks)),
     rd_xrange = (\<lambda>k ks. Inr (ks_stream k ks)),
     rd_xrevrange = (\<lambda>k n ks. Inr (take n (rev (ks_stream k ks)))),
     rd_get = (\<lambda>k ks. Inr (ks_string k ks)),
     rd_hgetall = (\<lambda>k ks. Inr (ks_hash k ks)),
     rd_smembers = (\<lambda>k ks. Inr (sorted_list_of_fset (ks_set k ks)))\<rparr>"

interpretation ref: redis_server ref_redis id
  by unfold_locales (auto simp: ref_redis_def sorted_list_of_fset.rep_eq split: if_splits)

section \<open>Numbers in a hash\<close>

lemma show_nat_all_digits [simp]: "list_all is_digit (show_nat n)"
  using show_nat_digits by (auto simp: list_all_iff)

lemma parse_u64_show: "n < 2 ^ 64 \<Longrightarrow> parse_u64 (show_nat n) = Some n"
  by (simp add: parse_u64_def)

lemma parse_i64_show:
  assumes "in_i64 v"
  shows "parse_i64 (show_int v) = Some (word_of_int v)"
proof (cases "v < 0")
  case True
  then show ?thesis using assms by (simp add: parse_i64_def show_int_def)
next
  case False
  obtain c cs where s: "show_nat (nat v) = c # cs" by (cases "show_nat (nat v)") auto
  then have "is_digit c" using show_nat_digits[of c "nat v"] by simp
  then have "c \<noteq> CHR ''-''" "c \<noteq> CHR ''+''" by (auto simp: is_digit_def)
  then show ?thesis
    using False assms s show_nat_all_digits[of "nat v"] digits_val_show_nat[of "nat v"]
    by (simp add: parse_i64_def show_int_def)
qed

lemma time_unix_nano: "in_i64 (t - unix_epoch) \<Longrightarrow> time_unix (word_of_int (sint (unix_nano t))) = t"
proof -
  assume "in_i64 (t - unix_epoch)"
  then have a: "sint (unix_nano t) = t - unix_epoch" unfolding unix_nano_def by (rule sint_i64_of_int)
  have w: "word_of_int (sint (unix_nano t)) = unix_nano t" by simp
  show "time_unix (word_of_int (sint (unix_nano t))) = t" by (subst w) (simp add: time_unix_def a)
qed

text \<open>The meta of a topic after the transaction of an append.\<close>

lemma append_meta:
  "ks_hash (meta_key (ev_topic e)) (cmd_effects (append_cmds now e body) ks) =
     (let m = set_fields [(''object_type'', BulkText (case parse_object_type (ev_topic e) of Inr ot \<Rightarrow> ot | Inl _ \<Rightarrow> [])),
              (''last_seq'', bulk_nat (ev_seq e)), (''last_event_at'', bulk_i64 (unix_nano (ev_at e)))]
            (ks_hash (meta_key (ev_topic e)) ks)
      in if fmlookup m ''created_at'' = None then fmupd ''created_at'' (bulk_i64 (unix_nano now)) m else m)"
  by (simp add: append_cmds_def Let_def redis_keys)

context redis_server
begin

lemma append_done:
  assumes "redis_append rd now rid e r = (Inr n, e', r')"
  shows "\<exists>ks body. keys r' = cmd_effects (append_cmds now e' body) ks \<and> ev_seq e' = n \<and> n < 2 ^ 64
    \<and> ev_topic e' = ev_topic e"
proof -
  obtain r1 where i: "rd_incr rd (seq_key (ev_topic e)) r = (Inr n, r1)" "redis_append_exec rd now rid e n r1 = (Inr n, e', r')"
    using assms by (auto simp: redis_append_def redis_append_exec_def Let_def split: prod.splits sum.splits option.splits)
  have n: "n < 2 ^ 63" using incr_ok[OF i(1)] by blast
  show ?thesis using append_exec_cases[OF i(2) n] n by fastforce
qed

lemma meta_after_append:
  assumes "redis_append rd now rid e r = (Inr n, e', r')"
    and "redis_get_meta rd (ev_topic e) r' = Inr m" "parse_object_type (ev_topic e) = Inr ot"
    and "in_i64 (ev_at e' - unix_epoch)"
  shows "tm_last_seq m = n \<and> tm_last_event_at m = ev_at e' \<and> tm_object_type m = ot \<and> tm_topic m = ev_topic e"
proof -
  obtain ks body where A: "keys r' = cmd_effects (append_cmds now e' body) ks" "ev_seq e' = n" "n < 2 ^ 64"
      "ev_topic e' = ev_topic e" using append_done[OF assms(1)] by blast
  let ?h = "ks_hash (meta_key (ev_topic e)) (keys r')"
  have h: "field_text ?h ''object_type'' = ot" "field_text ?h ''last_seq'' = show_nat n"
      "field_text ?h ''last_event_at'' = show_int (sint (unix_nano (ev_at e')))"
    using append_meta[of e' now body ks] A assms(3)
    by (auto simp: Let_def field_text_def bulk_nat_def bulk_i64_def)
  have "?h = (case rd_hgetall rd (meta_key (ev_topic e)) r' of Inr h \<Rightarrow> h | Inl _ \<Rightarrow> ?h)"
    using hgetall_ok by (auto split: sum.splits)
  then show ?thesis
    using assms(2) h A(3) time_unix_nano[OF assms(4)]
    by (auto simp: redis_get_meta_def parse_u64_show parse_i64_show in_i64_sint split: sum.splits if_splits)
qed

end

section \<open>Properties\<close>

text \<open>C28: an event that has a JSON text decodes from it as it was, and it has one exactly when its time
  is in the years 0 to 9999 and its payload and state are well formed.\<close>

theorem event_roundtrip:
  assumes "ev_seq e < 2 ^ 64"
  shows "(enc_event e \<noteq> None \<longleftrightarrow> valid_year (ev_at e) \<and> ev_payload e \<noteq> RBad \<and> ev_state e \<noteq> RBad)
    \<and> (\<forall>j. enc_event e = Some j \<longrightarrow> dec_event j = (e, True))"
  using dec_enc_event[OF _ assms] by (simp only: enc_event_total) blast

theorem event_roundtrip_witness:
  "enc_event (new_event ''int/hits'' ''int_incr'' ''al'' (RJson (JObj [])) 0) \<noteq> None"
  using event_roundtrip[of "new_event ''int/hits'' ''int_incr'' ''al'' (RJson (JObj [])) 0"]
  by (simp add: new_event_def valid_year_def year_of_day_def)



text \<open>After an append the topic's meta says so: \<open>GetMeta\<close> gives the number of the event, its time,
  and the type of its topic, as long as the time is one that 64-bit nanoseconds from 1970 can hold.\<close>

lemma redis_meta_after_append:
  assumes "redis_server rd keys" "redis_append rd now rid e r = (Inr n, e', r')"
    and "redis_get_meta rd (ev_topic e) r' = Inr m" "parse_object_type (ev_topic e) = Inr ot"
    and "in_i64 (ev_at e' - unix_epoch)"
  shows "tm_last_seq m = n \<and> tm_last_event_at m = ev_at e' \<and> tm_object_type m = ot \<and> tm_topic m = ev_topic e"
  by (rule redis_server.meta_after_append[OF assms])

definition old_event :: event where
  "old_event = new_event ''int/hits'' ''int_incr'' ''al'' (RJson (JObj [])) 63000000000000000000"

lemma redis_meta_after_append_example:
  "\<exists>m r'. redis_append ref_redis 8 ''a'' old_event fmempty = (Inr 1, stamp_event 8 ''a'' 1 old_event, r')
    \<and> redis_get_meta ref_redis ''int/hits'' r' = Inr m \<and> tm_last_seq m = 1 \<and> tm_last_event_at m = 63000000000000000000"
proof -
  let ?e = "stamp_event 8 ''a'' 1 old_event"
  have e: "ev_at (stamp_event 8 ''a'' n old_event) = 63000000000000000000" "ev_topic ?e = ''int/hits''"
      "ev_topic old_event = ''int/hits''" for n
    by (simp_all add: old_event_def new_event_def stamp_event_def is_zero_time_def)
  have "enc_event ?e \<noteq> None"
    unfolding enc_event_total e by (simp add: valid_year_def year_of_day_def days_before_year_def old_event_def new_event_def)
  then obtain body where b: "enc_event ?e = Some body" by blast
  have "ks_counter k fmempty = 0" for k by (simp add: ks_counter_def)
  then have ap: "redis_append ref_redis 8 ''a'' old_event fmempty =
      (Inr 1, ?e, cmd_effects (append_cmds 8 ?e body) (incr_effect (seq_key ''int/hits'') fmempty))" (is "_ = (_, _, ?r)")
    using b by (simp add: redis_append_def redis_append_exec_def ref_redis_def e Let_def)
  have "fmlookup (ks_hash (meta_key ''int/hits'') ?r) ''object_type'' \<noteq> None"
    using append_meta[of ?e 8 body "incr_effect (seq_key ''int/hits'') fmempty"] e(2) by (simp add: Let_def)
  then have "ks_hash (meta_key ''int/hits'') ?r \<noteq> fmempty" by auto
  then obtain m where m: "redis_get_meta ref_redis ''int/hits'' ?r = Inr m"
    by (simp add: redis_get_meta_def ref_redis_def)
  have "in_i64 (ev_at ?e - unix_epoch)" unfolding e by (simp add: in_i64_def unix_epoch_def)
  then show ?thesis
    using redis_meta_after_append[OF ref.redis_server_axioms ap, of m "''int''"] m e(1,3) ap by (auto simp: parse_object_type_def)
qed

end
