(* ===== verification/ClientModel.thy ===== *)
theory ClientModel
  imports CoreTypes
begin

text \<open>
  The Go client library, \<open>client/client.go\<close>: the table of topics with their callbacks, the queue to
  the writer, the table of pending requests, the dispatch of incoming frames, and the loop that
  reconnects. A callback is its id, and dispatching gives the calls made; a response channel is the
  number of its request. What runs under the client's mutex is one function; the sends to the queue
  come after it, outside the mutex, so an operation's frames are a separate result that
  \<open>client_send_all\<close> enqueues, and another goroutine may come in between.

  A send blocks while the queue is full and the client is open, which is the value \<open>None\<close>. On a closed
  client \<open>select\<close> may drop a frame that would fit; nothing is written any more then, and the model
  enqueues it. Deadlines, pings and the socket are not modelled.

  The main results: \<open>client_upstream\<close> (one upstream subscription per topic with callbacks),
  \<open>client_responses\<close> (a response reaches the request it answers and no other),
  \<open>client_backoff\<close> (how long the client waits between dials), and \<open>resubscribe_returns\<close> (when the
  resubscription of a new connection gets through).
\<close>

section \<open>State\<close>

record client_frame =
  cf_op :: string
  cf_topic :: string
  cf_from :: string
  cf_from_seq :: nat
  cf_type :: string
  cf_actor :: string
  cf_payload :: raw
  cf_req_id :: string

record server_frame =
  sf_type :: string
  sf_topic :: string
  sf_event :: "event option"
  sf_state :: raw
  sf_last_seq :: nat
  sf_missed :: nat
  sf_msg :: string
  sf_req_id :: string

record topic_sub =
  ts_from :: from_spec
  ts_callbacks :: "nat list"
  ts_last_seen :: nat

record pending_resp =
  pe_frame :: server_frame
  pe_err :: "gerr option"

text \<open>\<open>cl_pending\<close> maps a request id to its channel, \<open>cl_resp\<close> a channel to what is in it.\<close>

record client =
  cl_closed :: bool
  cl_backoff_initial :: i64
  cl_backoff_max :: i64
  cl_send :: "client_frame list"
  cl_topics :: "(string, topic_sub) fmap"
  cl_next_id :: nat
  cl_pending :: "(string, nat) fmap"
  cl_next_req :: nat
  cl_resp :: "(nat, pending_resp) fmap"

definition millis :: "int \<Rightarrow> i64" where
  "millis n = word_of_int (n * 1000000)"

definition client_new :: client where
  "client_new = \<lparr>cl_closed = False, cl_backoff_initial = millis 100, cl_backoff_max = millis 30000, cl_send = [],
     cl_topics = fmempty, cl_next_id = 0, cl_pending = fmempty, cl_next_req = 0, cl_resp = fmempty\<rparr>"

definition with_reconnect :: "i64 \<Rightarrow> i64 \<Rightarrow> client \<Rightarrow> client" where
  "with_reconnect initial mx c = c\<lparr>cl_backoff_initial := initial, cl_backoff_max := mx\<rparr>"

definition client_close :: "client \<Rightarrow> client" where
  "client_close c = (if cl_closed c then c else c\<lparr>cl_closed := True\<rparr>)"

text \<open>The URL \<open>dial\<close> connects to; the token goes into the query as it is, and into a header.\<close>

definition dial_url :: "string \<Rightarrow> string \<Rightarrow> string" where
  "dial_url url token =
     (if token = [] then url
      else url @ (if CHR ''?'' \<in> set url then ''&'' else ''?'') @ ''access_token='' @ token)"

section \<open>Frames and the queue\<close>

definition out_frame :: "string \<Rightarrow> string \<Rightarrow> client_frame" where
  "out_frame op topic = \<lparr>cf_op = op, cf_topic = topic, cf_from = [], cf_from_seq = 0, cf_type = [],
     cf_actor = [], cf_payload = RNil, cf_req_id = []\<rparr>"

definition subscribe_frame :: "string \<Rightarrow> from_spec \<Rightarrow> nat \<Rightarrow> client_frame" where
  "subscribe_frame topic from resume =
     (let f = out_frame ''subscribe'' topic
      in if 0 < resume then f\<lparr>cf_from_seq := resume\<rparr>
         else (case fr_kind from of
                 FromLatest \<Rightarrow> f\<lparr>cf_from := ''latest''\<rparr>
               | FromLastN \<Rightarrow> f\<lparr>cf_from := ''last:'' @ show_nat (fr_value from)\<rparr>
               | FromSeq \<Rightarrow> f\<lparr>cf_from_seq := fr_value from\<rparr>))"

definition send_buf :: nat where
  "send_buf = 256"

definition client_send :: "client_frame \<Rightarrow> client \<Rightarrow> client option" where
  "client_send f c =
     (if length (cl_send c) < send_buf then Some (c\<lparr>cl_send := cl_send c @ [f]\<rparr>)
      else if cl_closed c then Some c else None)"

fun client_send_all :: "client_frame list \<Rightarrow> client \<Rightarrow> client option" where
  "client_send_all [] c = Some c"
| "client_send_all (f # fs) c = (case client_send f c of None \<Rightarrow> None | Some c1 \<Rightarrow> client_send_all fs c1)"

section \<open>Subscriptions\<close>

text \<open>The part of \<open>Subscribe\<close> under the mutex: the callback's id, and the frame the first one sends.\<close>

definition client_register :: "string \<Rightarrow> from_spec \<Rightarrow> client \<Rightarrow> nat \<times> client_frame list \<times> client" where
  "client_register topic from c =
     (let cid = cl_next_id c + 1;
          (first, ts) = (case fmlookup (cl_topics c) topic of
             None \<Rightarrow> (True, \<lparr>ts_from = from, ts_callbacks = [], ts_last_seen = 0\<rparr>)
           | Some ts \<Rightarrow> (False, ts))
      in (cid, if first then [subscribe_frame topic from 0] else [],
          c\<lparr>cl_next_id := cid,
            cl_topics := fmupd topic (ts\<lparr>ts_callbacks := ts_callbacks ts @ [cid]\<rparr>) (cl_topics c)\<rparr>))"

definition client_subscribe :: "string \<Rightarrow> from_spec \<Rightarrow> client \<Rightarrow> ((gerr + nat) \<times> client) option" where
  "client_subscribe topic from c =
     (case validate_topic topic of
        Some err \<Rightarrow> Some (Inl err, c)
      | None \<Rightarrow>
          (let (cid, frames, c1) = client_register topic from c
           in map_option (\<lambda>c2. (Inr cid, c2)) (client_send_all frames c1)))"

text \<open>\<open>Handle.Close\<close>: the part of \<open>removeCallback\<close> under the mutex, and the whole.\<close>

definition client_unregister :: "string \<Rightarrow> nat \<Rightarrow> client \<Rightarrow> client_frame list \<times> client" where
  "client_unregister topic cid c =
     (case fmlookup (cl_topics c) topic of
        None \<Rightarrow> ([], c)
      | Some ts \<Rightarrow>
          (let cbs = removeAll cid (ts_callbacks ts)
           in if cbs = [] then ([out_frame ''unsubscribe'' topic], c\<lparr>cl_topics := fmdrop topic (cl_topics c)\<rparr>)
              else ([], c\<lparr>cl_topics := fmupd topic (ts\<lparr>ts_callbacks := cbs\<rparr>) (cl_topics c)\<rparr>)))"

definition client_remove_callback :: "string \<Rightarrow> nat \<Rightarrow> client \<Rightarrow> client option" where
  "client_remove_callback topic cid c = (let (frames, c1) = client_unregister topic cid c in client_send_all frames c1)"

text \<open>The handle a \<open>Subscribe\<close> gives; closing a nil one does nothing.\<close>

record handle =
  hd_topic :: string
  hd_id :: nat

definition handle_close :: "handle option \<Rightarrow> client \<Rightarrow> client option" where
  "handle_close h c = (case h of None \<Rightarrow> Some c | Some x \<Rightarrow> client_remove_callback (hd_topic x) (hd_id x) c)"

text \<open>\<open>resubscribeAll\<close>, in the order of the topics; Go's range takes any order.\<close>

definition resume_frame :: "string \<Rightarrow> topic_sub \<Rightarrow> client_frame" where
  "resume_frame topic ts =
     subscribe_frame topic (ts_from ts) (if 0 < ts_last_seen ts then (ts_last_seen ts + 1) mod 2 ^ 64 else 0)"

definition resubscribe_frames :: "client \<Rightarrow> client_frame list" where
  "resubscribe_frames c = map (\<lambda>(topic, ts). resume_frame topic ts) (fm_items (cl_topics c))"

definition resubscribe_all :: "client \<Rightarrow> client option" where
  "resubscribe_all c = client_send_all (resubscribe_frames c) c"

section \<open>Dispatch and requests\<close>

text \<open>\<open>dispatch\<close>: the calls of callbacks it makes, and the state after its critical section.\<close>

definition client_dispatch :: "server_frame \<Rightarrow> client \<Rightarrow> (nat \<times> event) list \<times> client" where
  "client_dispatch f c =
     (if sf_type f = ''event'' then
        (case (sf_event f, fmlookup (cl_topics c) (sf_topic f)) of
           (Some e, Some ts) \<Rightarrow>
             (let ts1 = (if ts_last_seen ts < ev_seq e then ts\<lparr>ts_last_seen := ev_seq e\<rparr> else ts)
              in (map (\<lambda>cb. (cb, e)) (ts_callbacks ts1),
                  c\<lparr>cl_topics := fmupd (sf_topic f) ts1 (cl_topics c)\<rparr>))
         | _ \<Rightarrow> ([], c))
      else if sf_type f \<in> {''state'', ''ack'', ''error''} \<and> sf_req_id f \<noteq> [] then
        (case fmlookup (cl_pending c) (sf_req_id f) of
           None \<Rightarrow> ([], c)
         | Some ch \<Rightarrow>
             (let pr = \<lparr>pe_frame = f, pe_err = (if sf_type f = ''error'' then Some (ErrMsg (sf_msg f)) else None)\<rparr>;
                  c1 = c\<lparr>cl_pending := fmdrop (sf_req_id f) (cl_pending c)\<rparr>
              in ([], if fmlookup (cl_resp c1) ch = None then c1\<lparr>cl_resp := fmupd ch pr (cl_resp c1)\<rparr> else c1)))
      else ([], c))"

fun client_dispatch_all :: "server_frame list \<Rightarrow> client \<Rightarrow> (nat \<times> event) list \<times> client" where
  "client_dispatch_all [] c = ([], c)"
| "client_dispatch_all (f # fs) c =
     (let (calls, c1) = client_dispatch f c; (calls', c2) = client_dispatch_all fs c1 in (calls @ calls', c2))"

definition req_id :: "nat \<Rightarrow> string" where
  "req_id n = ''r'' @ show_nat n"

text \<open>The start of \<open>request\<close>: a fresh id and channel, then the send.\<close>

definition client_request :: "client_frame \<Rightarrow> client \<Rightarrow> (nat \<times> client) option" where
  "client_request f c =
     (let n = cl_next_req c + 1;
          c1 = c\<lparr>cl_next_req := n, cl_pending := fmupd (req_id n) n (cl_pending c)\<rparr>
      in map_option (\<lambda>c2. (n, c2)) (client_send (f\<lparr>cf_req_id := req_id n\<rparr>) c1))"

text \<open>Its end: the response when there is one, or the context's error.\<close>

definition client_receive :: "nat \<Rightarrow> client \<Rightarrow> ((server_frame \<times> gerr option) \<times> client) option" where
  "client_receive n c =
     (case fmlookup (cl_resp c) n of
        None \<Rightarrow> None
      | Some pr \<Rightarrow> Some ((pe_frame pr, pe_err pr), c\<lparr>cl_resp := fmdrop n (cl_resp c)\<rparr>))"

definition client_cancel :: "nat \<Rightarrow> client \<Rightarrow> client" where
  "client_cancel n c = c\<lparr>cl_pending := fmdrop (req_id n) (cl_pending c)\<rparr>"

definition publish_frame :: "event \<Rightarrow> client_frame" where
  "publish_frame e = (out_frame ''publish'' (ev_topic e))
     \<lparr>cf_type := ev_type e, cf_actor := ev_actor e, cf_payload := ev_payload e\<rparr>"

definition client_publish :: "event \<Rightarrow> client \<Rightarrow> (nat \<times> client) option" where
  "client_publish e c = client_request (publish_frame e) c"

text \<open>What \<open>Publish\<close> and \<open>GetState\<close> return from the outcome of their request.\<close>

definition publish_result :: "server_frame \<times> gerr option \<Rightarrow> gerr + nat" where
  "publish_result = (\<lambda>(f, err). case err of Some e \<Rightarrow> Inl e | None \<Rightarrow> Inr (sf_last_seq f))"

definition client_get_state :: "string \<Rightarrow> client \<Rightarrow> (nat \<times> client) option" where
  "client_get_state topic c = client_request (out_frame ''get_state'' topic) c"

definition get_state_result :: "server_frame \<times> gerr option \<Rightarrow> gerr + raw" where
  "get_state_result = (\<lambda>(f, err). case err of Some e \<Rightarrow> Inl e | None \<Rightarrow> Inr (sf_state f))"

section \<open>The connection loop\<close>

text \<open>
  \<open>RunWait b\<close>: no connection, dialling again after \<open>b\<close>; \<open>RunLive b\<close>: reader and writer running;
  \<open>RunDrain b\<close>: the reader is gone and the loop waits for the writer, which notices only at its next
  write. The events: the timer fires and the dial succeeds or not; the reader ends; the writer tries
  a frame of the queue, or a ping; the client is closed. \<open>None\<close>: the loop does not get on.
\<close>

datatype run_state = RunWait i64 | RunLive i64 | RunDrain i64 | RunStopped

datatype run_event = EvDial bool | EvReaderDone | EvWriteFrame | EvWritePing | EvClose

definition min_duration :: "i64 \<Rightarrow> i64 \<Rightarrow> i64" where
  "min_duration a b = (if sint a < sint b then a else b)"

fun client_run_step :: "run_event \<Rightarrow> run_state \<times> client \<Rightarrow> (run_state \<times> client) option" where
  "client_run_step EvClose (r, c) = Some (RunStopped, client_close c)"
| "client_run_step (EvDial False) (RunWait b, c) = Some (RunWait (min_duration (b * 2) (cl_backoff_max c)), c)"
| "client_run_step (EvDial True) (RunWait b, c) =
     map_option (\<lambda>c1. (RunLive (cl_backoff_initial c), c1)) (resubscribe_all c)"
| "client_run_step EvReaderDone (RunLive b, c) = Some (RunDrain b, c)"
| "client_run_step EvWriteFrame (RunLive b, c) =
     (case cl_send c of [] \<Rightarrow> None | f # fs \<Rightarrow> Some (RunLive b, c\<lparr>cl_send := fs\<rparr>))"
| "client_run_step EvWritePing (RunLive b, c) = Some (RunLive b, c)"
| "client_run_step EvWriteFrame (RunDrain b, c) =
     (case cl_send c of [] \<Rightarrow> None | f # fs \<Rightarrow> Some (RunWait b, c\<lparr>cl_send := fs\<rparr>))"
| "client_run_step EvWritePing (RunDrain b, c) = Some (RunWait b, c)"
| "client_run_step _ _ = None"

fun client_run :: "run_event list \<Rightarrow> run_state \<times> client \<Rightarrow> (run_state \<times> client) option" where
  "client_run [] s = Some s"
| "client_run (ev # evs) s = (case client_run_step ev s of None \<Rightarrow> None | Some s1 \<Rightarrow> client_run evs s1)"

text \<open>\<open>run\<close> starts with the connection \<open>Dial\<close> made.\<close>

definition client_run_start :: "client \<Rightarrow> (run_state \<times> client) option" where
  "client_run_start c = map_option (\<lambda>c1. (RunLive (cl_backoff_initial c), c1)) (resubscribe_all c)"

section \<open>The queue\<close>

lemma client_send_Some:
  "client_send f c = Some c' \<Longrightarrow> cl_topics c' = cl_topics c \<and> cl_pending c' = cl_pending c \<and> cl_resp c' = cl_resp c
    \<and> cl_next_id c' = cl_next_id c \<and> cl_next_req c' = cl_next_req c \<and> cl_closed c' = cl_closed c"
  by (auto simp: client_send_def split: if_splits)

text \<open>A burst gets through when it fits, and only then unless the client is closed.\<close>

lemma client_send_all_open:
  assumes "\<not> cl_closed c" "length (cl_send c) \<le> send_buf"
  shows "client_send_all fs c =
    (if length (cl_send c) + length fs \<le> send_buf then Some (c\<lparr>cl_send := cl_send c @ fs\<rparr>) else None)"
  using assms by (induction fs arbitrary: c) (auto simp: client_send_def)

lemma client_send_all_closed: "cl_closed c \<Longrightarrow> client_send_all fs c \<noteq> None"
  by (induction fs arbitrary: c) (auto simp: client_send_def)

lemma length_fm_items: "length (fm_items m) = size (fmdom m)"
  by (simp add: fm_items_def sorted_list_of_fset.rep_eq fcard.rep_eq)

section \<open>Histories\<close>

text \<open>
  A history of the client: its state, the frames its operations have handed to the queue, in the
  order of their critical sections, and the handles that are open.
\<close>

inductive client_history :: "client \<Rightarrow> client_frame list \<Rightarrow> (string \<times> nat) set \<Rightarrow> bool" where
  hist_new: "client_history (with_reconnect initial mx client_new) [] {}"
| hist_subscribe: "client_history c fs hs \<Longrightarrow> client_register t from c = (cid, frames, c') \<Longrightarrow>
    client_history c' (fs @ frames) (insert (t, cid) hs)"
| hist_close_handle: "client_history c fs hs \<Longrightarrow> client_unregister t cid c = (frames, c') \<Longrightarrow>
    client_history c' (fs @ frames) (hs - {(t, cid)})"
| hist_dispatch: "client_history c fs hs \<Longrightarrow> client_history (snd (client_dispatch f c)) fs hs"
| hist_request: "client_history c fs hs \<Longrightarrow> f \<in> {publish_frame e, out_frame ''get_state'' t} \<Longrightarrow>
    client_request f c = Some (n, c') \<Longrightarrow> client_history c' (fs @ [f\<lparr>cf_req_id := req_id n\<rparr>]) hs"
| hist_receive: "client_history c fs hs \<Longrightarrow> client_receive n c = Some (r, c') \<Longrightarrow> client_history c' fs hs"
| hist_cancel: "client_history c fs hs \<Longrightarrow> client_history (client_cancel n c) fs hs"
| hist_run: "client_history c fs hs \<Longrightarrow> client_run_step ev (r, c) = Some (r', c') \<Longrightarrow> client_history c' fs hs"

text \<open>The subscriptions and unsubscriptions of a topic on the wire must alternate.\<close>

fun wire_step :: "string \<Rightarrow> client_frame \<Rightarrow> bool \<Rightarrow> bool option" where
  "wire_step t f up =
     (if cf_topic f \<noteq> t then Some up
      else if cf_op f = ''subscribe'' then (if up then None else Some True)
      else if cf_op f = ''unsubscribe'' then (if up then Some False else None)
      else Some up)"

fun wire :: "string \<Rightarrow> client_frame list \<Rightarrow> bool option" where
  "wire t [] = Some False"
| "wire t (f # fs) = (case wire t fs of None \<Rightarrow> None | Some up \<Rightarrow> wire_step t f up)"

definition wire_of :: "string \<Rightarrow> client_frame list \<Rightarrow> bool option" where
  "wire_of t fs = wire t (rev fs)"

lemma wire_of_Nil [simp]: "wire_of t [] = Some False"
  by (simp add: wire_of_def)

lemma wire_of_snoc: "wire_of t (fs @ [f]) = (case wire_of t fs of None \<Rightarrow> None | Some up \<Rightarrow> wire_step t f up)"
  by (simp add: wire_of_def)

definition callbacks_of :: "client \<Rightarrow> string \<Rightarrow> nat list option" where
  "callbacks_of c t = map_option ts_callbacks (fmlookup (cl_topics c) t)"

definition client_inv :: "client \<Rightarrow> client_frame list \<Rightarrow> (string \<times> nat) set \<Rightarrow> bool" where
  "client_inv c fs hs \<longleftrightarrow>
     (\<forall>t. wire_of t fs = Some (callbacks_of c t \<noteq> None))
     \<and> (\<forall>t. case callbacks_of c t of
            None \<Rightarrow> {cid. (t, cid) \<in> hs} = {}
          | Some cbs \<Rightarrow> cbs \<noteq> [] \<and> distinct cbs \<and> set cbs = {cid. (t, cid) \<in> hs})
     \<and> (\<forall>(t, cid) \<in> hs. cid \<le> cl_next_id c)"

lemma client_inv_same:
  "client_inv c fs hs \<Longrightarrow> cl_next_id c' = cl_next_id c \<Longrightarrow> callbacks_of c' = callbacks_of c \<Longrightarrow> client_inv c' fs hs"
  by (simp add: client_inv_def)

lemma subscribe_frame_simps [simp]:
  "cf_op (subscribe_frame t from k) = ''subscribe''" "cf_topic (subscribe_frame t from k) = t"
  by (auto simp: subscribe_frame_def out_frame_def Let_def split: from_kind.split)

lemma out_frame_simps [simp]: "cf_op (out_frame op t) = op" "cf_topic (out_frame op t) = t"
  by (simp_all add: out_frame_def)

lemma callbacks_of_same: "cl_topics c' = cl_topics c \<Longrightarrow> callbacks_of c' = callbacks_of c"
  by (simp add: callbacks_of_def fun_eq_iff)

lemma register_callbacks:
  assumes "client_register t from c = (cid, frames, c')"
  shows "callbacks_of c' = (callbacks_of c)(t \<mapsto> (case callbacks_of c t of None \<Rightarrow> [] | Some cbs \<Rightarrow> cbs) @ [cid])"
  using assms by (auto simp: client_register_def callbacks_of_def Let_def fun_eq_iff split: option.splits)

lemma unregister_callbacks:
  assumes "client_unregister t cid c = (frames, c')"
  shows "callbacks_of c' = (callbacks_of c)(t :=
    (case callbacks_of c t of None \<Rightarrow> None
     | Some cbs \<Rightarrow> if removeAll cid cbs = [] then None else Some (removeAll cid cbs)))"
  using assms by (auto simp: client_unregister_def callbacks_of_def Let_def fun_eq_iff split: option.splits if_splits)

lemma client_inv_register:
  assumes "client_inv c fs hs" "client_register t from c = (cid, frames, c')"
  shows "client_inv c' (fs @ frames) (insert (t, cid) hs)"
proof -
  have cid: "cid = Suc (cl_next_id c)" "cl_next_id c' = cid" "(u, cid) \<notin> hs" for u
    using assms by (auto simp: client_register_def client_inv_def Let_def split: option.splits prod.splits)
  note cb = register_callbacks[OF assms(2)]
  have fr: "frames = (if callbacks_of c t = None then [subscribe_frame t from 0] else [])"
    using assms(2) by (auto simp: client_register_def callbacks_of_def Let_def split: option.splits)
  have w: "wire_of u (fs @ frames) = Some (callbacks_of c' u \<noteq> None)" for u
    using assms(1) unfolding client_inv_def cb fr by (auto simp: wire_of_snoc)
  have h: "case callbacks_of c' u of
            None \<Rightarrow> {x. (u, x) \<in> insert (t, cid) hs} = {}
          | Some cbs \<Rightarrow> cbs \<noteq> [] \<and> distinct cbs \<and> set cbs = {x. (u, x) \<in> insert (t, cid) hs}" for u
  proof -
    have I: "case callbacks_of c u of None \<Rightarrow> {x. (u, x) \<in> hs} = {}
        | Some cbs \<Rightarrow> cbs \<noteq> [] \<and> distinct cbs \<and> set cbs = {x. (u, x) \<in> hs}"
      using assms(1) unfolding client_inv_def by blast
    have "{x. (u, x) \<in> insert (t, cid) hs} = (if u = t then insert cid {x. (u, x) \<in> hs} else {x. (u, x) \<in> hs})"
      by auto
    then show ?thesis using I cid(3)[of u] unfolding cb by (cases "u = t"; cases "callbacks_of c u") simp_all
  qed
  have "\<forall>(u, x) \<in> insert (t, cid) hs. x \<le> cl_next_id c'"
    using assms(1) cid(1,2) by (fastforce simp: client_inv_def)
  with w h show ?thesis unfolding client_inv_def by blast
qed

lemma removeAll_Nil_iff: "removeAll x xs = [] \<longleftrightarrow> set xs \<subseteq> {x}"
  by (auto simp: removeAll_filter_not_eq filter_empty_conv)

lemma client_inv_unregister:
  assumes "client_inv c fs hs" "client_unregister t cid c = (frames, c')"
  shows "client_inv c' (fs @ frames) (hs - {(t, cid)})"
proof -
  let ?cbs = "case callbacks_of c t of None \<Rightarrow> [] | Some cbs \<Rightarrow> removeAll cid cbs"
  have cb: "callbacks_of c' = (callbacks_of c)(t := (if ?cbs = [] then None else Some ?cbs))"
    and fr: "frames = (if callbacks_of c t \<noteq> None \<and> ?cbs = [] then [out_frame ''unsubscribe'' t] else [])"
    and nx: "cl_next_id c' = cl_next_id c"
    using assms(2) by (auto simp: client_unregister_def callbacks_of_def Let_def fun_eq_iff split: option.splits if_splits)
  have I: "wire_of u fs = Some (callbacks_of c u \<noteq> None)"
      "case callbacks_of c u of
            None \<Rightarrow> {x. (u, x) \<in> hs} = {}
          | Some cbs \<Rightarrow> cbs \<noteq> [] \<and> distinct cbs \<and> set cbs = {x. (u, x) \<in> hs}" for u
    using assms(1) unfolding client_inv_def by blast+
  have w: "wire_of u (fs @ frames) = Some (callbacks_of c' u \<noteq> None)" for u
    using I[of u] unfolding cb fr by (auto simp: wire_of_snoc split: option.splits)
  have h: "case callbacks_of c' u of
            None \<Rightarrow> {x. (u, x) \<in> hs - {(t, cid)}} = {}
          | Some cbs \<Rightarrow> cbs \<noteq> [] \<and> distinct cbs \<and> set cbs = {x. (u, x) \<in> hs - {(t, cid)}}" for u
    using I(2)[of u] unfolding cb by (auto simp: distinct_removeAll removeAll_Nil_iff split: option.splits)
  have "\<forall>(u, x) \<in> hs - {(t, cid)}. x \<le> cl_next_id c'"
    using assms(1) nx by (simp add: client_inv_def)
  with w h show ?thesis unfolding client_inv_def by blast
qed

lemma dispatch_frame:
  "cl_next_id (snd (client_dispatch f c)) = cl_next_id c \<and> cl_next_req (snd (client_dispatch f c)) = cl_next_req c
   \<and> callbacks_of (snd (client_dispatch f c)) = callbacks_of c \<and> cl_send (snd (client_dispatch f c)) = cl_send c
   \<and> cl_closed (snd (client_dispatch f c)) = cl_closed c"
  by (auto simp: client_dispatch_def callbacks_of_def Let_def fun_eq_iff split: option.splits)

lemma send_all_frame:
  "client_send_all fs c = Some c' \<Longrightarrow> cl_topics c' = cl_topics c \<and> cl_pending c' = cl_pending c \<and> cl_resp c' = cl_resp c
    \<and> cl_next_id c' = cl_next_id c \<and> cl_next_req c' = cl_next_req c"
proof (induction fs arbitrary: c)
  case (Cons f fs)
  then show ?case using client_send_Some[of f c] by (auto split: option.splits)
qed simp

lemma run_step_frame:
  assumes "client_run_step ev (r, c) = Some (r', c')"
  shows "cl_topics c' = cl_topics c \<and> cl_pending c' = cl_pending c \<and> cl_resp c' = cl_resp c
    \<and> cl_next_id c' = cl_next_id c \<and> cl_next_req c' = cl_next_req c"
  using assms
  by (induction ev "(r, c)" rule: client_run_step.induct)
     (auto simp: client_close_def resubscribe_all_def split: list.splits dest: send_all_frame)

lemma client_inv_snoc:
  assumes "client_inv c fs hs" "cf_op f \<noteq> ''subscribe''" "cf_op f \<noteq> ''unsubscribe''"
  shows "client_inv c (fs @ [f]) hs"
proof -
  have "wire_of t (fs @ [f]) = wire_of t fs" for t
    using assms by (simp add: client_inv_def wire_of_snoc)
  then show ?thesis using assms(1) by (simp add: client_inv_def)
qed

lemma client_inv_history: "client_history c fs hs \<Longrightarrow> client_inv c fs hs"
proof (induction rule: client_history.induct)
  case (hist_new initial mx)
  then show ?case by (simp add: client_inv_def callbacks_of_def with_reconnect_def client_new_def)
next
  case (hist_subscribe c fs hs t "from" cid frames c')
  then show ?case by (intro client_inv_register)
next
  case (hist_close_handle c fs hs t cid frames c')
  then show ?case by (intro client_inv_unregister)
next
  case (hist_dispatch c fs hs f)
  show ?case using dispatch_frame[of f c] by (intro client_inv_same[OF hist_dispatch.IH]) simp_all
next
  case (hist_request c fs hs f e t n c')
  have "cl_next_id c' = cl_next_id c" "cl_topics c' = cl_topics c"
    using hist_request.hyps(3) by (auto simp: client_request_def Let_def dest: client_send_Some)
  then have "client_inv c' fs hs" by (intro client_inv_same[OF hist_request.IH] callbacks_of_same)
  moreover have "cf_op f \<noteq> ''subscribe''" "cf_op f \<noteq> ''unsubscribe''"
    using hist_request.hyps(2) by (auto simp: publish_frame_def out_frame_def)
  ultimately show ?case by (simp add: client_inv_snoc)
next
  case (hist_receive c fs hs n r c')
  then have "cl_next_id c' = cl_next_id c" "cl_topics c' = cl_topics c" by (auto simp: client_receive_def split: option.splits)
  then show ?case by (intro client_inv_same[OF hist_receive.IH] callbacks_of_same)
next
  case (hist_cancel c fs hs n)
  show ?case by (intro client_inv_same[OF hist_cancel.IH] callbacks_of_same) (simp_all add: client_cancel_def)
next
  case (hist_run c fs hs ev r r' c')
  show ?case using run_step_frame[OF hist_run.hyps(2)]
    by (intro client_inv_same[OF hist_run.IH] callbacks_of_same) simp_all
qed

section \<open>Requests and responses\<close>

definition pending_inv :: "client \<Rightarrow> bool" where
  "pending_inv c \<longleftrightarrow>
     (\<forall>r ch. fmlookup (cl_pending c) r = Some ch \<longrightarrow> r = req_id ch \<and> ch \<le> cl_next_req c)
     \<and> (\<forall>ch. fmlookup (cl_resp c) ch \<noteq> None \<longrightarrow> ch \<le> cl_next_req c)"

lemma req_id_inj [simp]: "req_id m = req_id n \<longleftrightarrow> m = n"
  by (metis append_same_eq digits_val_show_nat req_id_def same_append_eq)

lemma req_id_nonempty [simp]: "req_id n \<noteq> []"
  by (simp add: req_id_def)

lemma pending_inv_dispatch: "pending_inv c \<Longrightarrow> pending_inv (snd (client_dispatch f c))"
  by (auto simp: pending_inv_def client_dispatch_def Let_def split: option.splits if_splits)

lemma client_request_Some:
  assumes "client_request f c = Some (n, c')"
  shows "n = Suc (cl_next_req c)" "cl_pending c' = fmupd (req_id n) n (cl_pending c)" "cl_resp c' = cl_resp c"
    "cl_next_req c' = n" "cl_topics c' = cl_topics c" "cl_next_id c' = cl_next_id c"
  using assms by (auto simp: client_request_def Let_def dest!: client_send_Some)

lemma pending_inv_request:
  assumes "pending_inv c" "client_request f c = Some (n, c')"
  shows "pending_inv c'"
  using assms(1) unfolding pending_inv_def client_request_Some[OF assms(2)]
  by (auto split: if_splits simp: client_request_Some(1)[OF assms(2)] le_SucI)

lemma pending_inv_same:
  "pending_inv c \<Longrightarrow> cl_pending c' = cl_pending c \<Longrightarrow> cl_resp c' = cl_resp c \<Longrightarrow> cl_next_req c' = cl_next_req c
   \<Longrightarrow> pending_inv c'"
  by (simp add: pending_inv_def)

lemma pending_inv_history: "client_history c fs hs \<Longrightarrow> pending_inv c"
proof (induction rule: client_history.induct)
  case (hist_new initial mx)
  then show ?case by (simp add: pending_inv_def with_reconnect_def client_new_def)
next
  case (hist_subscribe c fs hs t "from" cid frames c')
  then show ?case by (auto simp: client_register_def pending_inv_def Let_def split: option.splits)
next
  case (hist_close_handle c fs hs t cid frames c')
  then show ?case by (auto simp: client_unregister_def pending_inv_def Let_def split: option.splits if_splits)
next
  case (hist_receive c fs hs n r c')
  then show ?case by (auto simp: client_receive_def pending_inv_def split: option.splits if_splits)
next
  case (hist_cancel c fs hs n)
  then show ?case by (auto simp: client_cancel_def pending_inv_def)
next
  case (hist_run c fs hs ev r r' c')
  show ?case using run_step_frame[OF hist_run.hyps(2)] by (intro pending_inv_same[OF hist_run.IH]) simp_all
qed (auto intro: pending_inv_dispatch pending_inv_request)

text \<open>Whether a frame answers request \<open>n\<close>.\<close>

definition answers :: "nat \<Rightarrow> server_frame \<Rightarrow> bool" where
  "answers n f \<longleftrightarrow> sf_req_id f = req_id n \<and> sf_type f \<in> {''state'', ''ack'', ''error''}"

definition response_of :: "server_frame \<Rightarrow> pending_resp" where
  "response_of f = \<lparr>pe_frame = f, pe_err = (if sf_type f = ''error'' then Some (ErrMsg (sf_msg f)) else None)\<rparr>"

lemma dispatch_other:
  assumes "pending_inv c" "\<not> answers n f"
  shows "fmlookup (cl_pending (snd (client_dispatch f c))) (req_id n) = fmlookup (cl_pending c) (req_id n)"
    "fmlookup (cl_resp (snd (client_dispatch f c))) n = fmlookup (cl_resp c) n"
  using assms
  by (auto simp: client_dispatch_def answers_def pending_inv_def Let_def split: option.splits)

lemma dispatch_answered:
  assumes "pending_inv c" "fmlookup (cl_pending c) (req_id n) = None"
  shows "fmlookup (cl_pending (snd (client_dispatch f c))) (req_id n) = None"
    "fmlookup (cl_resp (snd (client_dispatch f c))) n = fmlookup (cl_resp c) n"
  using assms
  by (auto simp: client_dispatch_def pending_inv_def Let_def split: option.splits)

lemma dispatch_all_waiting:
  assumes "pending_inv c" "\<forall>f \<in> set fs. \<not> answers n f"
  shows "pending_inv (snd (client_dispatch_all fs c))
    \<and> fmlookup (cl_pending (snd (client_dispatch_all fs c))) (req_id n) = fmlookup (cl_pending c) (req_id n)
    \<and> fmlookup (cl_resp (snd (client_dispatch_all fs c))) n = fmlookup (cl_resp c) n"
  using assms
proof (induction fs arbitrary: c)
  case (Cons f fs)
  then show ?case
    using Cons.IH[OF pending_inv_dispatch[OF Cons.prems(1), of f]] dispatch_other[OF Cons.prems(1), of n f]
    by (simp add: case_prod_unfold Let_def)
qed simp

lemma dispatch_all_answered:
  assumes "pending_inv c" "fmlookup (cl_pending c) (req_id n) = None"
  shows "fmlookup (cl_resp (snd (client_dispatch_all fs c))) n = fmlookup (cl_resp c) n"
  using assms
proof (induction fs arbitrary: c)
  case (Cons f fs)
  then show ?case
    using Cons.IH[OF pending_inv_dispatch[OF Cons.prems(1), of f]] dispatch_answered[OF Cons.prems, of f]
    by (simp add: case_prod_unfold Let_def)
qed simp

lemma dispatch_all_append:
  "snd (client_dispatch_all (fs @ gs) c) = snd (client_dispatch_all gs (snd (client_dispatch_all fs c)))"
  "fst (client_dispatch_all (fs @ gs) c) = fst (client_dispatch_all fs c) @ fst (client_dispatch_all gs (snd (client_dispatch_all fs c)))"
  by (induction fs arbitrary: c) (simp_all add: case_prod_unfold Let_def)

section \<open>Backoff\<close>

lemma sint_double:
  assumes "0 \<le> sint (b :: i64)" "sint b < 2 ^ 62"
  shows "sint (b * 2) = 2 * sint b"
proof -
  have "b * 2 = word_of_int (2 * sint b)" by (simp add: mult.commute)
  moreover have "in_i64 (2 * sint b)" using assms by (simp add: in_i64_def)
  ultimately show ?thesis by (metis sint_i64_of_int)
qed

lemma sint_min_duration: "sint (min_duration a b) = min (sint a) (sint b)"
  by (simp add: min_duration_def)

lemma min_scaled:
  assumes "0 \<le> (m :: int)"
  shows "min (min x m * 2 ^ k) m = min (x * 2 ^ k) m"
proof (cases "x \<le> m")
  case False
  have "m \<le> m * 2 ^ k" using assms mult_left_mono[of 1 "2 ^ k" m] by simp
  moreover have "m * 2 ^ k \<le> x * 2 ^ k" using False by (intro mult_right_mono) auto
  ultimately have "m \<le> x * 2 ^ k" by (rule order_trans)
  then have "min (x * 2 ^ k) m = m" by (rule min_absorb2)
  moreover have "min x m = m" using False by simp
  ultimately show ?thesis using \<open>m \<le> m * 2 ^ k\<close> by (simp add: min_absorb2)
qed simp

section \<open>Properties\<close>


definition demo_client :: client where
  "demo_client = (snd (snd (client_register ''int/hits'' (Seq 1) (with_reconnect (millis 100) (millis 30000) client_new))))"

lemma demo_client_history:
  "client_history demo_client [subscribe_frame ''int/hits'' (Seq 1) 0] {(''int/hits'', 1)}"
proof -
  have "client_register ''int/hits'' (Seq 1) (with_reconnect (millis 100) (millis 30000) client_new) =
      (1, [subscribe_frame ''int/hits'' (Seq 1) 0], demo_client)"
    by (simp add: demo_client_def client_register_def with_reconnect_def client_new_def Let_def)
  from hist_subscribe[OF hist_new this] show ?thesis by simp
qed


text \<open>C20: a request gets exactly its own response: until a frame answers it there is none, whatever else
  arrives, and then it is the first frame that answers it, with an error exactly for an error frame,
  whatever arrives after.\<close>

theorem client_responses:
  assumes "client_history c fs0 hs" "client_request f c = Some (n, c1)"
    and "\<forall>x \<in> set fs. \<not> answers n x" "answers n g"
  shows "client_receive n (snd (client_dispatch_all fs c1)) = None
    \<and> map_option fst (client_receive n (snd (client_dispatch_all (fs @ g # gs) c1))) =
        Some (g, if sf_type g = ''error'' then Some (ErrMsg (sf_msg g)) else None)"
proof -
  have P: "pending_inv c" by (rule pending_inv_history[OF assms(1)])
  have n: "n = Suc (cl_next_req c)" and c1: "fmlookup (cl_pending c1) (req_id n) = Some n" "cl_resp c1 = cl_resp c"
    using client_request_Some[OF assms(2)] by simp_all
  have r: "fmlookup (cl_resp c1) n = None"
    using P n unfolding c1(2) pending_inv_def by (metis Suc_n_not_le_n)
  let ?c2 = "snd (client_dispatch_all fs c1)"
  note W = dispatch_all_waiting[OF pending_inv_request[OF P assms(2)] assms(3)]
  have c3: "fmlookup (cl_pending (snd (client_dispatch g ?c2))) (req_id n) = None"
      "fmlookup (cl_resp (snd (client_dispatch g ?c2))) n = Some (response_of g)"
    using W assms(4) c1(1) r by (auto simp: client_dispatch_def answers_def response_of_def Let_def)
  have "fmlookup (cl_resp (snd (client_dispatch_all (fs @ g # gs) c1))) n = Some (response_of g)"
    using dispatch_all_answered[OF pending_inv_dispatch c3(1), of gs] W c3(2)
    by (simp add: dispatch_all_append case_prod_unfold Let_def)
  then show ?thesis using W r by (simp add: client_receive_def response_of_def)
qed

theorem client_responses_witness:
  "\<exists>c1 g. client_publish (new_event ''int/hits'' ''int_incr'' [] RNil 0) demo_client = Some (1, c1)
    \<and> client_receive 1 c1 = None
    \<and> map_option fst (client_receive 1 (snd (client_dispatch_all [g] c1))) = Some (g, None)"
proof -
  let ?f = "publish_frame (new_event ''int/hits'' ''int_incr'' [] RNil 0)"
  let ?g = "\<lparr>sf_type = ''ack'', sf_topic = ''int/hits'', sf_event = None, sf_state = RNil, sf_last_seq = 3,
    sf_missed = 0, sf_msg = [], sf_req_id = req_id 1\<rparr>"
  obtain c1 where c1: "client_request ?f demo_client = Some (1, c1)"
    by (auto simp: client_request_def Let_def client_send_def demo_client_def client_register_def
        with_reconnect_def client_new_def send_buf_def)
  show ?thesis
    using client_responses[OF demo_client_history c1, of "[]" ?g "[]"] c1
    by (auto simp: answers_def client_publish_def)
qed

text \<open>After \<open>k\<close> failed dials in a row the client waits the initial backoff doubled \<open>k\<close> times, but no
  more than the maximum, and a dial that succeeds resets it.\<close>

lemma client_backoff:
  assumes "0 < sint (cl_backoff_initial c)" "sint (cl_backoff_initial c) \<le> sint (cl_backoff_max c)"
    and "sint (cl_backoff_max c) < 2 ^ 62"
  shows "\<exists>b. client_run (replicate k (EvDial False)) (RunWait (cl_backoff_initial c), c) = Some (RunWait b, c)
    \<and> sint b = min (sint (cl_backoff_initial c) * 2 ^ k) (sint (cl_backoff_max c))
    \<and> (\<forall>c1. resubscribe_all c = Some c1 \<longrightarrow>
         client_run_step (EvDial True) (RunWait b, c) = Some (RunLive (cl_backoff_initial c), c1))"
proof -
  have "\<exists>b'. client_run (replicate k (EvDial False)) (RunWait b, c) = Some (RunWait b', c)
      \<and> sint b' = min (sint b * 2 ^ k) (sint (cl_backoff_max c))"
    if "0 < sint b" "sint b \<le> sint (cl_backoff_max c)" for b
    using that
  proof (induction k arbitrary: b)
    case (Suc k)
    let ?b = "min_duration (b * 2) (cl_backoff_max c)"
    have b: "sint ?b = min (2 * sint b) (sint (cl_backoff_max c))"
      using Suc.prems assms(3) by (simp add: sint_min_duration sint_double)
    then have "0 < sint ?b" "sint ?b \<le> sint (cl_backoff_max c)" using Suc.prems by simp_all
    from Suc.IH[OF this] obtain b' where
      "client_run (replicate k (EvDial False)) (RunWait ?b, c) = Some (RunWait b', c)"
      "sint b' = min (sint ?b * 2 ^ k) (sint (cl_backoff_max c))" by blast
    moreover have "min (sint ?b * 2 ^ k) (sint (cl_backoff_max c)) = min (sint b * 2 ^ Suc k) (sint (cl_backoff_max c))"
      using min_scaled[of "sint (cl_backoff_max c)" "2 * sint b" k] Suc.prems unfolding b by (simp add: mult_ac)
    ultimately show ?case by simp
  qed auto
  from this[OF assms(1,2)] show ?thesis by fastforce
qed

lemma client_backoff_example:
  "\<exists>b. client_run (replicate 9 (EvDial False)) (RunWait (cl_backoff_initial client_new), client_new) = Some (RunWait b, client_new)
    \<and> sint b = sint (millis 30000)"
proof -
  have m: "sint (millis 100) = 100000000" "sint (millis 30000) = 30000000000"
    by (simp_all add: millis_def sint_i64_of_int in_i64_def)
  show ?thesis using client_backoff[of client_new 9] m by (auto simp: client_new_def)
qed

text \<open>The resubscription of a new connection, which runs before the writer that empties the queue,
  gets through exactly when a frame for every topic fits the queue of 256; otherwise an open client
  never gets on with that connection.\<close>

lemma resubscribe_returns:
  assumes "\<not> cl_closed c" "length (cl_send c) \<le> send_buf"
  shows "client_run_step (EvDial True) (RunWait b, c) \<noteq> None \<longleftrightarrow>
    length (cl_send c) + size (fmdom (cl_topics c)) \<le> 256"
  using client_send_all_open[OF assms, of "resubscribe_frames c"]
  by (simp add: resubscribe_all_def resubscribe_frames_def length_fm_items send_buf_def)

lemma resubscribe_returns_example:
  "client_run_step (EvDial True) (RunWait 1, demo_client) \<noteq> None"
proof -
  have "length (cl_send demo_client) = 0" "size (fmdom (cl_topics demo_client)) = 1" "\<not> cl_closed demo_client"
    by (simp_all add: demo_client_def client_register_def with_reconnect_def client_new_def Let_def)
  then show ?thesis using resubscribe_returns[of demo_client 1] by (simp add: send_buf_def)
qed

text \<open>A frame queued while the loop waits for the writer of a dead connection is lost with it.\<close>

lemma drain_loses_frame:
  "client_run_step EvWriteFrame (RunDrain b, c\<lparr>cl_send := f # fs\<rparr>) = Some (RunWait b, c\<lparr>cl_send := fs\<rparr>)"
  by simp

text \<open>
  A subscription by one goroutine between the two halves of the last close by another: the frames
  reach the queue in the order subscribe, unsubscribe, and the server, which refuses the first and
  obeys the second, is left without the subscription the client believes it has.
\<close>

lemma subscribe_close_race:
  assumes "client_unregister ''int/hits'' 1 demo_client = (fs1, c1)"
    and "client_register ''int/hits'' Latest c1 = (cid, fs2, c2)"
  shows "map cf_op (fs2 @ fs1) = [''subscribe'', ''unsubscribe'']
    \<and> (\<exists>ts. fmlookup (cl_topics c2) ''int/hits'' = Some ts \<and> ts_callbacks ts = [2])"
  using assms
  by (auto simp: demo_client_def client_register_def client_unregister_def with_reconnect_def client_new_def Let_def)

end
