(* ===== verification/Delivery.thy ===== *)
theory Delivery
  imports BrokerModel
begin

text \<open>
  What one subscriber of one topic sees while publishers, other subscribers and its own session run
  interleaved. A publish is two steps, the store half and the hub half (\<open>Broker.Publish\<close> holds its
  lock across both, so at most one is pending); a subscription is three: \<open>Hub.Subscribe\<close>, the read
  of the backfill, and then the forwarder's receives (\<open>Broker.Subscribe\<close> and \<open>wsSession.forward\<close>).
  Any number of steps of the others may come between any two of them.

  \<open>delivery_in_order\<close>: the client never sees an event twice, out of order, or altered.
  \<open>delivery_complete\<close>: as long as the hub dropped nothing for it, the client sees every event from
  the first one it is given, without a gap at the seam of backfill and live events. Deleting the
  topic during the subscription restarts its numbering and is left out of these runs.
\<close>

section \<open>The runs\<close>

text \<open>The forwarder's filter: an event the backfill already has is dropped.\<close>

definition forward_event :: "nat \<Rightarrow> event \<Rightarrow> event list" where
  "forward_event fence e = (if ev_seq e \<le> fence then [] else [e])"

text \<open>
  \<open>dy_pending\<close>: the publish between its halves; \<open>dy_read\<close>: backfill and fence once read;
  \<open>dy_recv\<close>: the events taken from the channel; \<open>dy_out\<close>: those sent on to the client.
\<close>

record 's delivery =
  dy_broker :: "'s broker"
  dy_pending :: "(string \<times> string \<times> event \<times> raw) option"
  dy_sub :: "nat option"
  dy_read :: "(event list \<times> nat) option"
  dy_recv :: "event list"
  dy_out :: "event list"

definition delivery_start :: "'s broker \<Rightarrow> 's delivery" where
  "delivery_start b = \<lparr>dy_broker = b, dy_pending = None, dy_sub = None, dy_read = None, dy_recv = [], dy_out = []\<rparr>"

text \<open>A step of somebody else on the hub: anything but a publish, or a touch of our subscription.\<close>

fun foreign_op :: "nat option \<Rightarrow> hub_op \<Rightarrow> bool" where
  "foreign_op i (OpSubscribe t) = True"
| "foreign_op i (OpClose j) = (i \<noteq> Some j)"
| "foreign_op i (OpRecv j) = (i \<noteq> Some j)"
| "foreign_op i (OpPublish e) = False"

inductive dstep :: "string \<Rightarrow> from_spec \<Rightarrow> 's delivery \<Rightarrow> 's delivery \<Rightarrow> bool" for t "from" where
  ds_ingest: "dy_pending d = None \<Longrightarrow> validate_topic (ev_topic e) = None \<Longrightarrow> ev_type e \<noteq> [] \<Longrightarrow>
    parse_object_type (ev_topic e) = Inr ot \<Longrightarrow>
    broker_ingest now rid ot e (dy_broker d) = (Inr (n, e', next), b') \<Longrightarrow>
    dstep t from d (d\<lparr>dy_broker := b', dy_pending := Some (ot, source, e', next)\<rparr>)"
| ds_fanout: "dy_pending d = Some (ot, source, e', next) \<Longrightarrow>
    dstep t from d (d\<lparr>dy_broker := broker_fanout ot source e' next (dy_broker d), dy_pending := None\<rparr>)"
| ds_open: "dy_sub d = None \<Longrightarrow> hub_subscribe t (br_hub (dy_broker d)) = (i, h) \<Longrightarrow>
    dstep t from d (d\<lparr>dy_broker := (dy_broker d)\<lparr>br_hub := h\<rparr>, dy_sub := Some i\<rparr>)"
| ds_read: "dy_sub d = Some i \<Longrightarrow> dy_read d = None \<Longrightarrow>
    read_backfill (br_ops (dy_broker d)) t from (br_store (dy_broker d)) = Inr es \<Longrightarrow>
    dstep t from d (d\<lparr>dy_read := Some (es, fence_of es)\<rparr>)"
| ds_forward: "dy_sub d = Some i \<Longrightarrow> dy_read d = Some (es, fence) \<Longrightarrow>
    hub_recv i (br_hub (dy_broker d)) = Some (e, h) \<Longrightarrow>
    dstep t from d (d\<lparr>dy_broker := (dy_broker d)\<lparr>br_hub := h\<rparr>, dy_recv := dy_recv d @ [e],
                      dy_out := dy_out d @ forward_event fence e\<rparr>)"
| ds_foreign: "foreign_op (dy_sub d) op \<Longrightarrow>
    dstep t from d (d\<lparr>dy_broker := (dy_broker d)\<lparr>br_hub := hub_exec op (br_hub (dy_broker d))\<rparr>\<rparr>)"

inductive dreachable :: "string \<Rightarrow> from_spec \<Rightarrow> 's broker \<Rightarrow> 's delivery \<Rightarrow> bool" for t "from" b where
  dr_start: "dreachable t from b (delivery_start b)"
| dr_step: "dreachable t from b d \<Longrightarrow> dstep t from d d' \<Longrightarrow> dreachable t from b d'"

section \<open>What the subscription holds\<close>

text \<open>
  Of a log \<open>l\<close> whose first \<open>f\<close> events are fanned out, a subscription opened after \<open>m\<close> of them has
  received and still holds, in order, events \<open>m + 1\<close> to \<open>f\<close>, short of its lag.
\<close>

definition sub_view :: "string \<Rightarrow> nat \<Rightarrow> nat \<Rightarrow> event list \<Rightarrow> event list \<Rightarrow> subscription \<Rightarrow> bool" where
  "sub_view t m f l rcv s \<longleftrightarrow>
     \<not> sub_closed s \<and> sub_topic s = t \<and> m \<le> f \<and> f \<le> length l
     \<and> subseq (map ev_seq (rcv @ sub_chan s)) [Suc m ..< Suc f]
     \<and> length (rcv @ sub_chan s) + sub_lag s = f - m
     \<and> (\<forall>e \<in> set (rcv @ sub_chan s). \<exists>r. e = (l ! (ev_seq e - 1))\<lparr>ev_state := r\<rparr>)"

lemma subseq_set: "subseq xs ys \<Longrightarrow> set xs \<subseteq> set ys"
  by (auto dest: list_emb_set)

lemma sub_view_step:
  assumes v: "sub_view t m f l rcv s"
    and s': "\<not> sub_closed s'" "sub_topic s' = sub_topic s"
      "subseq (got @ sub_chan s') (sub_chan s @ pub)"
      "length (got @ sub_chan s') + sub_lag s' = length (sub_chan s @ pub) + sub_lag s"
    and pub: "map ev_seq pub = [Suc f ..< Suc f']" "f \<le> f'" "f' \<le> length l"
      "\<And>e. e \<in> set pub \<Longrightarrow> \<exists>r. e = (l ! (ev_seq e - 1))\<lparr>ev_state := r\<rparr>"
  shows "sub_view t m f' l (rcv @ got) s'"
proof -
  have sub: "subseq ((rcv @ got) @ sub_chan s') ((rcv @ sub_chan s) @ pub)"
    using s'(3) by (simp only: append_assoc subseq_append')
  have "subseq (map ev_seq ((rcv @ got) @ sub_chan s')) (map ev_seq ((rcv @ sub_chan s) @ pub))"
    by (rule subseq_map[OF sub])
  also have "subseq (map ev_seq ((rcv @ sub_chan s) @ pub)) ([Suc m ..< Suc f] @ [Suc f ..< Suc f'])"
    using v pub(1) unfolding map_append sub_view_def by (intro list_emb_append_mono) auto
  also have "[Suc m ..< Suc f] @ [Suc f ..< Suc f'] = [Suc m ..< Suc f']"
    using v pub(2) upt_add_eq_append[of "Suc m" "Suc f" "f' - f"] by (simp add: sub_view_def del: upt_Suc)
  finally have seqs: "subseq (map ev_seq ((rcv @ got) @ sub_chan s')) [Suc m ..< Suc f']" .
  have "length pub = f' - f" using arg_cong[OF pub(1), of length] by (simp del: upt_Suc)
  moreover have "length rcv + length (sub_chan s) + sub_lag s = f - m" "m \<le> f"
    using v by (simp_all add: sub_view_def)
  ultimately have len: "length ((rcv @ got) @ sub_chan s') + sub_lag s' = f' - m"
    using s'(4) pub(2) by simp
  have "\<exists>r. e = (l ! (ev_seq e - 1))\<lparr>ev_state := r\<rparr>" if "e \<in> set ((rcv @ got) @ sub_chan s')" for e
    using subseq_set[OF sub] that v pub(4) unfolding sub_view_def by fastforce
  then show ?thesis
    using v s'(1,2) seqs len pub(2,3) unfolding sub_view_def by auto
qed

lemma sub_view_seqs:
  assumes "sub_view t m f l rcv s" "e \<in> set (rcv @ sub_chan s)"
  shows "m < ev_seq e \<and> ev_seq e \<le> f"
proof -
  have "set (map ev_seq (rcv @ sub_chan s)) \<subseteq> {Suc m ..< Suc f}"
    using assms(1) subseq_set unfolding sub_view_def by (metis set_upt)
  then have "ev_seq e \<in> {Suc m ..< Suc f}" using assms(2) by force
  then show ?thesis by simp
qed

lemma sub_view_grow:
  assumes "sub_view t m f l rcv s"
  shows "sub_view t m f (l @ l') rcv s"
proof -
  have "\<exists>r. e = ((l @ l') ! (ev_seq e - 1))\<lparr>ev_state := r\<rparr>" if "e \<in> set (rcv @ sub_chan s)" for e
  proof -
    have "ev_seq e - 1 < length l"
      using sub_view_seqs[OF assms that] assms by (auto simp: sub_view_def)
    then show ?thesis using assms that unfolding sub_view_def by (simp add: nth_append)
  qed
  then show ?thesis using assms unfolding sub_view_def by simp
qed

lemma sub_view_full:
  assumes "sub_view t m f l rcv s" "sub_lag s = 0"
  shows "map ev_seq (rcv @ sub_chan s) = [Suc m ..< Suc f]"
proof -
  have "length (map ev_seq (rcv @ sub_chan s)) = length [Suc m ..< Suc f]"
    using assms by (simp add: sub_view_def del: upt_Suc)
  then show ?thesis using assms(1) subseq_same_length unfolding sub_view_def by blast
qed

text \<open>
  \<open>seen\<close>: the session's part of the state, against the log \<open>l\<close>, the number \<open>f\<close> of its events that
  are fanned out, and the hub. The backfill is the end of the log as it stood at some time after
  the subscription was opened.
\<close>

definition seen ::
    "string \<Rightarrow> event list \<Rightarrow> nat \<Rightarrow> hub \<Rightarrow> nat option \<Rightarrow> (event list \<times> nat) option \<Rightarrow> event list \<Rightarrow> event list \<Rightarrow> bool" where
  "seen t l f h sub rd rcv out \<longleftrightarrow>
     (case sub of
        None \<Rightarrow> rcv = [] \<and> rd = None \<and> out = []
      | Some i \<Rightarrow>
          (\<exists>s m. fmlookup (hub_subs h) i = Some s \<and> sub_view t m f l rcv s
            \<and> (case rd of
                 None \<Rightarrow> rcv = [] \<and> out = []
               | Some (es, fence) \<Rightarrow>
                   fence = fence_of es \<and> out = filter (\<lambda>e. fence < ev_seq e) rcv
                   \<and> (\<exists>n. m \<le> n \<and> n \<le> length l \<and> suffix es (take n l)))))"

text \<open>A step of the hub: one that does not concern the subscription, or the fan-out of event \<open>f + 1\<close>.\<close>

lemma seen_exec:
  assumes "hub_inv h" "seen t l f h sub rd rcv out"
    and op: "\<And>i. sub = Some i \<Longrightarrow> op \<noteq> OpClose i \<and> op \<noteq> OpRecv i"
    and pub: "map ev_seq (op_published t op) = [Suc f ..< Suc f']" "f \<le> f'" "f' \<le> length l"
      "\<And>e. e \<in> set (op_published t op) \<Longrightarrow> \<exists>r. e = (l ! (ev_seq e - 1))\<lparr>ev_state := r\<rparr>"
  shows "seen t l f' (hub_exec op h) sub rd rcv out"
proof (cases sub)
  case None
  with assms(2) show ?thesis by (simp add: seen_def)
next
  case (Some i)
  then obtain s m where s: "fmlookup (hub_subs h) i = Some s" "sub_view t m f l rcv s"
    and r: "case rd of None \<Rightarrow> rcv = [] \<and> out = []
      | Some (es, fence) \<Rightarrow> fence = fence_of es \<and> out = filter (\<lambda>e. fence < ev_seq e) rcv
          \<and> (\<exists>n. m \<le> n \<and> n \<le> length l \<and> suffix es (take n l))"
    using assms(2) by (auto simp: seen_def)
  have op': "op \<noteq> OpClose i" "op_received i op h = []" using op[OF Some] by (cases op; auto)+
  have st: "sub_topic s = t" "\<not> sub_closed s" using s(2) by (simp_all add: sub_view_def)
  obtain s' where s': "fmlookup (hub_subs (hub_exec op h)) i = Some s'" "\<not> sub_closed s'"
      "sub_topic s' = sub_topic s" "subseq ([] @ sub_chan s') (sub_chan s @ op_published t op)"
      "length ([] @ sub_chan s') + sub_lag s' = length (sub_chan s @ op_published t op) + sub_lag s"
    using hub_exec_sub[OF assms(1) s(1) st(2) op'(1)] st(1) op'(2) by auto
  have "sub_view t m f' l (rcv @ []) s'"
    by (rule sub_view_step[OF s(2) s'(2-5) pub])
  then show ?thesis using Some s'(1) r by (auto simp: seen_def)
qed

lemma seen_grow: "seen t l f h sub rd rcv out \<Longrightarrow> seen t (l @ l') f h sub rd rcv out"
proof (cases sub)
  case (Some i)
  assume "seen t l f h sub rd rcv out"
  then obtain s m where s: "fmlookup (hub_subs h) i = Some s" "sub_view t m f l rcv s"
    and r: "case rd of None \<Rightarrow> rcv = [] \<and> out = []
      | Some (es, fence) \<Rightarrow> fence = fence_of es \<and> out = filter (\<lambda>e. fence < ev_seq e) rcv
          \<and> (\<exists>n. m \<le> n \<and> n \<le> length l \<and> suffix es (take n l))"
    using Some by (auto simp: seen_def)
  have "take n (l @ l') = take n l" if "n \<le> length l" for n using that by simp
  then have "case rd of None \<Rightarrow> rcv = [] \<and> out = []
      | Some (es, fence) \<Rightarrow> fence = fence_of es \<and> out = filter (\<lambda>e. fence < ev_seq e) rcv
          \<and> (\<exists>n. m \<le> n \<and> n \<le> length (l @ l') \<and> suffix es (take n (l @ l')))"
    using r by (cases rd) (fastforce simp del: take_append)+
  with s(1) sub_view_grow[OF s(2)] Some show ?thesis by (auto simp: seen_def)
qed (simp add: seen_def)

lemma seen_open:
  assumes "f \<le> length l" "seen t l f h None rd rcv out"
  shows "seen t l f (snd (hub_subscribe t h)) (Some (fst (hub_subscribe t h))) rd rcv out"
  using assms by (auto simp: seen_def sub_view_def hub_simps)

lemma seen_read:
  assumes "seen t l f h (Some i) None rcv out" "suffix es l"
  shows "seen t l f h (Some i) (Some (es, fence_of es)) rcv out"
proof -
  obtain s m where s: "fmlookup (hub_subs h) i = Some s" "sub_view t m f l rcv s" "rcv = []" "out = []"
    using assms(1) by (auto simp: seen_def)
  then have "m \<le> length l" by (simp add: sub_view_def)
  then have "\<exists>n. m \<le> n \<and> n \<le> length l \<and> suffix es (take n l)"
    using assms(2) by (intro exI[of _ "length l"]) simp
  with s show ?thesis by (auto simp: seen_def)
qed

lemma seen_recv:
  assumes "hub_inv h" "seen t l f h (Some i) (Some (es, fence)) rcv out" "hub_recv i h = Some (e, h')"
  shows "seen t l f h' (Some i) (Some (es, fence)) (rcv @ [e]) (out @ forward_event fence e)"
proof -
  obtain s m where s: "fmlookup (hub_subs h) i = Some s" "sub_view t m f l rcv s"
    and r: "fence = fence_of es" "out = filter (\<lambda>e. fence < ev_seq e) rcv"
      "\<exists>n. m \<le> n \<and> n \<le> length l \<and> suffix es (take n l)"
    using assms(2) by (auto simp: seen_def)
  have st: "sub_topic s = t" "\<not> sub_closed s" using s(2) by (simp_all add: sub_view_def)
  obtain s' where s': "fmlookup (hub_subs h') i = Some s'" "\<not> sub_closed s'" "sub_topic s' = sub_topic s"
      "subseq ([e] @ sub_chan s') (sub_chan s @ [])"
      "length ([e] @ sub_chan s') + sub_lag s' = length (sub_chan s @ []) + sub_lag s"
    using hub_exec_sub[OF assms(1) s(1) st(2), of "OpRecv i"] assms(3) by auto
  have "sub_view t m f l (rcv @ [e]) s'"
    by (rule sub_view_step[OF s(2) s'(2-5)]) (use s(2) in \<open>simp_all add: sub_view_def\<close>)
  then show ?thesis using s'(1) r by (auto simp: seen_def forward_event_def)
qed

section \<open>The invariant\<close>

context local_store
begin

definition fanned where
  "fanned t d = length (log (br_store (dy_broker d)) t)
     - (case dy_pending d of Some (_, _, e, _) \<Rightarrow> if ev_topic e = t then 1 else 0 | None \<Rightarrow> 0)"

definition dinv where
  "dinv t d \<longleftrightarrow>
     hub_inv (br_hub (dy_broker d)) \<and> invar (br_store (dy_broker d)) \<and> br_ops (dy_broker d) = ops
     \<and> (\<forall>ot src e nx. dy_pending d = Some (ot, src, e, nx) \<longrightarrow>
          log (br_store (dy_broker d)) (ev_topic e) \<noteq> [] \<and> last (log (br_store (dy_broker d)) (ev_topic e)) = e)
     \<and> seen t (log (br_store (dy_broker d)) t) (fanned t d) (br_hub (dy_broker d))
         (dy_sub d) (dy_read d) (dy_recv d) (dy_out d)"

lemma dinv_start: "hub_inv (br_hub b) \<Longrightarrow> invar (br_store b) \<Longrightarrow> br_ops b = ops \<Longrightarrow> dinv t (delivery_start b)"
  by (simp add: dinv_def delivery_start_def seen_def)

text \<open>The pending event is the last of its topic's log, under the log's length as its number.\<close>

lemma pending_event:
  assumes "dinv t d" "dy_pending d = Some (ot, src, e, nx)"
  shows "ev_seq e = length (log (br_store (dy_broker d)) (ev_topic e))"
    and "log (br_store (dy_broker d)) (ev_topic e) \<noteq> []"
    and "e = log (br_store (dy_broker d)) (ev_topic e) ! (ev_seq e - 1)"
proof -
  let ?l = "log (br_store (dy_broker d)) (ev_topic e)"
  have l: "?l \<noteq> []" "last ?l = e" using assms unfolding dinv_def by blast+
  have "dense_log ?l" using dense assms(1) unfolding dinv_def by blast
  then have "ev_seq (?l ! (length ?l - 1)) = Suc (length ?l - 1)" using l(1) by (intro dense_log_nth) auto
  then show e: "ev_seq e = length ?l" using l by (simp add: last_conv_nth)
  show "?l \<noteq> []" by (rule l(1))
  show "e = ?l ! (ev_seq e - 1)" using l e by (simp add: last_conv_nth)
qed

lemma dinv_step:
  assumes "dstep t from d d'" "dinv t d"
  shows "dinv t d'"
  using assms
proof (induction rule: dstep.induct)
  case (ds_ingest d e ot now rid n e' nx b' source)
  have D: "invar (br_store (dy_broker d))" "br_ops (dy_broker d) = ops"
    using ds_ingest.prems by (simp_all add: dinv_def)
  have sp: "invar (br_store b')" "e' = stamp_event now rid n e"
    "log (br_store b') = (log (br_store (dy_broker d)))(ev_topic e := log (br_store (dy_broker d)) (ev_topic e) @ [e'])"
    using ingest_spec[OF D, of now rid ot e] ds_ingest.hyps(5) by auto
  have fr: "br_hub b' = br_hub (dy_broker d)" "br_ops b' = br_ops (dy_broker d)"
    using broker_ingest_frame[of now rid ot e "dy_broker d"] ds_ingest.hyps(5) by simp_all
  have f: "fanned t (d\<lparr>dy_broker := b', dy_pending := Some (ot, source, e', nx)\<rparr>) = fanned t d"
    using ds_ingest.hyps(1) sp by (simp add: fanned_def)
  have "seen t (log (br_store b') t) (fanned t d) (br_hub (dy_broker d)) (dy_sub d) (dy_read d) (dy_recv d) (dy_out d)"
    using ds_ingest.prems sp(3) by (auto simp: dinv_def intro: seen_grow)
  then show ?case using ds_ingest.prems D sp fr f by (simp add: dinv_def)
next
  case (ds_fanout d ot source e' nx)
  let ?l = "log (br_store (dy_broker d))"
  have D: "hub_inv (br_hub (dy_broker d))" "seen t (?l t) (fanned t d) (br_hub (dy_broker d))
      (dy_sub d) (dy_read d) (dy_recv d) (dy_out d)"
    using ds_fanout.prems by (simp_all add: dinv_def)
  note P = pending_event[OF ds_fanout.prems ds_fanout.hyps]
  let ?op = "OpPublish (e'\<lparr>ev_state := nx\<rparr>)" and ?f' = "length (?l t)"
  have pub: "map ev_seq (op_published t ?op) = [Suc (fanned t d) ..< Suc ?f']"
    and eq: "x \<in> set (op_published t ?op) \<Longrightarrow> x = e'\<lparr>ev_state := nx\<rparr> \<and> ev_topic e' = t" for x
    using P ds_fanout.hyps by (auto simp: fanned_def upt_conv_Cons simp del: upt_Suc split: if_splits)
  have "seen t (?l t) ?f' (hub_exec ?op (br_hub (dy_broker d))) (dy_sub d) (dy_read d) (dy_recv d) (dy_out d)"
  proof (rule seen_exec[OF D _ pub])
    show "\<exists>r. x = (?l t ! (ev_seq x - 1))\<lparr>ev_state := r\<rparr>" if "x \<in> set (op_published t ?op)" for x
      using eq[OF that] P(3) by (metis event.select_convs(4) event.update_convs(8) event.surjective)
  qed (simp_all add: fanned_def)
  then show ?case
    using ds_fanout.prems hub_exec_inv[OF D(1), of ?op] by (simp add: dinv_def fanned_def)
next
  case (ds_open d i h)
  have "fanned t d \<le> length (log (br_store (dy_broker d)) t)" by (simp add: fanned_def)
  then show ?case
    using ds_open hub_inv_subscribe[of "br_hub (dy_broker d)" t]
      seen_open[of "fanned t d" "log (br_store (dy_broker d)) t" t "br_hub (dy_broker d)"]
    by (simp add: dinv_def fanned_def)
next
  case (ds_read d i es)
  have D: "invar (br_store (dy_broker d))" "br_ops (dy_broker d) = ops"
    using ds_read.prems by (simp_all add: dinv_def)
  have "dense_log (log (br_store (dy_broker d)) t)" using dense D(1) by blast
  then have "suffix es (log (br_store (dy_broker d)) t)"
    using ds_read.hyps(3) read_ok[OF D(1), of t "fr_value from" 0 es] latest_suffix[OF D(1), of t _ es] D(2)
    by (cases "fr_kind from") (auto simp: read_backfill_def dense_log_filter_ge suffix_drop)
  then show ?case
    using ds_read seen_read by (simp add: dinv_def fanned_def)
next
  case (ds_forward d i es fence e h)
  then show ?case
    using seen_recv hub_inv_recv by (fastforce simp: dinv_def fanned_def)
next
  case (ds_foreign d op)
  have D: "hub_inv (br_hub (dy_broker d))" "seen t (log (br_store (dy_broker d)) t) (fanned t d) (br_hub (dy_broker d))
      (dy_sub d) (dy_read d) (dy_recv d) (dy_out d)"
    using ds_foreign.prems by (simp_all add: dinv_def)
  have op: "op_published t op = []" "\<And>i. dy_sub d = Some i \<Longrightarrow> op \<noteq> OpClose i \<and> op \<noteq> OpRecv i"
    using ds_foreign.hyps by (cases op; auto)+
  have "seen t (log (br_store (dy_broker d)) t) (fanned t d) (hub_exec op (br_hub (dy_broker d)))
      (dy_sub d) (dy_read d) (dy_recv d) (dy_out d)"
    by (rule seen_exec[OF D op(2)]) (simp_all add: op(1) fanned_def)
  then show ?case
    using ds_foreign.prems hub_exec_inv[OF D(1), of op] by (simp add: dinv_def fanned_def)
qed

lemma dinv_reachable:
  assumes "dreachable t from b d" "hub_inv (br_hub b)" "invar (br_store b)" "br_ops b = ops"
  shows "dinv t d"
  using assms(1)
proof (induction rule: dreachable.induct)
  case dr_start
  show ?case by (rule dinv_start[OF assms(2-4)])
next
  case (dr_step d d')
  then show ?case using dinv_step by blast
qed

end

section \<open>What the client sees\<close>

lemma filter_gt_upt: "m \<le> n \<Longrightarrow> filter (\<lambda>x. n < x) [Suc m ..< Suc f] = [Suc n ..< Suc f]"
  by (induction f) (auto simp: le_less_Suc_eq)

lemma map_filter_seq: "map ev_seq (filter (\<lambda>e. P (ev_seq e)) es) = filter P (map ev_seq es)"
  by (induction es) auto

lemma suffix_dense:
  assumes "dense_log l" "n \<le> length l" "suffix es (take n l)"
  shows "map ev_seq es = [Suc (n - length es) ..< Suc n]" "length es \<le> n"
    "\<And>e. e \<in> set es \<Longrightarrow> e = l ! (ev_seq e - 1)"
    "es \<noteq> [] \<Longrightarrow> fence_of es = n"
proof -
  obtain ys where ys: "take n l = ys @ es" using assms(3) by (auto simp: suffix_def)
  then have len: "length ys + length es = n" using assms(2) by (metis length_append length_take min.absorb2)
  then show "length es \<le> n" by simp
  have nth: "es ! i = l ! (length ys + i)" if "i < length es" for i
    using ys that len by (metis nth_append_length_plus nth_take add_less_cancel_left)
  have seq: "ev_seq (es ! i) = Suc (length ys + i)" if "i < length es" for i
    using nth[OF that] dense_log_nth[OF assms(1)] that len assms(2) by simp
  show M: "map ev_seq es = [Suc (n - length es) ..< Suc n]"
    using len seq by (intro nth_equalityI) (auto simp: nth_upt simp del: upt_Suc)
  show "e = l ! (ev_seq e - 1)" if "e \<in> set es" for e
    using that nth seq by (auto simp: in_set_conv_nth)
  show "fence_of es = n" if "es \<noteq> []"
    using that seq[of "length es - 1"] len
    by (cases es rule: rev_cases) (simp_all add: fence_of_def)
qed

lemma subseq_sorted_wrt: "subseq xs ys \<Longrightarrow> sorted_wrt R ys \<Longrightarrow> sorted_wrt R xs"
  by (induction rule: list_emb.induct) (auto dest: list_emb_set)

lemma seen_in_order:
  assumes "dense_log l" "seen t l f h (Some i) (Some (es, fence)) rcv out"
  shows "sorted_wrt (<) (map ev_seq (es @ out))"
    and "\<And>e. e \<in> set (es @ out) \<Longrightarrow> 1 \<le> ev_seq e \<and> ev_seq e \<le> length l \<and> (\<exists>r. e = (l ! (ev_seq e - 1))\<lparr>ev_state := r\<rparr>)"
proof -
  obtain s m n where v: "sub_view t m f l rcv s" and r: "fence = fence_of es" "out = filter (\<lambda>e. fence < ev_seq e) rcv"
      "n \<le> length l" "suffix es (take n l)"
    using assms(2) by (auto simp: seen_def)
  note S = suffix_dense[OF assms(1) r(3,4)]
  have sub: "subseq (map ev_seq (rcv @ sub_chan s)) [Suc m ..< Suc f]" using v by (simp add: sub_view_def del: upt_Suc)
  have "subseq (map ev_seq rcv) (map ev_seq (rcv @ sub_chan s))"
    using list_emb_append2[of "(=)" "[]" "map ev_seq (sub_chan s)"] by (simp add: subseq_rev_drop_many)
  then have "subseq (map ev_seq rcv) [Suc m ..< Suc f]" using sub by (rule subseq_order.order_trans)
  then have "sorted_wrt (<) (map ev_seq rcv)"
    by (rule subseq_sorted_wrt) (rule sorted_wrt_upt)
  then have "sorted_wrt (<) (map ev_seq out)" using r(2) by (simp add: sorted_wrt_map sorted_wrt_filter)
  moreover have "sorted_wrt (<) (map ev_seq es)" using S(1) by (metis sorted_wrt_upt)
  moreover have "ev_seq x < ev_seq y" if "x \<in> set es" "y \<in> set out" for x y
  proof -
    have "ev_seq x \<in> set (map ev_seq es)" using that(1) by simp
    then have "ev_seq x \<le> n" unfolding S(1) by auto
    moreover have "fence = n" using S(4) r(1) that(1) by (cases es) simp_all
    ultimately show ?thesis using that(2) r(2) by simp
  qed
  ultimately show "sorted_wrt (<) (map ev_seq (es @ out))" by (auto simp: sorted_wrt_append)
  fix e assume "e \<in> set (es @ out)"
  then consider "e \<in> set es" | "e \<in> set rcv" using r(2) by auto
  then show "1 \<le> ev_seq e \<and> ev_seq e \<le> length l \<and> (\<exists>r. e = (l ! (ev_seq e - 1))\<lparr>ev_state := r\<rparr>)"
  proof cases
    case 1
    then have "ev_seq e \<in> set (map ev_seq es)" by simp
    then have "1 \<le> ev_seq e \<and> ev_seq e \<le> length l" unfolding S(1) using r(3) by auto
    moreover have "e = (l ! (ev_seq e - 1))\<lparr>ev_state := ev_state e\<rparr>" using S(3)[OF 1] by (metis event.surjective event.update_convs(8))
    ultimately show ?thesis by blast
  next
    case 2
    then show ?thesis using v sub_view_seqs[OF v, of e] by (auto simp: sub_view_def)
  qed
qed

lemma seen_complete:
  assumes "dense_log l" "seen t l f h (Some i) (Some (es, fence)) rcv out"
    and "fmlookup (hub_subs h) i = Some s" "sub_lag s = 0"
  defines "stream \<equiv> es @ out @ filter (\<lambda>e. fence < ev_seq e) (sub_chan s)"
  shows "\<exists>a. seq_run a (map ev_seq stream) \<and> (es \<noteq> [] \<longrightarrow> a = ev_seq (hd es)) \<and> (f = length l \<longrightarrow> a + length stream = Suc f)"
proof -
  obtain m n where v: "sub_view t m f l rcv s" and r: "fence = fence_of es" "out = filter (\<lambda>e. fence < ev_seq e) rcv"
      "m \<le> n" "n \<le> length l" "suffix es (take n l)"
    using assms(2,3) by (auto simp: seen_def)
  note S = suffix_dense[OF assms(1) r(4,5)]
  have mf: "m \<le> f" using v by (simp add: sub_view_def)
  have "map ev_seq (out @ filter (\<lambda>e. fence < ev_seq e) (sub_chan s)) = filter (\<lambda>x. fence < x) (map ev_seq (rcv @ sub_chan s))"
    using r(2) map_filter_seq[of "\<lambda>x. fence < x" "rcv @ sub_chan s"] by simp
  also have "\<dots> = filter (\<lambda>x. fence < x) [Suc m ..< Suc f]" by (simp only: sub_view_full[OF v assms(4)])
  finally have live: "map ev_seq (out @ filter (\<lambda>e. fence < ev_seq e) (sub_chan s)) = filter (\<lambda>x. fence < x) [Suc m ..< Suc f]" .
  show ?thesis
  proof (cases "es = []")
    case True
    then have "map ev_seq stream = [Suc m ..< Suc f]"
      using live r(1) by (simp add: stream_def fence_of_def filter_id_conv del: upt_Suc)
    moreover then have "length stream = f - m" by (metis length_map length_upt diff_Suc_Suc)
    ultimately show ?thesis using True mf by (intro exI[of _ "Suc m"]) (simp del: upt_Suc)
  next
    case False
    let ?a = "Suc (n - length es)"
    have "map ev_seq stream = [?a ..< Suc n] @ [Suc n ..< Suc f]"
      using live S(1) S(4)[OF False] r(1) filter_gt_upt[OF r(3), of f] by (simp add: stream_def del: upt_Suc)
    moreover have "[?a ..< Suc n] @ [Suc n ..< Suc f] = [?a ..< max (Suc n) (Suc f)]"
      using upt_add_eq_append[of ?a "Suc n" "f - n"] by (cases "n \<le> f") (simp_all add: max_def del: upt_Suc)
    ultimately have M: "map ev_seq stream = [?a ..< max (Suc n) (Suc f)]" by simp
    have hd: "ev_seq (hd es) = ?a"
      using arg_cong[OF S(1), of hd] False S(2) by (cases es) (simp_all add: hd_map upt_conv_Cons del: upt_Suc)
    have len: "length stream = max (Suc n) (Suc f) - ?a" using arg_cong[OF M, of length] by (simp del: upt_Suc)
    have "f = length l \<longrightarrow> ?a + length stream = Suc f" using len r(4) S(2) by (auto simp: max_def)
    then show ?thesis using M hd by (intro exI[of _ ?a]) (simp del: upt_Suc)
  qed
qed

lemma delivery_seen:
  assumes "broker_reachable (memory_broker reg ttl) b" "dreachable t from b d"
  shows "mem.dinv t d" "dense_log (mem_log (br_store (dy_broker d)) t)"
proof -
  show I: "mem.dinv t d"
    using mem.dinv_reachable[OF assms(2)] memory_broker_reachable[OF assms(1)] memory_broker_hub[OF assms(1)] by blast
  then show "dense_log (mem_log (br_store (dy_broker d)) t)" using mem.dense unfolding mem.dinv_def by blast
qed

text \<open>A run for the witnesses: a subscription to the demo broker's topic from its first event, read.\<close>

definition demo_opened :: "mem_store delivery" where
  "demo_opened = (delivery_start demo_broker)\<lparr>
     dy_broker := demo_broker\<lparr>br_hub := snd (hub_subscribe ''int/hits'' (br_hub demo_broker))\<rparr>,
     dy_sub := Some (fst (hub_subscribe ''int/hits'' (br_hub demo_broker)))\<rparr>"

definition demo_read :: "mem_store delivery" where
  "demo_read = demo_opened\<lparr>dy_read := Some ([stamp_event 8 ''a'' 1 incr_event, stamp_event 9 ''b'' 2 incr_event], 2)\<rparr>"

lemma demo_read_reachable: "dreachable ''int/hits'' (Seq 1) demo_broker demo_read"
proof -
  let ?es = "[stamp_event 8 ''a'' 1 incr_event, stamp_event 9 ''b'' 2 incr_event]"
  have "dreachable ''int/hits'' (Seq 1) demo_broker demo_opened"
    using dr_step[OF dr_start ds_open[where d = "delivery_start demo_broker"]]
    by (simp add: delivery_start_def demo_opened_def)
  moreover have "read_backfill (br_ops (dy_broker demo_opened)) ''int/hits'' (Seq 1) (br_store (dy_broker demo_opened)) = Inr ?es"
    using memory_broker_reachable[OF demo_broker_reachable] demo_broker_log
    by (simp add: read_backfill_def Seq_def demo_opened_def delivery_start_def mem_read_eq)
  ultimately have "dreachable ''int/hits'' (Seq 1) demo_broker (demo_opened\<lparr>dy_read := Some (?es, fence_of ?es)\<rparr>)"
    by (intro dr_step[OF _ ds_read]) (simp_all add: demo_opened_def delivery_start_def)
  then show ?thesis by (simp add: demo_read_def fence_of_def)
qed

text \<open>C4: in every interleaving of publishes, other subscribers and the session's own steps, what the
  client has been sent, backfill first, is strictly increasing in sequence numbers, so that nothing
  comes twice or out of order, and each event is the one the topic's log holds under its number,
  with at most the state attached.\<close>

theorem delivery_in_order:
  assumes "broker_reachable (memory_broker reg ttl) b" "dreachable t from b d"
    and "dy_sub d = Some i" "dy_read d = Some (es, fence)"
  shows "sorted_wrt (<) (map ev_seq (es @ dy_out d))
    \<and> (\<forall>e \<in> set (es @ dy_out d). 1 \<le> ev_seq e \<and> ev_seq e \<le> length (mem_log (br_store (dy_broker d)) t)
        \<and> (\<exists>r. e = (mem_log (br_store (dy_broker d)) t ! (ev_seq e - 1))\<lparr>ev_state := r\<rparr>))"
proof -
  note D = delivery_seen[OF assms(1,2)]
  have "seen t (mem_log (br_store (dy_broker d)) t) (mem.fanned t d) (br_hub (dy_broker d))
      (Some i) (Some (es, fence)) (dy_recv d) (dy_out d)"
    using D(1) assms(3,4) by (simp add: mem.dinv_def)
  from seen_in_order[OF D(2) this] show ?thesis by blast
qed

theorem delivery_in_order_witness:
  "\<exists>es fence. dy_read demo_read = Some (es, fence) \<and> sorted_wrt (<) (map ev_seq (es @ dy_out demo_read)) \<and> length es = 2"
proof -
  have r: "dy_sub demo_read = Some (fst (hub_subscribe ''int/hits'' (br_hub demo_broker)))"
    "dy_read demo_read = Some ([stamp_event 8 ''a'' 1 incr_event, stamp_event 9 ''b'' 2 incr_event], 2)"
    by (simp_all add: demo_read_def demo_opened_def)
  show ?thesis
    using delivery_in_order[OF demo_broker_reachable demo_read_reachable r] r(2) by auto
qed

text \<open>C3: while the hub has dropped nothing for the subscription, the client misses nothing: what it has
  been sent and what is still buffered for it past the fence is one gap-free run of sequence
  numbers, starting at the first event of the backfill when there is one, and when no publish is
  under way the run reaches the last event of the topic.\<close>

theorem delivery_complete:
  assumes "broker_reachable (memory_broker reg ttl) b" "dreachable t from b d"
    and "dy_sub d = Some i" "dy_read d = Some (es, fence)"
    and "fmlookup (hub_subs (br_hub (dy_broker d))) i = Some s" "sub_lag s = 0"
  shows "\<exists>a stream. stream = es @ dy_out d @ filter (\<lambda>e. fence < ev_seq e) (sub_chan s)
    \<and> seq_run a (map ev_seq stream)
    \<and> (es \<noteq> [] \<longrightarrow> a = ev_seq (hd es))
    \<and> (dy_pending d = None \<longrightarrow> a + length stream = Suc (length (mem_log (br_store (dy_broker d)) t)))"
proof -
  note D = delivery_seen[OF assms(1,2)]
  have S: "seen t (mem_log (br_store (dy_broker d)) t) (mem.fanned t d) (br_hub (dy_broker d))
      (Some i) (Some (es, fence)) (dy_recv d) (dy_out d)"
    using D(1) assms(3,4) by (simp add: mem.dinv_def)
  have "mem.fanned t d = length (mem_log (br_store (dy_broker d)) t)" if "dy_pending d = None"
    using that by (simp add: mem.fanned_def)
  with seen_complete[OF D(2) S assms(5,6)] show ?thesis by fastforce
qed

theorem delivery_complete_witness:
  "\<exists>es fence s. dy_read demo_read = Some (es, fence)
    \<and> fmlookup (hub_subs (br_hub (dy_broker demo_read))) (the (dy_sub demo_read)) = Some s
    \<and> seq_run 1 (map ev_seq (es @ dy_out demo_read @ filter (\<lambda>e. fence < ev_seq e) (sub_chan s))) \<and> length es = 2"
proof -
  let ?i = "fst (hub_subscribe ''int/hits'' (br_hub demo_broker))"
  let ?s = "\<lparr>sub_topic = ''int/hits'', sub_chan = [], sub_closed = False, sub_done = False, sub_lag = 0\<rparr>"
  have r: "dy_sub demo_read = Some ?i"
    "dy_read demo_read = Some ([stamp_event 8 ''a'' 1 incr_event, stamp_event 9 ''b'' 2 incr_event], 2)"
    by (simp_all add: demo_read_def demo_opened_def delivery_start_def)
  have s: "fmlookup (hub_subs (br_hub (dy_broker demo_read))) ?i = Some ?s"
    by (simp add: demo_read_def demo_opened_def hub_simps)
  show ?thesis
    using delivery_complete[OF demo_broker_reachable demo_read_reachable r s] r s by fastforce
qed

text \<open>Subscribing from a sequence number past the end of the topic gives no backfill and a fence of
  0, so the client is then sent every live event, those below the number it asked for included.\<close>

lemma subscribe_past_end:
  assumes "broker_reachable (memory_broker reg ttl) b" "validate_topic t = None"
    and "length (mem_log (br_store b) t) < k"
  shows "\<exists>i b'. broker_subscribe t (Seq k) b = (Inr (i, [], 0), b')
    \<and> (\<forall>e. 1 \<le> ev_seq e \<longrightarrow> forward_event 0 e = [e])"
proof -
  have R: "br_ops b = mem_ops" "mem_inv (br_store b)" using memory_broker_reachable[OF assms(1)] by auto
  have "drop (k - 1) (mem_log (br_store b) t) = []" using assms(3) by simp
  then have "read_backfill (br_ops b) t (Seq k) (br_store b) = Inr []"
    using mem_inv_log[OF R(2), of t] by (simp add: read_backfill_def Seq_def R(1) mem_read_eq[OF R(2)] dense_log_filter_ge)
  then show ?thesis
    using assms(2) by (auto simp: broker_subscribe_def Let_def case_prod_unfold fence_of_def forward_event_def)
qed

lemma subscribe_past_end_example:
  "\<exists>i b'. broker_subscribe ''int/hits'' (Seq 100) demo_broker = (Inr (i, [], 0), b')
    \<and> forward_event 0 (stamp_event 10 ''c'' 3 incr_event) = [stamp_event 10 ''c'' 3 incr_event]"
  using subscribe_past_end[OF demo_broker_reachable valid_int_hits(1), of 100] demo_broker_log by auto

end
