(* ===== verification/WsSession.thy ===== *)
theory WsSession
  imports Delivery
begin

text \<open>
  The WebSocket sessions of \<open>internal/transport/ws.go\<close>: the frames of the protocol, the bounded
  queue to the writer, the handlers of the client's operations, and the forwarder of each
  subscription. A handler is a function of the broker and the session; frames come in decoded, and go
  out of the queue by \<open>ws_write\<close>. \<open>WsConn\<close> has the connection around them and their interleaving. A forwarder that has been cancelled may still forward before it notices, as
  Go's \<open>select\<close> may: \<open>ws_forward\<close> is allowed until \<open>ws_forward_stop\<close>.

  The main results: a subscribe answers with the backfill and the acknowledgement in order
  (\<open>ws_subscribe_frames\<close>), as far as the queue has room (\<open>ws_backfill_overflow\<close>); the lagging frames
  add up (\<open>ws_forward_spec\<close>); closing a session leaves nothing behind (\<open>ws_close_releases\<close>).
\<close>

section \<open>Frames and sessions\<close>

record in_msg =
  im_op :: string
  im_topic :: string
  im_from :: string
  im_from_seq :: nat
  im_req_id :: string
  im_type :: string
  im_actor :: string
  im_payload :: raw

record out_msg =
  om_type :: string
  om_topic :: string
  om_event :: "event option"
  om_state :: raw
  om_last_seq :: nat
  om_missed :: nat
  om_msg :: string
  om_req_id :: string

definition frame :: "string \<Rightarrow> out_msg" where
  "frame typ = \<lparr>om_type = typ, om_topic = [], om_event = None, om_state = RNil, om_last_seq = 0,
     om_missed = 0, om_msg = [], om_req_id = []\<rparr>"

definition event_frame :: "string \<Rightarrow> event \<Rightarrow> out_msg" where
  "event_frame topic e = (frame ''event'')\<lparr>om_topic := topic, om_event := Some e\<rparr>"

definition error_frame :: "string \<Rightarrow> string \<Rightarrow> string \<Rightarrow> out_msg" where
  "error_frame topic msg req = (frame ''error'')\<lparr>om_topic := topic, om_msg := msg, om_req_id := req\<rparr>"

definition ack_frame :: "string \<Rightarrow> nat \<Rightarrow> string \<Rightarrow> out_msg" where
  "ack_frame topic seq req = (frame ''ack'')\<lparr>om_topic := topic, om_last_seq := seq, om_req_id := req\<rparr>"

definition out_buf :: nat where
  "out_buf = 512"

text \<open>One running forwarder: the topic of its subscription, the fence, the lag it has reported.\<close>

record forwarder =
  fw_topic :: string
  fw_fence :: nat
  fw_last_lag :: nat

text \<open>\<open>ws_subs\<close> maps a topic to its subscription, \<open>ws_fwd\<close> a subscription to its forwarder.\<close>

record ws_session =
  ws_out :: "out_msg list"
  ws_subs :: "(string, nat) fmap"
  ws_fwd :: "(nat, forwarder) fmap"

definition ws_new :: ws_session where
  "ws_new = \<lparr>ws_out = [], ws_subs = fmempty, ws_fwd = fmempty\<rparr>"

section \<open>Queue\<close>

text \<open>\<open>send\<close> never blocks: a frame that finds the queue full is dropped.\<close>

definition ws_send :: "out_msg \<Rightarrow> ws_session \<Rightarrow> ws_session" where
  "ws_send m s = (if length (ws_out s) < out_buf then s\<lparr>ws_out := ws_out s @ [m]\<rparr> else s)"

text \<open>The writer takes the next frame.\<close>

definition ws_write :: "ws_session \<Rightarrow> (out_msg \<times> ws_session) option" where
  "ws_write s = (case ws_out s of [] \<Rightarrow> None | m # ms \<Rightarrow> Some (m, s\<lparr>ws_out := ms\<rparr>))"

section \<open>Handlers\<close>

text \<open>The digits of \<open>last:N\<close> in 64-bit arithmetic; \<open>None\<close> for a character that is not a digit.\<close>

fun parse_last :: "nat \<Rightarrow> string \<Rightarrow> nat option" where
  "parse_last n [] = Some n"
| "parse_last n (c # cs) =
     (if is_digit c then parse_last ((n * 10 + digit_val c) mod 2 ^ 64) cs else None)"

definition parse_from :: "string \<Rightarrow> nat \<Rightarrow> from_spec" where
  "parse_from from from_seq =
     (if 0 < from_seq then Seq from_seq
      else if from = [] \<or> from = ''latest'' then Latest
      else if 5 < length from \<and> take 5 from = ''last:'' then
        (case parse_last 0 (drop 5 from) of None \<Rightarrow> Latest | Some n \<Rightarrow> LastN n)
      else Latest)"

definition ws_handle_subscribe :: "in_msg \<Rightarrow> 's broker \<times> ws_session \<Rightarrow> 's broker \<times> ws_session" where
  "ws_handle_subscribe m = (\<lambda>(b, s).
     (if fmlookup (ws_subs s) (im_topic m) \<noteq> None then
        (b, ws_send (error_frame (im_topic m) ''already subscribed'' (im_req_id m)) s)
      else
        (case broker_subscribe (im_topic m) (parse_from (im_from m) (im_from_seq m)) b of
           (Inl err, b1) \<Rightarrow> (b1, ws_send (error_frame (im_topic m) (err_text err) (im_req_id m)) s)
         | (Inr (sub, backfill, fence), b1) \<Rightarrow>
             (let s1 = foldl (\<lambda>s e. ws_send (event_frame (im_topic m) e) s) s backfill;
                  s2 = ws_send (ack_frame (im_topic m) fence (im_req_id m)) s1
              in (b1, s2\<lparr>ws_subs := fmupd (im_topic m) sub (ws_subs s2),
                         ws_fwd := fmupd sub \<lparr>fw_topic = im_topic m, fw_fence = fence, fw_last_lag = 0\<rparr>
                                     (ws_fwd s2)\<rparr>)))))"

definition ws_handle_unsubscribe :: "string \<Rightarrow> 's broker \<times> ws_session \<Rightarrow> 's broker \<times> ws_session" where
  "ws_handle_unsubscribe topic = (\<lambda>(b, s).
     (case fmlookup (ws_subs s) topic of
        None \<Rightarrow> (b, s)
      | Some sub \<Rightarrow> (broker_unsubscribe sub b, s\<lparr>ws_subs := fmdrop topic (ws_subs s)\<rparr>)))"

definition ws_close_all :: "'s broker \<times> ws_session \<Rightarrow> 's broker \<times> ws_session" where
  "ws_close_all = (\<lambda>(b, s).
     (foldl (\<lambda>b (topic, sub). broker_unsubscribe sub b) b (fm_items (ws_subs s)), s\<lparr>ws_subs := fmempty\<rparr>))"

definition ws_handle_get_state :: "in_msg \<Rightarrow> 's broker \<times> ws_session \<Rightarrow> 's broker \<times> ws_session" where
  "ws_handle_get_state m = (\<lambda>(b, s).
     (case broker_get_state (im_topic m) b of
        Inl err \<Rightarrow> (b, ws_send (error_frame (im_topic m) (err_text err) (im_req_id m)) s)
      | Inr st \<Rightarrow> (b, ws_send ((frame ''state'')\<lparr>om_topic := im_topic m, om_state := st, om_req_id := im_req_id m\<rparr>) s)))"

definition ws_handle_publish ::
    "time \<Rightarrow> string \<Rightarrow> in_msg \<Rightarrow> 's broker \<times> ws_session \<Rightarrow> 's broker \<times> ws_session" where
  "ws_handle_publish now fresh_id m = (\<lambda>(b, s).
     (let e = new_event (im_topic m) (im_type m) (im_actor m) (im_payload m) now
      in case broker_publish now fresh_id e ''ws'' b of
           (Inl err, b1) \<Rightarrow> (b1, ws_send (error_frame (im_topic m) (err_text err) (im_req_id m)) s)
         | (Inr seq, b1) \<Rightarrow> (b1, ws_send (ack_frame (im_topic m) seq (im_req_id m)) s)))"

text \<open>\<open>readPump\<close>, one frame.\<close>

definition ws_handle :: "time \<Rightarrow> string \<Rightarrow> in_msg \<Rightarrow> 's broker \<times> ws_session \<Rightarrow> 's broker \<times> ws_session" where
  "ws_handle now fresh_id m st =
     (if im_op m = ''subscribe'' then ws_handle_subscribe m st
      else if im_op m = ''unsubscribe'' then ws_handle_unsubscribe (im_topic m) st
      else if im_op m = ''get_state'' then ws_handle_get_state m st
      else if im_op m = ''publish'' then ws_handle_publish now fresh_id m st
      else if im_op m = ''ping'' then (fst st, ws_send (frame ''pong'') (snd st))
      else (fst st, ws_send (error_frame [] ''unknown op'' (im_req_id m)) (snd st)))"

text \<open>One round of \<open>forward\<close> that receives an event; the lag is read after the receive.\<close>

definition ws_forward :: "nat \<Rightarrow> 's broker \<times> ws_session \<Rightarrow> ('s broker \<times> ws_session) option" where
  "ws_forward sub = (\<lambda>(b, s).
     (case (fmlookup (ws_fwd s) sub, hub_recv sub (br_hub b)) of
        (Some fw, Some (e, h)) \<Rightarrow>
          (let b1 = b\<lparr>br_hub := h\<rparr>
           in if ev_seq e \<le> fw_fence fw then Some (b1, s)
              else
                (let lag = (case fmlookup (hub_subs h) sub of Some x \<Rightarrow> sub_lag x | None \<Rightarrow> 0);
                     s1 = (if fw_last_lag fw < lag
                           then ws_send ((frame ''lagging'')\<lparr>om_topic := fw_topic fw, om_missed := lag - fw_last_lag fw\<rparr>)
                                  (s\<lparr>ws_fwd := fmupd sub (fw\<lparr>fw_last_lag := lag\<rparr>) (ws_fwd s)\<rparr>)
                           else s)
                 in Some (b1, ws_send (event_frame (fw_topic fw) e) s1)))
      | _ \<Rightarrow> None))"

text \<open>The forwarder leaves its loop, once its session or its subscription is done.\<close>

definition ws_forward_stop :: "nat \<Rightarrow> ws_session \<Rightarrow> ws_session" where
  "ws_forward_stop sub s = s\<lparr>ws_fwd := fmdrop sub (ws_fwd s)\<rparr>"

section \<open>The queue\<close>

lemma ws_send_simps [simp]:
  "ws_subs (ws_send m s) = ws_subs s" "ws_fwd (ws_send m s) = ws_fwd s"
  "ws_out (ws_send m s) = (if length (ws_out s) < out_buf then ws_out s @ [m] else ws_out s)"
  by (simp_all add: ws_send_def)

text \<open>A burst of frames: those that fit are queued, in order.\<close>

lemma send_all:
  "ws_subs (foldl (\<lambda>s x. ws_send (f x) s) s xs) = ws_subs s
   \<and> ws_fwd (foldl (\<lambda>s x. ws_send (f x) s) s xs) = ws_fwd s
   \<and> ws_out (foldl (\<lambda>s x. ws_send (f x) s) s xs) = ws_out s @ take (out_buf - length (ws_out s)) (map f xs)"
proof (induction xs arbitrary: s)
  case (Cons x xs)
  show ?case
  proof (cases "length (ws_out s) < out_buf")
    case True
    then have "out_buf - length (ws_out s) = Suc (out_buf - Suc (length (ws_out s)))" by simp
    then show ?thesis using Cons[of "ws_send (f x) s"] True by simp
  qed (use Cons[of "ws_send (f x) s"] in simp)
qed simp

lemma ws_out_bound_send: "length (ws_out s) \<le> out_buf \<Longrightarrow> length (ws_out (ws_send m s)) \<le> out_buf"
  by simp

section \<open>Parsing the seed of a subscription\<close>

lemma parse_last_digits:
  assumes "list_all is_digit ds"
  shows "parse_last (n mod 2 ^ 64) ds = Some (foldl (\<lambda>n c. 10 * n + digit_val c) n ds mod 2 ^ 64)"
  using assms
proof (induction ds arbitrary: n)
  case (Cons c cs)
  have "(n mod 2 ^ 64 * 10 + digit_val c) mod 2 ^ 64 = (10 * n + digit_val c) mod 2 ^ 64"
    by (metis mod_add_left_eq mod_mult_left_eq mult.commute)
  then have "parse_last (n mod 2 ^ 64) (c # cs) = parse_last ((10 * n + digit_val c) mod 2 ^ 64) cs"
    using Cons.prems by simp
  then show ?case using Cons by simp
qed simp

lemma parse_last_None: "\<not> list_all is_digit ds \<Longrightarrow> parse_last n ds = None"
  by (induction ds arbitrary: n) auto

lemma parse_from_last:
  "parse_from (''last:'' @ ds) 0 =
     (if ds \<noteq> [] \<and> list_all is_digit ds then LastN (digits_val ds mod 2 ^ 64) else Latest)"
  using parse_last_digits[of ds 0] parse_last_None[of ds 0]
  by (auto simp: parse_from_def digits_val_def)

lemma parse_from_other: "\<not> prefix ''last:'' f \<Longrightarrow> parse_from f 0 = Latest"
  using take_is_prefix[of 5 f] by (auto simp: parse_from_def)

section \<open>Properties\<close>

text \<open>The seed of a subscription: a positive \<open>from_seq\<close> wins; else \<open>last:N\<close> with a decimal \<open>N\<close>
  asks for the last \<open>N\<close> events, \<open>N\<close> taken modulo 2 to the 64; anything else is \<open>latest\<close>.\<close>

lemma parse_from_spec:
  "parse_from f k =
     (if 0 < k then Seq k
      else if \<exists>ds. ds \<noteq> [] \<and> list_all is_digit ds \<and> f = ''last:'' @ ds
      then LastN (digits_val (drop 5 f) mod 2 ^ 64)
      else Latest)"
proof (cases "0 < k")
  case False
  then show ?thesis
  proof (cases "prefix ''last:'' f")
    case True
    then obtain ds where "f = ''last:'' @ ds" by (auto simp: prefix_def)
    then show ?thesis using False parse_from_last[of ds] by simp
  next
    case nf: False
    then show ?thesis using False parse_from_other[OF nf] by (auto simp: prefix_def)
  qed
qed (simp add: parse_from_def)

text \<open>Asking the memory store for the last 0 events gives the whole log, and so does a count of 2 to
  the 64, which wraps to 0, or one from 2 to the 63 on, which comes out negative.\<close>

lemma last_zero_is_everything:
  "read_backfill mem_ops t (parse_from ''last:0'' 0) s = Inr (mem_log s t)
   \<and> read_backfill mem_ops t (parse_from ''last:18446744073709551616'' 0) s = Inr (mem_log s t)
   \<and> read_backfill mem_ops t (parse_from ''last:9223372036854775808'' 0) s = Inr (mem_log s t)"
proof -
  have "parse_from ''last:0'' 0 = LastN 0" "parse_from ''last:18446744073709551616'' 0 = LastN 0"
    "parse_from ''last:9223372036854775808'' 0 = LastN 9223372036854775808"
    using parse_from_last[of "''0''"] parse_from_last[of "''18446744073709551616''"]
      parse_from_last[of "''9223372036854775808''"]
    by (simp_all add: digits_val_def digit_val_def is_digit_def)
  moreover have "int_of_u64 0 = 0" "int_of_u64 9223372036854775808 < 0" by (simp_all add: int_of_u64_def)
  ultimately show ?thesis by (simp add: read_backfill_def LastN_def mem_latest_eq)
qed

text \<open>A subscribe that the broker accepts answers with the backfill in order and then the
  acknowledgement carrying the fence, as long as the queue has room for them, and starts the
  forwarder with that fence.\<close>

lemma ws_subscribe_frames:
  assumes "fmlookup (ws_subs s) (im_topic m) = None"
    and "broker_subscribe (im_topic m) (parse_from (im_from m) (im_from_seq m)) b = (Inr (sub, backfill, fence), b1)"
    and "length (ws_out s) + length backfill < out_buf"
  shows "\<exists>s'. ws_handle_subscribe m (b, s) = (b1, s')
    \<and> ws_out s' = ws_out s @ map (event_frame (im_topic m)) backfill @ [ack_frame (im_topic m) fence (im_req_id m)]
    \<and> ws_subs s' = fmupd (im_topic m) sub (ws_subs s)
    \<and> fmlookup (ws_fwd s') sub = Some \<lparr>fw_topic = im_topic m, fw_fence = fence, fw_last_lag = 0\<rparr>"
  using assms send_all[of "event_frame (im_topic m)" s backfill]
  by (simp add: ws_handle_subscribe_def Let_def)

definition sub_msg :: in_msg where
  "sub_msg = \<lparr>im_op = ''subscribe'', im_topic = ''int/hits'', im_from = [], im_from_seq = 1, im_req_id = ''r1'',
     im_type = [], im_actor = [], im_payload = RNil\<rparr>"

lemma demo_subscribe:
  "\<exists>sub b1. broker_subscribe ''int/hits'' (parse_from [] 1) demo_broker =
     (Inr (sub, [stamp_event 8 ''a'' 1 incr_event, stamp_event 9 ''b'' 2 incr_event], 2), b1)"
proof -
  have "read_backfill (br_ops demo_broker) ''int/hits'' (Seq 1) (br_store demo_broker) =
      Inr [stamp_event 8 ''a'' 1 incr_event, stamp_event 9 ''b'' 2 incr_event]"
    using memory_broker_reachable[OF demo_broker_reachable] demo_broker_log
    by (simp add: read_backfill_def Seq_def mem_read_eq)
  then show ?thesis
    using valid_int_hits(1)
    by (simp add: broker_subscribe_def parse_from_def Let_def case_prod_unfold fence_of_def)
qed

lemma ws_subscribe_frames_example:
  "\<exists>b' s'. ws_handle_subscribe sub_msg (demo_broker, ws_new) = (b', s')
    \<and> map om_type (ws_out s') = [''event'', ''event'', ''ack''] \<and> om_last_seq (last (ws_out s')) = 2"
proof -
  obtain sub b1 where s: "broker_subscribe ''int/hits'' (parse_from [] 1) demo_broker =
      (Inr (sub, [stamp_event 8 ''a'' 1 incr_event, stamp_event 9 ''b'' 2 incr_event], 2), b1)"
    using demo_subscribe by blast
  show ?thesis
    using ws_subscribe_frames[of ws_new sub_msg demo_broker sub _ 2 b1, OF _ _ _] s
    by (auto simp: ws_new_def sub_msg_def out_buf_def event_frame_def ack_frame_def frame_def)
qed

text \<open>C40: a backfill of 512 events or more that finds the queue empty fills it: the client gets the
  first 512 of them when the writer has not run meanwhile, the rest and the acknowledgement are
  dropped, and no frame says so; the forwarder's fence is past the dropped events.\<close>

theorem ws_backfill_overflow:
  assumes "fmlookup (ws_subs s) (im_topic m) = None" "ws_out s = []"
    and "broker_subscribe (im_topic m) (parse_from (im_from m) (im_from_seq m)) b = (Inr (sub, backfill, fence), b1)"
    and "512 \<le> length backfill"
  shows "\<exists>s'. ws_handle_subscribe m (b, s) = (b1, s')
    \<and> ws_out s' = map (event_frame (im_topic m)) (take 512 backfill)
    \<and> fmlookup (ws_fwd s') sub = Some \<lparr>fw_topic = im_topic m, fw_fence = fence, fw_last_lag = 0\<rparr>"
  using assms send_all[of "event_frame (im_topic m)" s backfill]
  by (simp add: ws_handle_subscribe_def Let_def take_map out_buf_def)

definition full_broker :: "mem_store broker" where
  "full_broker = demo_broker\<lparr>br_ops := mem_ops\<lparr>so_read := \<lambda>t k l s. Inr (replicate 600 incr_event)\<rparr>\<rparr>"

theorem ws_backfill_overflow_witness:
  "\<exists>b' s'. ws_handle_subscribe sub_msg (full_broker, ws_new) = (b', s') \<and> length (ws_out s') = 512"
proof -
  obtain sub fence b1 where s: "broker_subscribe ''int/hits'' (parse_from [] 1) full_broker =
      (Inr (sub, replicate 600 incr_event, fence), b1)"
    using valid_int_hits(1)
    by (auto simp: broker_subscribe_def parse_from_def Let_def case_prod_unfold full_broker_def
        read_backfill_def Seq_def)
  show ?thesis
    using ws_backfill_overflow[of ws_new sub_msg full_broker sub "replicate 600 incr_event" fence b1] s
    by (auto simp: ws_new_def sub_msg_def)
qed

text \<open>A forwarder sends a live event past its fence after a \<open>lagging\<close> frame for exactly the events
  dropped since its last one, if there were any, and then remembers the lag it has reported; an
  event the backfill had is not sent again.\<close>

lemma ws_forward_spec:
  assumes "fmlookup (ws_fwd s) sub = Some fw" "hub_recv sub (br_hub b) = Some (e, h)"
    and "fmlookup (hub_subs h) sub = Some x" "length (ws_out s) + 2 \<le> out_buf"
  shows "\<exists>s'. ws_forward sub (b, s) = Some (b\<lparr>br_hub := h\<rparr>, s')
    \<and> ws_out s' = ws_out s @
        (if ev_seq e \<le> fw_fence fw then []
         else (if fw_last_lag fw < sub_lag x
               then [(frame ''lagging'')\<lparr>om_topic := fw_topic fw, om_missed := sub_lag x - fw_last_lag fw\<rparr>] else [])
              @ [event_frame (fw_topic fw) e])
    \<and> fmlookup (ws_fwd s') sub =
        Some (if ev_seq e \<le> fw_fence fw then fw else fw\<lparr>fw_last_lag := max (fw_last_lag fw) (sub_lag x)\<rparr>)"
  using assms by (simp add: ws_forward_def Let_def)

lemma close_all_hub:
  "br_hub (foldl (\<lambda>b (topic, sub). broker_unsubscribe sub b) b kvs) =
     foldl (\<lambda>h i. hub_close i h) (br_hub b) (map snd kvs)"
  by (induction kvs arbitrary: b) (auto simp: case_prod_unfold)

text \<open>When a session ends every subscription it held is closed and out of the hub's registry, so
  no later publish is buffered for it.\<close>

lemma ws_close_releases:
  assumes "broker_reachable (memory_broker reg ttl) b" "ws_close_all (b, s) = (b', s')"
    and "fmlookup (ws_subs s) topic = Some i"
  shows "i \<notin> set (registered (br_hub b') t) \<and> ws_subs s' = fmempty \<and> br_store b' = br_store b"
proof -
  have inv: "hub_inv (br_hub b)" by (rule memory_broker_hub[OF assms(1)])
  have b': "b' = foldl (\<lambda>b (topic, sub). broker_unsubscribe sub b) b (fm_items (ws_subs s))" "ws_subs s' = fmempty"
    using assms(2) by (auto simp: ws_close_all_def)
  have "(topic, i) \<in> set (fm_items (ws_subs s))" using assms(3) by (simp add: set_fm_items)
  then have "i \<in> set (map snd (fm_items (ws_subs s)))" by force
  then have "i \<notin> set (registered (br_hub b') t)"
    unfolding b'(1) close_all_hub using close_all_registered[OF inv] by blast
  moreover have "br_store (foldl (\<lambda>b (topic, sub). broker_unsubscribe sub b) b kvs) = br_store b" for kvs
    by (induction kvs arbitrary: b) auto
  ultimately show ?thesis using b' by simp
qed

lemma ws_close_releases_example:
  "\<exists>b' s'. ws_close_all (snd (broker_subscribe ''int/hits'' Latest demo_broker),
      ws_new\<lparr>ws_subs := fmupd ''int/hits'' 1 fmempty\<rparr>) = (b', s')
    \<and> 1 \<notin> set (registered (br_hub b') ''int/hits'')"
proof -
  have r: "broker_reachable (memory_broker standard_reducers 0) (snd (broker_subscribe ''int/hits'' Latest demo_broker))"
    by (rule broker_next[OF demo_broker_reachable step_subscribe])
  obtain b' s' where c: "ws_close_all (snd (broker_subscribe ''int/hits'' Latest demo_broker),
      ws_new\<lparr>ws_subs := fmupd ''int/hits'' 1 fmempty\<rparr>) = (b', s')" by fastforce
  show ?thesis using ws_close_releases[OF r c, of "''int/hits''" 1] c by simp
qed

end
