(* ===== verification/ClientServer.thy ===== *)
theory ClientServer
  imports ClientModel WsSession
begin

text \<open>
  The client library and the server's sessions put together over the wire protocol: the frames of
  \<open>client/client.go\<close> and \<open>internal/transport/ws.go\<close> are JSON objects with the same keys, so a frame
  sent is the frame received, field by field. The main results: \<open>client_resume_exact\<close>, that a client
  that reconnects gets exactly the events it has missed, and \<open>client_publish_exact\<close>, that a publish
  through the library logs the event and returns its number.
\<close>

section \<open>The wire\<close>

definition to_in_msg :: "client_frame \<Rightarrow> in_msg" where
  "to_in_msg f = \<lparr>im_op = cf_op f, im_topic = cf_topic f, im_from = cf_from f, im_from_seq = cf_from_seq f,
     im_req_id = cf_req_id f, im_type = cf_type f, im_actor = cf_actor f, im_payload = cf_payload f\<rparr>"

definition to_server_frame :: "out_msg \<Rightarrow> server_frame" where
  "to_server_frame m = \<lparr>sf_type = om_type m, sf_topic = om_topic m, sf_event = om_event m, sf_state = om_state m,
     sf_last_seq = om_last_seq m, sf_missed = om_missed m, sf_msg = om_msg m, sf_req_id = om_req_id m\<rparr>"

text \<open>
  The server handles a frame, the writer of the session drains its queue, and the client dispatches
  what arrives: the calls of callbacks, and both states after.
\<close>

definition exchange ::
    "time \<Rightarrow> string \<Rightarrow> client_frame \<Rightarrow> client \<times> 's broker \<times> ws_session
     \<Rightarrow> (nat \<times> event) list \<times> client \<times> 's broker \<times> ws_session" where
  "exchange now rid f = (\<lambda>(c, b, s).
     (let (b1, s1) = ws_handle now rid (to_in_msg f) (b, s);
          (calls, c1) = client_dispatch_all (map to_server_frame (ws_out s1)) c
      in (calls, c1, b1, s1\<lparr>ws_out := []\<rparr>)))"

fun exchange_all ::
    "time \<Rightarrow> string \<Rightarrow> client_frame list \<Rightarrow> client \<times> 's broker \<times> ws_session
     \<Rightarrow> (nat \<times> event) list \<times> client \<times> 's broker \<times> ws_session" where
  "exchange_all now rid [] (c, b, s) = ([], c, b, s)"
| "exchange_all now rid (f # fs) st =
     (let (calls, st1) = exchange now rid f st; (calls', st2) = exchange_all now rid fs st1 in (calls @ calls', st2))"

text \<open>One request, with nothing else in flight: queued, written, answered, received.\<close>

definition rpc ::
    "time \<Rightarrow> string \<Rightarrow> client_frame \<Rightarrow> client \<times> 's broker \<times> ws_session
     \<Rightarrow> ((server_frame \<times> gerr option) \<times> client \<times> 's broker \<times> ws_session) option" where
  "rpc now rid f = (\<lambda>(c, b, s).
     (case client_request f c of
        None \<Rightarrow> None
      | Some (n, c1) \<Rightarrow>
          (let (calls, c2, b1, s1) = exchange now rid (last (cl_send c1)) (c1\<lparr>cl_send := butlast (cl_send c1)\<rparr>, b, s)
           in case client_receive n c2 of
                None \<Rightarrow> None
              | Some (r, c3) \<Rightarrow> Some (r, c3, b1, s1))))"

section \<open>Dispatching a backfill\<close>

lemma dispatch_event_frames:
  assumes "fmlookup (cl_topics c) t = Some ts" "es \<noteq> []"
  shows "client_dispatch_all (map (\<lambda>e. to_server_frame (event_frame t e)) es) c =
    (concat (map (\<lambda>e. map (\<lambda>cb. (cb, e)) (ts_callbacks ts)) es),
     c\<lparr>cl_topics := fmupd t (ts\<lparr>ts_last_seen := fold (\<lambda>e n. max n (ev_seq e)) es (ts_last_seen ts)\<rparr>) (cl_topics c)\<rparr>)"
  using assms
proof (induction es arbitrary: c ts)
  case (Cons e es)
  let ?ts = "ts\<lparr>ts_last_seen := max (ts_last_seen ts) (ev_seq e)\<rparr>"
  let ?c = "c\<lparr>cl_topics := fmupd t ?ts (cl_topics c)\<rparr>"
  have d: "client_dispatch (to_server_frame (event_frame t e)) c = (map (\<lambda>cb. (cb, e)) (ts_callbacks ts), ?c)"
    using Cons.prems(1)
    by (auto simp: client_dispatch_def to_server_frame_def event_frame_def frame_def Let_def max_def)
  show ?case
  proof (cases "es = []")
    case False
    have "fmlookup (cl_topics ?c) t = Some ?ts" by simp
    from Cons.IH[OF this False] show ?thesis using d by simp
  qed (use d in simp)
qed simp

lemma fold_max_dense:
  assumes "dense_log es" "n \<le> length es"
  shows "fold (\<lambda>e n. max n (ev_seq e)) (drop n es) n = length es"
  using assms
proof (induction es arbitrary: n rule: rev_induct)
  case (snoc e es)
  then show ?case by (cases "n = Suc (length es)") (simp_all add: dense_log_snoc)
qed simp

lemma fmupd_same [simp]: "fmlookup m k = Some v \<Longrightarrow> fmupd k v m = m"
  by (rule fmap_ext) auto

section \<open>Resuming\<close>

text \<open>The calls of a topic's callbacks for a run of events.\<close>

definition calls_of :: "topic_sub \<Rightarrow> event list \<Rightarrow> (nat \<times> event) list" where
  "calls_of ts es = concat (map (\<lambda>e. map (\<lambda>cb. (cb, e)) (ts_callbacks ts)) es)"

text \<open>A topic the client can resume: it has seen part of the log, and the rest fits the session's queue.\<close>

definition resumable :: "mem_store \<Rightarrow> string \<Rightarrow> topic_sub \<Rightarrow> bool" where
  "resumable st t ts \<longleftrightarrow> validate_topic t = None \<and> 0 < ts_last_seen ts \<and> ts_last_seen ts + 1 < 2 ^ 64
     \<and> ts_last_seen ts \<le> length (mem_log st t) \<and> length (mem_log st t) - ts_last_seen ts < 512"

lemma resume_subscribes:
  assumes "broker_reachable (memory_broker reg ttl) b" "resumable (br_store b) t ts"
  shows "\<exists>i b'. broker_subscribe t (parse_from (cf_from (resume_frame t ts)) (cf_from_seq (resume_frame t ts))) b =
      (Inr (i, drop (ts_last_seen ts) (mem_log (br_store b) t),
         fence_of (drop (ts_last_seen ts) (mem_log (br_store b) t))), b')
    \<and> br_store b' = br_store b \<and> broker_reachable (memory_broker reg ttl) b'"
proof -
  let ?f = "Seq (ts_last_seen ts + 1)" and ?es = "drop (ts_last_seen ts) (mem_log (br_store b) t)"
  have R: "br_ops b = mem_ops" "mem_inv (br_store b)" using memory_broker_reachable[OF assms(1)] by auto
  have from_: "parse_from (cf_from (resume_frame t ts)) (cf_from_seq (resume_frame t ts)) = ?f"
    using assms(2) by (simp add: resume_frame_def subscribe_frame_def out_frame_def parse_from_def resumable_def)
  have "read_backfill (br_ops b) t ?f (br_store b) = Inr ?es"
    using mem_inv_log[OF R(2), of t] dense_log_filter_ge[of "mem_log (br_store b) t" "ts_last_seen ts + 1"]
    by (simp add: read_backfill_def R Seq_def mem_read_eq)
  then obtain i b' where sub: "broker_subscribe t ?f b = (Inr (i, ?es, fence_of ?es), b')"
    using assms(2) by (auto simp: broker_subscribe_def resumable_def Let_def case_prod_unfold)
  have "broker_reachable (memory_broker reg ttl) (snd (broker_subscribe t ?f b))"
    by (rule broker_next[OF assms(1) step_subscribe])
  then show ?thesis using sub broker_subscribe_store(1)[of t ?f b] unfolding from_ by auto
qed

lemma resume_one:
  assumes "broker_reachable (memory_broker reg ttl) b" "resumable (br_store b) t ts"
    and "fmlookup (cl_topics c) t = Some ts" "ws_out s = []" "fmlookup (ws_subs s) t = None"
  shows "\<exists>b' s'. exchange now rid (resume_frame t ts) (c, b, s) =
      (calls_of ts (drop (ts_last_seen ts) (mem_log (br_store b) t)),
       c\<lparr>cl_topics := fmupd t (ts\<lparr>ts_last_seen := length (mem_log (br_store b) t)\<rparr>) (cl_topics c)\<rparr>, b', s')
    \<and> br_store b' = br_store b \<and> broker_reachable (memory_broker reg ttl) b' \<and> ws_out s' = []
    \<and> fmdom (ws_subs s') = finsert t (fmdom (ws_subs s))"
proof -
  let ?m = "to_in_msg (resume_frame t ts)" and ?es = "drop (ts_last_seen ts) (mem_log (br_store b) t)"
  have m: "im_op ?m = ''subscribe''" "im_topic ?m = t" "im_req_id ?m = []"
    using assms(2) by (simp_all add: to_in_msg_def resume_frame_def subscribe_frame_def out_frame_def resumable_def)
  obtain i b' where sub: "broker_subscribe t (parse_from (im_from ?m) (im_from_seq ?m)) b = (Inr (i, ?es, fence_of ?es), b')"
      and b': "br_store b' = br_store b" "broker_reachable (memory_broker reg ttl) b'"
    using resume_subscribes[OF assms(1,2)] by (auto simp: to_in_msg_def)
  obtain s' where s': "ws_handle now rid ?m (b, s) = (b', s')"
      "ws_out s' = map (event_frame t) ?es @ [ack_frame t (fence_of ?es) []]" "ws_subs s' = fmupd t i (ws_subs s)"
    using sub assms(2,4,5) m send_all[of "event_frame t" s ?es]
    by (simp add: ws_handle_def ws_handle_subscribe_def Let_def resumable_def out_buf_def)
  have ack: "client_dispatch (to_server_frame (ack_frame t k [])) c1 = ([], c1)" for k c1
    by (simp add: client_dispatch_def to_server_frame_def ack_frame_def frame_def)
  have max: "fold (\<lambda>e n. max n (ev_seq e)) ?es (ts_last_seen ts) = length (mem_log (br_store b) t)"
    using assms(2) mem_inv_log memory_broker_reachable[OF assms(1)]
    by (intro fold_max_dense) (auto simp: resumable_def)
  have dsp: "client_dispatch_all (map (\<lambda>e. to_server_frame (event_frame t e)) ?es) c =
      (calls_of ts ?es, c\<lparr>cl_topics := fmupd t (ts\<lparr>ts_last_seen := length (mem_log (br_store b) t)\<rparr>) (cl_topics c)\<rparr>)"
  proof (cases "?es = []")
    case True
    then have "ts\<lparr>ts_last_seen := length (mem_log (br_store b) t)\<rparr> = ts" using assms(2) by (simp add: resumable_def)
    then show ?thesis using True assms(3) by (simp add: calls_of_def)
  next
    case False
    show ?thesis using dispatch_event_frames[OF assms(3) False] unfolding max by (simp add: calls_of_def)
  qed
  have "client_dispatch_all (map to_server_frame (ws_out s')) c =
      (calls_of ts ?es, c\<lparr>cl_topics := fmupd t (ts\<lparr>ts_last_seen := length (mem_log (br_store b) t)\<rparr>) (cl_topics c)\<rparr>)"
    using dsp dispatch_all_append[of "map (\<lambda>e. to_server_frame (event_frame t e)) ?es" "[to_server_frame (ack_frame t (fence_of ?es) [])]" c]
    by (simp add: s'(2) comp_def ack prod_eq_iff)
  then show ?thesis using s' b' by (simp add: exchange_def)
qed

section \<open>One request\<close>

text \<open>A handler that answers with one frame under the request's id gives the request that frame.\<close>

lemma rpc_answer:
  assumes "pending_inv c" "length (cl_send c) < send_buf" "ws_out s = []"
    and h: "\<And>r. r = req_id (Suc (cl_next_req c)) \<Longrightarrow>
      \<exists>s1. ws_handle now rid (to_in_msg (f\<lparr>cf_req_id := r\<rparr>)) (b, s) = (b1, s1) \<and> ws_out s1 = [m\<lparr>om_req_id := r\<rparr>]"
    and "om_type m \<in> {''state'', ''ack'', ''error''}"
  shows "\<exists>c' s'. rpc now rid f (c, b, s) = Some ((to_server_frame (m\<lparr>om_req_id := req_id (Suc (cl_next_req c))\<rparr>),
        if om_type m = ''error'' then Some (ErrMsg (om_msg m)) else None), c', b1, s')
    \<and> ws_out s' = [] \<and> pending_inv c' \<and> cl_send c' = cl_send c"
proof -
  define n where "n = Suc (cl_next_req c)"
  define g where "g = to_server_frame (m\<lparr>om_req_id := req_id n\<rparr>)"
  define c1 where "c1 = c\<lparr>cl_next_req := n, cl_pending := fmupd (req_id n) n (cl_pending c)\<rparr>"
  define f1 where "f1 = f\<lparr>cf_req_id := req_id n\<rparr>"
  have q: "client_request f c = Some (n, c1\<lparr>cl_send := cl_send c @ [f1]\<rparr>)"
    using assms(2) by (simp add: client_request_def client_send_def Let_def n_def c1_def f1_def)
  obtain s1 where s1: "ws_handle now rid (to_in_msg f1) (b, s) = (b1, s1)" "ws_out s1 = [m\<lparr>om_req_id := req_id n\<rparr>]"
    using h n_def f1_def by blast
  have fresh: "fmlookup (cl_resp c) n = None"
    using assms(1) unfolding n_def by (metis Suc_n_not_le_n pending_inv_def)
  have p1: "pending_inv c1"
    using assms(1) by (auto simp: pending_inv_def le_SucI c1_def n_def)
  have g: "sf_type g = om_type m" "sf_req_id g = req_id n" "sf_msg g = om_msg m"
    by (simp_all add: g_def to_server_frame_def)
  define c2 where "c2 = snd (client_dispatch g c1)"
  have c2: "c2 = c1\<lparr>cl_pending := fmdrop (req_id n) (cl_pending c1), cl_resp := fmupd n (response_of g) (cl_resp c)\<rparr>"
    and d: "client_dispatch g c1 = ([], c2)"
    using assms(5) g fresh by (auto simp: client_dispatch_def response_of_def Let_def c2_def c1_def)
  have p2: "pending_inv c2" using pending_inv_dispatch[OF p1] by (simp add: c2_def)
  have p3: "pending_inv (c2\<lparr>cl_resp := fmdrop n (cl_resp c2)\<rparr>)"
    using p2 by (auto simp: pending_inv_def split: if_splits)
  have x: "exchange now rid f1 (c1, b, s) = ([], c2, b1, s1\<lparr>ws_out := []\<rparr>)"
    using s1 d by (simp add: exchange_def g_def)
  have y: "client_receive n c2 = Some ((g, if om_type m = ''error'' then Some (ErrMsg (om_msg m)) else None),
      c2\<lparr>cl_resp := fmdrop n (cl_resp c2)\<rparr>)"
    using g by (simp add: client_receive_def c2 response_of_def)
  have z: "c1\<lparr>cl_send := cl_send c\<rparr> = c1" by (simp add: c1_def)
  have "rpc now rid f (c, b, s) = Some ((g, if om_type m = ''error'' then Some (ErrMsg (om_msg m)) else None),
      c2\<lparr>cl_resp := fmdrop n (cl_resp c2)\<rparr>, b1, s1\<lparr>ws_out := []\<rparr>)"
    using x y by (simp add: rpc_def q z)
  moreover have "cl_send (c2\<lparr>cl_resp := fmdrop n (cl_resp c2)\<rparr>) = cl_send c" by (simp add: c2 c1_def)
  ultimately show ?thesis using p3 unfolding g_def n_def
    by (intro exI[of _ "c2\<lparr>cl_resp := fmdrop n (cl_resp c2)\<rparr>"] exI[of _ "s1\<lparr>ws_out := []\<rparr>"]) (simp_all add: n_def)
qed

section \<open>Properties\<close>

lemma resume_list:
  assumes "broker_reachable (memory_broker reg ttl) b" "distinct (map fst kvs)" "ws_out s = []"
    and "\<forall>(t, ts) \<in> set kvs. resumable (br_store b) t ts \<and> fmlookup (cl_topics c) t = Some ts \<and> fmlookup (ws_subs s) t = None"
  shows "\<exists>c' b' s'. exchange_all now rid (map (\<lambda>(t, ts). resume_frame t ts) kvs) (c, b, s) =
      (concat (map (\<lambda>(t, ts). calls_of ts (drop (ts_last_seen ts) (mem_log (br_store b) t))) kvs), c', b', s')
    \<and> br_store b' = br_store b
    \<and> (\<forall>t. fmlookup (cl_topics c') t = (case map_of kvs t of None \<Rightarrow> fmlookup (cl_topics c) t
          | Some ts \<Rightarrow> Some (ts\<lparr>ts_last_seen := length (mem_log (br_store b) t)\<rparr>)))"
  using assms
proof (induction kvs arbitrary: c b s)
  case (Cons p kvs)
  obtain t ts where p: "p = (t, ts)" by fastforce
  let ?c1 = "c\<lparr>cl_topics := fmupd t (ts\<lparr>ts_last_seen := length (mem_log (br_store b) t)\<rparr>) (cl_topics c)\<rparr>"
  obtain b1 s1 where x: "exchange now rid (resume_frame t ts) (c, b, s) =
      (calls_of ts (drop (ts_last_seen ts) (mem_log (br_store b) t)), ?c1, b1, s1)"
    and b1: "br_store b1 = br_store b" "broker_reachable (memory_broker reg ttl) b1" "ws_out s1 = []"
      "fmdom (ws_subs s1) = finsert t (fmdom (ws_subs s))"
    using resume_one[OF Cons.prems(1), of t ts c s now rid] Cons.prems(3,4) p by auto
  have "\<forall>(u, us) \<in> set kvs. resumable (br_store b1) u us \<and> fmlookup (cl_topics ?c1) u = Some us \<and> fmlookup (ws_subs s1) u = None"
  proof (intro ballI, clarify)
    fix u us assume u: "(u, us) \<in> set kvs"
    then have "u \<noteq> t" using Cons.prems(2) p by force
    moreover have "u |\<notin>| fmdom (ws_subs s)" "resumable (br_store b) u us" "fmlookup (cl_topics c) u = Some us"
      using Cons.prems(4) u by (auto simp: fmlookup_dom_iff)
    ultimately show "resumable (br_store b1) u us \<and> fmlookup (cl_topics ?c1) u = Some us \<and> fmlookup (ws_subs s1) u = None"
      using b1 by (simp flip: fmdom_notD)  (metis finsertE fmdom_notD)
  qed
  moreover have "distinct (map fst kvs)" and t: "map_of kvs t = None"
    using Cons.prems(2) p by (auto simp: map_of_eq_None_iff)
  ultimately obtain c' b' s' where y: "exchange_all now rid (map (\<lambda>(t, ts). resume_frame t ts) kvs) (?c1, b1, s1) =
      (concat (map (\<lambda>(t, ts). calls_of ts (drop (ts_last_seen ts) (mem_log (br_store b) t))) kvs), c', b', s')"
      "br_store b' = br_store b"
    and L: "\<And>u. fmlookup (cl_topics c') u = (case map_of kvs u of None \<Rightarrow> fmlookup (cl_topics ?c1) u
          | Some ts \<Rightarrow> Some (ts\<lparr>ts_last_seen := length (mem_log (br_store b) u)\<rparr>))"
    using Cons.IH[OF b1(2) _ b1(3), of ?c1] unfolding b1(1) by blast
  have "\<forall>u. fmlookup (cl_topics c') u = (case map_of (p # kvs) u of None \<Rightarrow> fmlookup (cl_topics c) u
          | Some ts \<Rightarrow> Some (ts\<lparr>ts_last_seen := length (mem_log (br_store b) u)\<rparr>))"
    using t unfolding L p by (simp split: option.split)
  then show ?case using x y p by (auto simp: Let_def)
qed (simp add: case_prod_unfold)


definition away_client :: client where
  "away_client = snd (client_dispatch (to_server_frame (event_frame ''int/hits'' (stamp_event 8 ''a'' 1 incr_event))) demo_client)"


lemma rpc_publish:
  assumes "pending_inv c" "length (cl_send c) < send_buf" "ws_out s = []"
    and "broker_publish now rid (new_event (ev_topic e) (ev_type e) (ev_actor e) (ev_payload e) now) ''ws'' b = (res, b1)"
  shows "\<exists>r c' s'. rpc now rid (publish_frame e) (c, b, s) = Some (r, c', b1, s')
    \<and> publish_result r = (case res of Inl err \<Rightarrow> Inl (ErrMsg (err_text err)) | Inr n \<Rightarrow> Inr n)
    \<and> ws_out s' = [] \<and> pending_inv c' \<and> cl_send c' = cl_send c"
proof -
  let ?m = "case res of Inl err \<Rightarrow> error_frame (ev_topic e) (err_text err) [] | Inr n \<Rightarrow> ack_frame (ev_topic e) n []"
  have h: "\<exists>s1. ws_handle now rid (to_in_msg ((publish_frame e)\<lparr>cf_req_id := r\<rparr>)) (b, s) = (b1, s1)
      \<and> ws_out s1 = [?m\<lparr>om_req_id := r\<rparr>]" for r
    using assms(3,4)
    by (cases res) (simp_all add: ws_handle_def ws_handle_publish_def to_in_msg_def publish_frame_def out_frame_def
        Let_def out_buf_def error_frame_def ack_frame_def frame_def)
  have ty: "om_type ?m \<in> {''state'', ''ack'', ''error''}"
    by (cases res) (simp_all add: error_frame_def ack_frame_def frame_def)
  show ?thesis
    using rpc_answer[OF assms(1-3) h ty]
    by (cases res) (auto simp: publish_result_def error_frame_def ack_frame_def frame_def to_server_frame_def)
qed

text \<open>C21: publishing through the library and a session is publishing to the broker: the request is
  answered, with the number under which the event is appended to its topic's log when topic and
  type are good, and with the broker's error, nothing changed, when they are not.\<close>

theorem client_publish_exact:
  assumes "broker_reachable (memory_broker reg ttl) b" "client_history c fs hs" "length (cl_send c) < send_buf"
    and "ws_out s = []"
  shows "\<exists>r c' b' s'. rpc now rid (publish_frame e) (c, b, s) = Some (r, c', b', s')
    \<and> (if validate_topic (ev_topic e) = None \<and> ev_type e \<noteq> [] then
         publish_result r = Inr (Suc (length (mem_log (br_store b) (ev_topic e))))
         \<and> mem_log (br_store b') = (mem_log (br_store b))(ev_topic e := mem_log (br_store b) (ev_topic e)
             @ [stamp_event now rid (Suc (length (mem_log (br_store b) (ev_topic e))))
                  (new_event (ev_topic e) (ev_type e) (ev_actor e) (ev_payload e) now)])
       else (\<exists>msg. publish_result r = Inl (ErrMsg msg)) \<and> b' = b)"
proof -
  let ?e = "new_event (ev_topic e) (ev_type e) (ev_actor e) (ev_payload e) now"
  have e: "ev_topic ?e = ev_topic e" "ev_type ?e = ev_type e" by (simp_all add: new_event_def)
  note rpc = rpc_publish[OF pending_inv_history[OF assms(2)] assms(3,4), of now rid e b]
  show ?thesis
  proof (cases "validate_topic (ev_topic e) = None \<and> ev_type e \<noteq> []")
    case True
    then obtain b' where "broker_publish now rid ?e ''ws'' b = (Inr (Suc (length (mem_log (br_store b) (ev_topic e)))), b')"
        "mem_log (br_store b') = (mem_log (br_store b))(ev_topic e := mem_log (br_store b) (ev_topic e)
             @ [stamp_event now rid (Suc (length (mem_log (br_store b) (ev_topic e)))) ?e])"
      using broker_publish_ok[OF assms(1), of ?e now rid "''ws''"] e by auto
    with rpc True show ?thesis by fastforce
  next
    case False
    then obtain err where "broker_publish now rid ?e ''ws'' b = (Inl err, b)"
      using e by (cases "validate_topic (ev_topic e)") (auto simp: broker_publish_def)
    with rpc False show ?thesis by fastforce
  qed
qed

theorem client_publish_exact_witness:
  "\<exists>r c' b' s'. rpc 10 ''c'' (publish_frame incr_event) (demo_client, demo_broker, ws_new) = Some (r, c', b', s')
    \<and> publish_result r = Inr 3"
proof -
  have "length (cl_send demo_client) < send_buf" "ws_out ws_new = []" "ev_topic incr_event = ''int/hits''" "ev_type incr_event \<noteq> []"
    by (simp_all add: demo_client_def client_register_def with_reconnect_def client_new_def Let_def send_buf_def ws_new_def
        incr_event_def new_event_def)
  with client_publish_exact[OF demo_broker_reachable demo_client_history, of ws_new 10 "''c''" incr_event] show ?thesis
    using valid_int_hits(1) demo_broker_log by (fastforce simp: numeral_3_eq_3)
qed

text \<open>
  \<open>Seq 0\<close>, from the first event for the broker, is \<open>latest\<close> through the library: the frame carries
  neither a seed nor a positive \<open>from_seq\<close>.
\<close>

lemma seq_zero_is_latest:
  "parse_from (cf_from (subscribe_frame t (Seq 0) 0)) (cf_from_seq (subscribe_frame t (Seq 0) 0)) = Latest"
  by (simp add: subscribe_frame_def out_frame_def parse_from_def Seq_def)

end
