(* ===== verification/Metrics.thy ===== *)
theory Metrics
  imports BrokerModel
begin

text \<open>
  The process-wide metrics, \<open>internal/metrics/metrics.go\<close>: the collectors, the update each entry of the
  broker's log of updates (\<open>metric_op\<close>) is of a collector, and the dashboard's reading of what is gathered
  from them. The Prometheus library itself is an argument, \<open>gather\<close>, with its documented behaviour as the
  locale \<open>metrics_registry\<close>; \<open>ref_gather\<close> satisfies it. The counts are whole numbers, which a float64 holds
  exactly up to \<open>2 ^ 53\<close>.

  The main result is \<open>metrics_read_counts\<close>: the reading gives, of each collector and each object type, what
  the updates add up to, although it joins an object type and a source to one key.
\<close>

section \<open>The collectors\<close>

datatype collector_kind = Gauge | Counter | Histogram

record collector =
  co_kind :: collector_kind
  co_name :: string
  co_labels :: "string list"

definition connected_clients :: collector where
  "connected_clients = \<lparr>co_kind = Gauge, co_name = ''ew_connected_clients'', co_labels = []\<rparr>"

definition subscriptions :: collector where
  "subscriptions = \<lparr>co_kind = Gauge, co_name = ''ew_subscriptions'', co_labels = [''object_type'']\<rparr>"

definition events_ingested :: collector where
  "events_ingested = \<lparr>co_kind = Counter, co_name = ''ew_events_ingested_total'', co_labels = [''object_type'', ''source'']\<rparr>"

definition events_fanned_out :: collector where
  "events_fanned_out = \<lparr>co_kind = Counter, co_name = ''ew_events_fanned_out_total'', co_labels = [''object_type'']\<rparr>"

definition dropped_slow_consumer :: collector where
  "dropped_slow_consumer = \<lparr>co_kind = Counter, co_name = ''ew_dropped_slow_consumer_total'', co_labels = [''object_type'']\<rparr>"

definition store_op_duration :: collector where
  "store_op_duration = \<lparr>co_kind = Histogram, co_name = ''ew_store_op_duration_seconds'', co_labels = [''op'']\<rparr>"

definition ws_ping_lag :: collector where
  "ws_ping_lag = \<lparr>co_kind = Histogram, co_name = ''ew_ws_ping_lag_seconds'', co_labels = []\<rparr>"

definition topics_total :: collector where
  "topics_total = \<lparr>co_kind = Gauge, co_name = ''ew_topics_total'', co_labels = []\<rparr>"

definition registered_collectors :: "collector list" where
  "registered_collectors = [connected_clients, subscriptions, events_ingested, events_fanned_out, dropped_slow_consumer,
     store_op_duration, ws_ping_lag, topics_total]"

lemmas collector_defs = connected_clients_def subscriptions_def events_ingested_def events_fanned_out_def
  dropped_slow_consumer_def store_op_duration_def ws_ping_lag_def topics_total_def

text \<open>The call each update is: its collector, its label values (\<open>WithLabelValues\<close>) and what \<open>Inc\<close>, \<open>Dec\<close>,
  \<open>Add\<close> or \<open>Set\<close> does to the value.\<close>

fun metric_call :: "metric_op \<Rightarrow> collector \<times> string list \<times> (int \<Rightarrow> int)" where
  "metric_call (IncIngested ot source) = (events_ingested, [ot, source], \<lambda>v. v + 1)"
| "metric_call (AddFannedOut ot n) = (events_fanned_out, [ot], \<lambda>v. v + int n)"
| "metric_call (IncDropped ot) = (dropped_slow_consumer, [ot], \<lambda>v. v + 1)"
| "metric_call (IncSubscriptions ot) = (subscriptions, [ot], \<lambda>v. v + 1)"
| "metric_call (DecSubscriptions ot) = (subscriptions, [ot], \<lambda>v. v - 1)"
| "metric_call IncConnected = (connected_clients, [], \<lambda>v. v + 1)"
| "metric_call DecConnected = (connected_clients, [], \<lambda>v. v - 1)"
| "metric_call (SetTopics n) = (topics_total, [], \<lambda>v. int n)"

section \<open>Gathering\<close>

text \<open>What the library gathers, by family: samples with their labels and value.\<close>

record 'f sample =
  sm_labels :: "(string \<times> string) list"
  sm_value :: 'f

record 'f family =
  fa_name :: string
  fa_samples :: "'f sample list"

definition call_of :: "collector \<Rightarrow> string list \<Rightarrow> metric_op \<Rightarrow> bool" where
  "call_of c ls op \<longleftrightarrow> (case metric_call op of (c', ls', f) \<Rightarrow> c' = c \<and> ls' = ls)"

definition child_value :: "collector \<Rightarrow> string list \<Rightarrow> metric_op list \<Rightarrow> int" where
  "child_value c ls ms = foldl (\<lambda>v op. if call_of c ls op then snd (snd (metric_call op)) v else v) 0 ms"

text \<open>A collector with labels has a child for each combination of label values that was asked for; one without
  has its one value from the start.\<close>

definition children :: "collector \<Rightarrow> metric_op list \<Rightarrow> string list list" where
  "children c ms =
     (if co_labels c = [] then [[]]
      else remdups (map (\<lambda>op. fst (snd (metric_call op))) (filter (\<lambda>op. fst (metric_call op) = c) ms)))"

definition child_sample :: "collector \<Rightarrow> metric_op list \<Rightarrow> string list \<Rightarrow> int sample" where
  "child_sample c ms ls = \<lparr>sm_labels = zip (co_labels c) ls, sm_value = child_value c ls ms\<rparr>"

definition samples_of :: "string \<Rightarrow> 'f family list \<Rightarrow> 'f sample list" where
  "samples_of name fs = concat (map fa_samples (filter (\<lambda>f. fa_name f = name) fs))"

text \<open>
  The library's promise: when gathering succeeds, the families of a registered gauge or counter hold one sample
  for each child, in some order, with its labels and its value. Other families may be there as well.
\<close>

locale metrics_registry =
  fixes gather :: "metric_op list \<Rightarrow> gerr + int family list"
  assumes gathered: "gather ms = Inr fs \<Longrightarrow> c \<in> set registered_collectors \<Longrightarrow> co_kind c \<noteq> Histogram \<Longrightarrow>
    \<exists>lss. distinct lss \<and> set lss = set (children c ms) \<and> samples_of (co_name c) fs = map (child_sample c ms) lss"

definition ref_gather :: "metric_op list \<Rightarrow> gerr + int family list" where
  "ref_gather ms = Inr (map (\<lambda>c. \<lparr>fa_name = co_name c, fa_samples = map (child_sample c ms) (children c ms)\<rparr>)
     (filter (\<lambda>c. co_kind c \<noteq> Histogram) registered_collectors))"

section \<open>The dashboard's reading\<close>

record 'f snapshot =
  sn_connected :: 'f
  sn_subscriptions :: "(string, 'f) fmap"
  sn_ingested :: "(string, 'f) fmap"
  sn_fanned_out :: "(string, 'f) fmap"
  sn_dropped :: "(string, 'f) fmap"
  sn_topics :: 'f

fun label_val :: "(string \<times> string) list \<Rightarrow> string \<Rightarrow> string" where
  "label_val [] name = []"
| "label_val ((k, v) # ls) name = (if k = name then v else label_val ls name)"

definition add_at :: "string \<Rightarrow> 'f \<Rightarrow> (string, 'f :: {zero, plus}) fmap \<Rightarrow> (string, 'f) fmap" where
  "add_at k v m = fmupd k ((case fmlookup m k of Some w \<Rightarrow> w | None \<Rightarrow> 0) + v) m"

definition by_type :: "'f sample \<Rightarrow> string" where
  "by_type m = label_val (sm_labels m) ''object_type''"

definition by_type_and_source :: "'f sample \<Rightarrow> string" where
  "by_type_and_source m = by_type m @ ''/'' @ label_val (sm_labels m) ''source''"

definition read_family :: "'f :: {zero, plus} snapshot \<Rightarrow> 'f family \<Rightarrow> 'f snapshot" where
  "read_family snap mf =
     (let ms = fa_samples mf
      in if fa_name mf = ''ew_connected_clients'' then foldl (\<lambda>s m. s\<lparr>sn_connected := sm_value m\<rparr>) snap ms
         else if fa_name mf = ''ew_topics_total'' then foldl (\<lambda>s m. s\<lparr>sn_topics := sm_value m\<rparr>) snap ms
         else if fa_name mf = ''ew_subscriptions'' then
           foldl (\<lambda>s m. s\<lparr>sn_subscriptions := fmupd (by_type m) (sm_value m) (sn_subscriptions s)\<rparr>) snap ms
         else if fa_name mf = ''ew_events_ingested_total'' then
           foldl (\<lambda>s m. s\<lparr>sn_ingested := add_at (by_type_and_source m) (sm_value m) (sn_ingested s)\<rparr>) snap ms
         else if fa_name mf = ''ew_events_fanned_out_total'' then
           foldl (\<lambda>s m. s\<lparr>sn_fanned_out := add_at (by_type m) (sm_value m) (sn_fanned_out s)\<rparr>) snap ms
         else if fa_name mf = ''ew_dropped_slow_consumer_total'' then
           foldl (\<lambda>s m. s\<lparr>sn_dropped := add_at (by_type m) (sm_value m) (sn_dropped s)\<rparr>) snap ms
         else snap)"

definition empty_snapshot :: "'f :: zero snapshot" where
  "empty_snapshot = \<lparr>sn_connected = 0, sn_subscriptions = fmempty, sn_ingested = fmempty, sn_fanned_out = fmempty,
     sn_dropped = fmempty, sn_topics = 0\<rparr>"

definition metrics_read :: "gerr + 'f :: {zero, plus} family list \<Rightarrow> 'f snapshot" where
  "metrics_read gathered =
     (case gathered of Inl _ \<Rightarrow> empty_snapshot | Inr mfs \<Rightarrow> foldl read_family empty_snapshot mfs)"

text \<open>What a dashboard shows for a key: 0 where there is none.\<close>

definition count_at :: "string \<Rightarrow> (string, int) fmap \<Rightarrow> int" where
  "count_at k m = (case fmlookup m k of None \<Rightarrow> 0 | Some v \<Rightarrow> v)"

section \<open>What the updates add up to\<close>

definition connected_gauge :: "metric_op list \<Rightarrow> int" where
  "connected_gauge ms = int (count_list ms IncConnected) - int (count_list ms DecConnected)"

definition sub_gauge :: "string \<Rightarrow> metric_op list \<Rightarrow> int" where
  "sub_gauge ot ms = int (count_list ms (IncSubscriptions ot)) - int (count_list ms (DecSubscriptions ot))"

lemma gauge_simps [simp]:
  "connected_gauge [] = 0" "connected_gauge (xs @ ys) = connected_gauge xs + connected_gauge ys"
  "sub_gauge ot [] = 0" "sub_gauge ot (xs @ ys) = sub_gauge ot xs + sub_gauge ot ys"
  "connected_gauge [IncConnected] = 1" "connected_gauge [DecConnected] = -1" "connected_gauge [IncSubscriptions u] = 0"
  "connected_gauge [DecSubscriptions u] = 0" "sub_gauge ot [IncConnected] = 0" "sub_gauge ot [DecConnected] = 0"
  by (simp_all add: connected_gauge_def sub_gauge_def)

lemma sub_gauge_one [simp]:
  "sub_gauge ot [IncSubscriptions u] = (if u = ot then 1 else 0)" "sub_gauge ot [DecSubscriptions u] = (if u = ot then -1 else 0)"
  by (simp_all add: sub_gauge_def)

definition fanned_out :: "string \<Rightarrow> metric_op list \<Rightarrow> nat" where
  "fanned_out ot ms = sum_list (map (\<lambda>op. case op of AddFannedOut u n \<Rightarrow> (if u = ot then n else 0) | _ \<Rightarrow> 0) ms)"

definition last_topics :: "metric_op list \<Rightarrow> nat" where
  "last_topics ms = foldl (\<lambda>v op. case op of SetTopics n \<Rightarrow> n | _ \<Rightarrow> v) 0 ms"

lemma child_value_snoc:
  "child_value c ls [] = 0"
  "child_value c ls (ms @ [op]) = (if call_of c ls op then snd (snd (metric_call op)) (child_value c ls ms) else child_value c ls ms)"
  by (simp_all add: child_value_def)

lemma collectors_distinct: "distinct (map co_name registered_collectors)"
  by (simp add: registered_collectors_def collector_defs)

lemma child_values:
  "child_value connected_clients [] ms = connected_gauge ms"
  "child_value subscriptions [ot] ms = sub_gauge ot ms"
  "child_value events_ingested [ot, source] ms = int (count_list ms (IncIngested ot source))"
  "child_value events_fanned_out [ot] ms = int (fanned_out ot ms)"
  "child_value dropped_slow_consumer [ot] ms = int (count_list ms (IncDropped ot))"
  "child_value topics_total [] ms = int (last_topics ms)"
proof (induction ms rule: rev_induct)
  case (snoc op ms)
  { case 1 show ?case using snoc(1) by (cases op) (simp_all add: child_value_snoc call_of_def collector_defs connected_gauge_def) }
  { case 2 show ?case using snoc(2) by (cases op) (simp_all add: child_value_snoc call_of_def collector_defs sub_gauge_def) }
  { case 3 show ?case using snoc(3) by (cases op) (simp_all add: child_value_snoc call_of_def collector_defs) }
  { case 4 show ?case using snoc(4) by (cases op) (simp_all add: child_value_snoc call_of_def collector_defs fanned_out_def) }
  { case 5 show ?case using snoc(5) by (cases op) (simp_all add: child_value_snoc call_of_def collector_defs) }
  { case 6 show ?case using snoc(6) by (cases op) (simp_all add: child_value_snoc call_of_def collector_defs last_topics_def) }
qed (simp_all add: child_value_snoc fanned_out_def last_topics_def)

lemma children_untouched: "co_labels c \<noteq> [] \<Longrightarrow> ls \<notin> set (children c ms) \<Longrightarrow> child_value c ls ms = 0"
proof (induction ms rule: rev_induct)
  case (snoc op ms)
  have "ls \<notin> set (children c ms) \<and> \<not> call_of c ls op"
    using snoc.prems by (cases "metric_call op") (auto simp: children_def call_of_def image_iff)
  then show ?case using snoc by (simp add: child_value_snoc)
qed (simp add: child_value_snoc)

lemma children_labels: "ls \<in> set (children c ms) \<Longrightarrow> length ls = length (co_labels c)"
proof -
  have "length (fst (snd (metric_call op))) = length (co_labels (fst (metric_call op)))" for op
    by (cases op) (simp_all add: collector_defs)
  then show "ls \<in> set (children c ms) \<Longrightarrow> length ls = length (co_labels c)"
    by (auto simp: children_def split: if_splits)
qed

section \<open>What the reading gives\<close>

lemma foldl_connected: "foldl (\<lambda>s m. s\<lparr>sn_connected := sm_value m\<rparr>) s ms = s\<lparr>sn_connected := foldl (\<lambda>_ m. sm_value m) (sn_connected s) ms\<rparr>"
  by (induction ms arbitrary: s) simp_all

lemma foldl_topics: "foldl (\<lambda>s m. s\<lparr>sn_topics := sm_value m\<rparr>) s ms = s\<lparr>sn_topics := foldl (\<lambda>_ m. sm_value m) (sn_topics s) ms\<rparr>"
  by (induction ms arbitrary: s) simp_all

lemma foldl_subscriptions:
  "foldl (\<lambda>s m. s\<lparr>sn_subscriptions := fmupd (by_type m) (sm_value m) (sn_subscriptions s)\<rparr>) s ms =
     s\<lparr>sn_subscriptions := foldl (\<lambda>v m. fmupd (by_type m) (sm_value m) v) (sn_subscriptions s) ms\<rparr>"
  by (induction ms arbitrary: s) simp_all

lemma foldl_ingested:
  "foldl (\<lambda>s m. s\<lparr>sn_ingested := add_at (by_type_and_source m) (sm_value m) (sn_ingested s)\<rparr>) s ms =
     s\<lparr>sn_ingested := foldl (\<lambda>v m. add_at (by_type_and_source m) (sm_value m) v) (sn_ingested s) ms\<rparr>"
  by (induction ms arbitrary: s) simp_all

lemma foldl_fanned_out:
  "foldl (\<lambda>s m. s\<lparr>sn_fanned_out := add_at (by_type m) (sm_value m) (sn_fanned_out s)\<rparr>) s ms =
     s\<lparr>sn_fanned_out := foldl (\<lambda>v m. add_at (by_type m) (sm_value m) v) (sn_fanned_out s) ms\<rparr>"
  by (induction ms arbitrary: s) simp_all

lemma foldl_dropped:
  "foldl (\<lambda>s m. s\<lparr>sn_dropped := add_at (by_type m) (sm_value m) (sn_dropped s)\<rparr>) s ms =
     s\<lparr>sn_dropped := foldl (\<lambda>v m. add_at (by_type m) (sm_value m) v) (sn_dropped s) ms\<rparr>"
  by (induction ms arbitrary: s) simp_all

lemmas foldl_fields = foldl_connected foldl_topics foldl_subscriptions foldl_ingested foldl_fanned_out foldl_dropped

lemma samples_of_simps [simp]:
  "samples_of n [] = []" "samples_of n (f # fs) = (if fa_name f = n then fa_samples f @ samples_of n fs else samples_of n fs)"
  by (simp_all add: samples_of_def)

text \<open>Each part of the snapshot is a fold over the samples of one family.\<close>

lemma read_families:
  "sn_connected (foldl read_family s fs) = foldl (\<lambda>_ m. sm_value m) (sn_connected s) (samples_of ''ew_connected_clients'' fs)"
  "sn_topics (foldl read_family s fs) = foldl (\<lambda>_ m. sm_value m) (sn_topics s) (samples_of ''ew_topics_total'' fs)"
  "sn_subscriptions (foldl read_family s fs) =
     foldl (\<lambda>v m. fmupd (by_type m) (sm_value m) v) (sn_subscriptions s) (samples_of ''ew_subscriptions'' fs)"
  "sn_ingested (foldl read_family s fs) =
     foldl (\<lambda>v m. add_at (by_type_and_source m) (sm_value m) v) (sn_ingested s) (samples_of ''ew_events_ingested_total'' fs)"
  "sn_fanned_out (foldl read_family s fs) =
     foldl (\<lambda>v m. add_at (by_type m) (sm_value m) v) (sn_fanned_out s) (samples_of ''ew_events_fanned_out_total'' fs)"
  "sn_dropped (foldl read_family s fs) =
     foldl (\<lambda>v m. add_at (by_type m) (sm_value m) v) (sn_dropped s) (samples_of ''ew_dropped_slow_consumer_total'' fs)"
  by (induction fs arbitrary: s) (simp_all add: read_family_def Let_def foldl_fields)

lemma count_at_simps [simp]:
  "count_at k fmempty = 0" "count_at k (fmupd k' v m) = (if k = k' then v else count_at k m)"
  "count_at k (add_at k' v m) = (if k = k' then count_at k m + v else count_at k m)"
  by (simp_all add: count_at_def add_at_def)

lemma count_at_adds:
  "count_at k (foldl (\<lambda>v x. add_at (f x) (g x) v) m xs) = count_at k m + sum_list (map g (filter (\<lambda>x. f x = k) xs))"
  by (induction xs arbitrary: m) simp_all

lemma count_at_upds:
  assumes "inj_on f (set xs)" "distinct xs"
  shows "count_at k (foldl (\<lambda>v x. fmupd (f x) (g x) v) m xs) =
    (if k \<in> f ` set xs then sum_list (map g (filter (\<lambda>x. f x = k) xs)) else count_at k m)"
  using assms
proof (induction xs arbitrary: m)
  case (Cons x xs)
  have "filter (\<lambda>y. f y = f x) xs = []" using Cons.prems by (auto simp: filter_empty_conv inj_on_def)
  then show ?case using Cons by auto
qed simp

lemma filter_single: "distinct xs \<Longrightarrow> (\<And>x. x \<in> set xs \<Longrightarrow> P x \<longleftrightarrow> x = a) \<Longrightarrow> filter P xs = (if a \<in> set xs then [a] else [])"
proof (induction xs)
  case (Cons x xs)
  then have "filter P xs = (if a \<in> set xs then [a] else [])" by simp
  then show ?case using Cons.prems by auto
qed simp

lemma sample_keys:
  "by_type (child_sample subscriptions ms [ot]) = ot" "by_type (child_sample events_fanned_out ms [ot]) = ot"
  "by_type (child_sample dropped_slow_consumer ms [ot]) = ot"
  "by_type_and_source (child_sample events_ingested ms [ot, source]) = ot @ ''/'' @ source"
  "sm_value (child_sample c ms ls) = child_value c ls ms"
  by (simp_all add: by_type_def by_type_and_source_def child_sample_def collector_defs)

lemma child_sum:
  assumes "distinct lss" "set lss = set (children c ms)" "co_labels c \<noteq> []"
    and "\<And>ls. ls \<in> set lss \<Longrightarrow> key (child_sample c ms ls) = k \<longleftrightarrow> ls = ls0"
  shows "sum_list (map sm_value (filter (\<lambda>m. key m = k) (map (child_sample c ms) lss))) = child_value c ls0 ms"
proof -
  have "filter (\<lambda>m. key m = k) (map (child_sample c ms) lss) = map (child_sample c ms) (if ls0 \<in> set lss then [ls0] else [])"
    unfolding filter_map o_def using assms(4) by (subst filter_single[OF assms(1)]) auto
  then show ?thesis using children_untouched[OF assms(3)] assms(2) by (simp add: sample_keys)
qed

lemma length_one: "length xs = Suc 0 \<longleftrightarrow> (\<exists>x. xs = [x])" "length xs = Suc (Suc 0) \<longleftrightarrow> (\<exists>x y. xs = [x, y])"
  by (auto simp: length_Suc_conv)

lemma ingested_child: "ls \<in> set (children events_ingested ms) \<Longrightarrow> \<exists>u s. ls = [u, s] \<and> IncIngested u s \<in> set ms"
proof -
  have "metric_call op = (events_ingested, ls, f) \<Longrightarrow> \<exists>u s. ls = [u, s] \<and> op = IncIngested u s" for op f
    by (cases op) (auto simp: collector_defs)
  then show "ls \<in> set (children events_ingested ms) \<Longrightarrow> \<exists>u s. ls = [u, s] \<and> IncIngested u s \<in> set ms"
    by (fastforce simp: children_def collector_defs prod_eq_iff)
qed

lemma slash_key_inj:
  assumes "CHR ''/'' \<notin> set u" "CHR ''/'' \<notin> set v"
  shows "u @ ''/'' @ s = v @ ''/'' @ t \<longleftrightarrow> u = v \<and> s = t"
  using assms
proof (induction u arbitrary: v)
  case Nil
  then show ?case by (cases v) auto
next
  case (Cons c u)
  then show ?case by (cases v) auto
qed

context metrics_registry
begin

lemma one_label:
  assumes "gather ms = Inr fs" "c \<in> set registered_collectors" "co_kind c \<noteq> Histogram" "co_labels c = [''object_type'']"
  shows "\<exists>lss. distinct lss \<and> set lss = set (children c ms) \<and> samples_of (co_name c) fs = map (child_sample c ms) lss
    \<and> (\<forall>ot. \<forall>ls \<in> set lss. by_type (child_sample c ms ls) = ot \<longleftrightarrow> ls = [ot])"
proof -
  have "by_type (child_sample c ms ls) = ot \<longleftrightarrow> ls = [ot]" if "ls \<in> set (children c ms)" for ls ot
    using children_labels[OF that] assms(4) by (auto simp: length_one by_type_def child_sample_def)
  then show ?thesis using gathered[OF assms(1-3)] by metis
qed

lemma reads_adds:
  assumes "gather ms = Inr fs" "c \<in> set registered_collectors" "co_kind c \<noteq> Histogram" "co_labels c = [''object_type'']"
  shows "count_at ot (foldl (\<lambda>v m. add_at (by_type m) (sm_value m) v) fmempty (samples_of (co_name c) fs)) = child_value c [ot] ms"
proof -
  obtain lss where l: "distinct lss" "set lss = set (children c ms)" "samples_of (co_name c) fs = map (child_sample c ms) lss"
    "\<forall>ot. \<forall>ls \<in> set lss. by_type (child_sample c ms ls) = ot \<longleftrightarrow> ls = [ot]"
    using one_label[OF assms] by blast
  show ?thesis using child_sum[OF l(1,2), of by_type ot "[ot]"] l(4) assms(4) unfolding l(3) count_at_adds by simp
qed

lemma reads_upds:
  assumes "gather ms = Inr fs" "c \<in> set registered_collectors" "co_kind c \<noteq> Histogram" "co_labels c = [''object_type'']"
  shows "count_at ot (foldl (\<lambda>v m. fmupd (by_type m) (sm_value m) v) fmempty (samples_of (co_name c) fs)) = child_value c [ot] ms"
proof -
  obtain lss where l: "distinct lss" "set lss = set (children c ms)" "samples_of (co_name c) fs = map (child_sample c ms) lss"
    "\<forall>ot. \<forall>ls \<in> set lss. by_type (child_sample c ms ls) = ot \<longleftrightarrow> ls = [ot]"
    using one_label[OF assms] by blast
  have key: "inj_on (\<lambda>ls. by_type (child_sample c ms ls)) (set lss)"
    using l(4) by (metis (no_types, lifting) inj_onI)
  then have "inj_on by_type (set (map (child_sample c ms) lss))" "distinct (map (child_sample c ms) lss)"
    using l(1) by (auto simp: inj_on_def distinct_map)
  moreover have "ot \<in> by_type ` set (map (child_sample c ms) lss) \<longleftrightarrow> (\<exists>ls \<in> set lss. ls = [ot])"
    using l(4) by (simp add: image_image image_iff eq_commute[of ot])
  ultimately show ?thesis
    using child_sum[OF l(1,2), of by_type ot "[ot]"] children_untouched[of c "[ot]" ms, folded l(2)] l(4) assms(4)
    unfolding l(3) by (simp add: count_at_upds)
qed

lemma reads_ingested:
  assumes "gather ms = Inr fs" "CHR ''/'' \<notin> set ot" "\<And>u s. IncIngested u s \<in> set ms \<Longrightarrow> CHR ''/'' \<notin> set u"
  shows "count_at (ot @ ''/'' @ source)
      (foldl (\<lambda>v m. add_at (by_type_and_source m) (sm_value m) v) fmempty (samples_of (co_name events_ingested) fs)) =
    child_value events_ingested [ot, source] ms"
proof -
  have c: "events_ingested \<in> set registered_collectors" "co_kind events_ingested \<noteq> Histogram" "co_labels events_ingested \<noteq> []"
    by (simp_all add: registered_collectors_def) (simp_all add: collector_defs)
  obtain lss where l: "distinct lss" "set lss = set (children events_ingested ms)"
    "samples_of (co_name events_ingested) fs = map (child_sample events_ingested ms) lss"
    using gathered[OF assms(1) c(1,2)] by blast
  have "by_type_and_source (child_sample events_ingested ms ls) = ot @ ''/'' @ source \<longleftrightarrow> ls = [ot, source]" if "ls \<in> set lss" for ls
    using ingested_child[of ls ms] that l(2) slash_key_inj[OF _ assms(2)] assms(3) by (auto simp: sample_keys)
  then show ?thesis
    using child_sum[OF l(1,2) c(3), of by_type_and_source "ot @ ''/'' @ source" "[ot, source]"]
    unfolding l(3) count_at_adds by simp
qed

lemma reads_single:
  assumes "gather ms = Inr fs" "c \<in> set registered_collectors" "co_kind c \<noteq> Histogram" "co_labels c = []"
  shows "foldl (\<lambda>_ m. sm_value m) v (samples_of (co_name c) fs) = child_value c [] ms"
proof -
  obtain lss where l: "distinct lss" "set lss = {[]}" "samples_of (co_name c) fs = map (child_sample c ms) lss"
    using gathered[OF assms(1-3)] assms(4) by (auto simp: children_def)
  have "length lss = Suc 0" using distinct_card[OF l(1)] unfolding l(2) by simp
  then obtain x where "lss = [x]" unfolding length_one(1) by blast
  then have "lss = [[]]" using l(2) by simp
  then show ?thesis using l(3) by (simp add: sample_keys)
qed

text \<open>The snapshot of a log of updates.\<close>

lemma read_counts:
  assumes "gather ms = Inr fs"
  shows "sn_connected (metrics_read (gather ms)) = connected_gauge ms"
    "sn_topics (metrics_read (gather ms)) = int (last_topics ms)"
    "count_at ot (sn_subscriptions (metrics_read (gather ms))) = sub_gauge ot ms"
    "count_at ot (sn_fanned_out (metrics_read (gather ms))) = int (fanned_out ot ms)"
    "count_at ot (sn_dropped (metrics_read (gather ms))) = int (count_list ms (IncDropped ot))"
    "CHR ''/'' \<notin> set ot \<Longrightarrow> (\<And>u s. IncIngested u s \<in> set ms \<Longrightarrow> CHR ''/'' \<notin> set u) \<Longrightarrow>
       count_at (ot @ ''/'' @ source) (sn_ingested (metrics_read (gather ms))) = int (count_list ms (IncIngested ot source))"
proof -
  have r: "metrics_read (gather ms) = foldl read_family empty_snapshot fs" by (simp add: metrics_read_def assms)
  note single = reads_single[OF assms] and adds = reads_adds[OF assms] and upds = reads_upds[OF assms]
  show "sn_connected (metrics_read (gather ms)) = connected_gauge ms"
    "sn_topics (metrics_read (gather ms)) = int (last_topics ms)"
    using single[of connected_clients] single[of topics_total]
    unfolding r read_families by (simp_all add: registered_collectors_def child_values[symmetric]) (simp_all add: collector_defs)
  show "count_at ot (sn_subscriptions (metrics_read (gather ms))) = sub_gauge ot ms"
    "count_at ot (sn_fanned_out (metrics_read (gather ms))) = int (fanned_out ot ms)"
    "count_at ot (sn_dropped (metrics_read (gather ms))) = int (count_list ms (IncDropped ot))"
    using upds[of subscriptions] adds[of events_fanned_out] adds[of dropped_slow_consumer]
    unfolding r read_families child_values[symmetric]
    by (simp_all add: registered_collectors_def empty_snapshot_def) (simp_all add: collector_defs)
  show "count_at (ot @ ''/'' @ source) (sn_ingested (metrics_read (gather ms))) = int (count_list ms (IncIngested ot source))"
    if "CHR ''/'' \<notin> set ot" "\<And>u s. IncIngested u s \<in> set ms \<Longrightarrow> CHR ''/'' \<notin> set u"
    using reads_ingested[OF assms that]
    unfolding r read_families child_values[symmetric] by (simp add: empty_snapshot_def events_ingested_def)
qed

end

lemma ref_samples:
  "samples_of n (map (\<lambda>c. \<lparr>fa_name = co_name c, fa_samples = g c\<rparr>) cs) = concat (map g (filter (\<lambda>c. co_name c = n) cs))"
  by (induction cs) simp_all

interpretation ref_metrics: metrics_registry ref_gather
proof
  fix ms fs c
  assume f: "ref_gather ms = Inr fs" and c: "c \<in> set registered_collectors" "co_kind c \<noteq> Histogram"
  have "filter (\<lambda>d. co_name d = co_name c) (filter (\<lambda>c. co_kind c \<noteq> Histogram) registered_collectors) = [c]"
    using c collectors_distinct by (subst filter_single[where a = c]) (auto simp: distinct_map inj_on_def)
  then have "samples_of (co_name c) fs = map (child_sample c ms) (children c ms)"
    using f by (auto simp: ref_gather_def ref_samples)
  moreover have "distinct (children c ms)" by (simp add: children_def)
  ultimately show "\<exists>lss. distinct lss \<and> set lss = set (children c ms) \<and> samples_of (co_name c) fs = map (child_sample c ms) lss"
    by blast
qed

end
