(* ===== verification/WsConn.thy ===== *)
theory WsConn
  imports WsSession Metrics
begin

text \<open>
  A whole WebSocket connection, \<open>NewWSHandler\<close> in \<open>internal/transport/ws.go\<close>: the reader, the writer
  and the forwarders as goroutines that take turns with each other and with the rest of the server.
  A step is one action of one of them; what \<open>WsSession\<close> has as one function is here cut at every point where
  another goroutine may come in: a subscribe is the registration, the read of the backfill, one
  step per frame and the registration of the forwarder, a publish its two halves. A frame is
  written, or the write fails; deadlines and pings show as failures of the writer and the reader.
  Deleting a topic while the connection runs is left out, as in \<open>Delivery\<close>.

  The main results: \<open>conn_handles\<close> (uninterrupted, the steps are the functions of \<open>WsSession\<close>), \<open>conn_wire_in_order\<close> (what the client reads of a topic is strictly increasing, as long as
  it does not unsubscribe from it in between), \<open>conn_releases\<close> (a connection that is gone leaves no
  subscription and no trace in the gauges), \<open>conn_goroutines_end\<close> (its goroutines then end after a
  bounded number of steps); \<open>conn_resubscribe_repeats\<close> shows what an unsubscribe lets through.
\<close>

section \<open>State\<close>

text \<open>
  Where the reader is: waiting for a frame; in a subscribe that is registered in the hub, or that
  has frames to send and a forwarder to start; in a publish that waits for the hub half; and the
  deferred calls on its way out, closing the socket (done in \<open>RdClosing\<close>), the subscriptions
  (done in \<open>RdLeaving\<close>) and the context (done in \<open>RdGone\<close>).
\<close>

datatype ws_reader =
    RdIdle
  | RdOpened in_msg nat
  | RdSending in_msg nat nat "out_msg list"
  | RdPublishing in_msg nat
  | RdClosing
  | RdLeaving
  | RdGone

text \<open>
  \<open>wc_pending\<close>: the publish that holds the broker's lock, between its halves; \<open>wc_wire\<close>: the frames
  written; \<open>wc_opened\<close> remembers the subscriptions the connection has opened.
\<close>

record 's ws_conn =
  wc_broker :: "'s broker"
  wc_pending :: "(string \<times> string \<times> event \<times> raw) option"
  wc_session :: ws_session
  wc_reader :: ws_reader
  wc_writer :: bool
  wc_cancelled :: bool
  wc_wire :: "out_msg list"
  wc_opened :: "nat list"

definition conn_open :: "'s broker \<Rightarrow> 's ws_conn" where
  "conn_open b = \<lparr>wc_broker = add_metrics [IncConnected] b, wc_pending = None, wc_session = ws_new, wc_reader = RdIdle,
     wc_writer = True, wc_cancelled = False, wc_wire = [], wc_opened = []\<rparr>"

fun socket_closed :: "ws_reader \<Rightarrow> bool" where
  "socket_closed RdClosing = True"
| "socket_closed RdLeaving = True"
| "socket_closed RdGone = True"
| "socket_closed _ = False"

section \<open>Steps\<close>

text \<open>
  Of others: the halves of a publish, and operations on their own subscriptions. Of the reader: a frame
  read and handled, the steps of a handler, the end. Of the writer: a frame or a ping written or not, the end.
  Of a forwarder: an event passed on, the end.
\<close>

datatype ws_act =
    WaIngest time string event string
  | WaFanout
  | WaOther hub_op
  | WaRead time string in_msg
  | WaBackfill
  | WaSend
  | WaReadErr
  | WaCloseSubs
  | WaCancel
  | WaWrite bool
  | WaPing bool
  | WaWriterDone
  | WaForward nat
  | WaForwardDone nat

text \<open>The checks of \<open>Publish\<close> before it takes the lock.\<close>

definition publish_check :: "event \<Rightarrow> gerr + string" where
  "publish_check e =
     (case validate_topic (ev_topic e) of
        Some err \<Rightarrow> Inl err
      | None \<Rightarrow> if ev_type e = [] then Inl (ErrMsg ''event type required'') else parse_object_type (ev_topic e))"

definition conn_send :: "out_msg \<Rightarrow> 's ws_conn \<Rightarrow> 's ws_conn" where
  "conn_send m c = c\<lparr>wc_session := ws_send m (wc_session c)\<rparr>"

text \<open>\<open>handleSubscribe\<close> up to the registration in the hub.\<close>

definition conn_subscribe :: "in_msg \<Rightarrow> 's ws_conn \<Rightarrow> 's ws_conn" where
  "conn_subscribe m c =
     (if fmlookup (ws_subs (wc_session c)) (im_topic m) \<noteq> None then
        conn_send (error_frame (im_topic m) ''already subscribed'' (im_req_id m)) c
      else (case validate_topic (im_topic m) of
              Some err \<Rightarrow> conn_send (error_frame (im_topic m) (err_text err) (im_req_id m)) c
            | None \<Rightarrow>
                (let (sub, h) = hub_subscribe (im_topic m) (br_hub (wc_broker c))
                 in c\<lparr>wc_broker := (wc_broker c)\<lparr>br_hub := h\<rparr>, wc_reader := RdOpened m sub, wc_opened := sub # wc_opened c\<rparr>)))"

text \<open>The backfill is read, or the subscription closed again.\<close>

definition conn_backfill :: "in_msg \<Rightarrow> nat \<Rightarrow> 's ws_conn \<Rightarrow> 's ws_conn" where
  "conn_backfill m sub c =
     (let b = wc_broker c; t = im_topic m; ot = (case parse_object_type t of Inr ot \<Rightarrow> ot | Inl _ \<Rightarrow> [])
      in case read_backfill (br_ops b) t (parse_from (im_from m) (im_from_seq m)) (br_store b) of
           Inl err \<Rightarrow> conn_send (error_frame t (err_text err) (im_req_id m))
                        (c\<lparr>wc_broker := b\<lparr>br_hub := hub_close sub (br_hub b)\<rparr>, wc_reader := RdIdle\<rparr>)
         | Inr backfill \<Rightarrow>
             c\<lparr>wc_broker := add_metrics [IncSubscriptions ot] b,
               wc_reader := RdSending m sub (fence_of backfill)
                 (map (event_frame t) backfill @ [ack_frame t (fence_of backfill) (im_req_id m)])\<rparr>)"

definition conn_register :: "in_msg \<Rightarrow> nat \<Rightarrow> nat \<Rightarrow> 's ws_conn \<Rightarrow> 's ws_conn" where
  "conn_register m sub fence c =
     (let s = wc_session c
      in c\<lparr>wc_reader := RdIdle,
           wc_session := s\<lparr>ws_subs := fmupd (im_topic m) sub (ws_subs s),
             ws_fwd := fmupd sub \<lparr>fw_topic = im_topic m, fw_fence = fence, fw_last_lag = 0\<rparr> (ws_fwd s)\<rparr>\<rparr>)"

text \<open>\<open>handlePublish\<close> up to the store half; \<open>None\<close> while another publish holds the lock.\<close>

definition conn_publish :: "time \<Rightarrow> string \<Rightarrow> in_msg \<Rightarrow> 's ws_conn \<Rightarrow> 's ws_conn option" where
  "conn_publish now rid m c =
     (let e = new_event (im_topic m) (im_type m) (im_actor m) (im_payload m) now
      in case publish_check e of
           Inl err \<Rightarrow> Some (conn_send (error_frame (im_topic m) (err_text err) (im_req_id m)) c)
         | Inr ot \<Rightarrow>
             if wc_pending c \<noteq> None then None
             else (case broker_ingest now rid ot e (wc_broker c) of
                     (Inl err, b) \<Rightarrow> Some (conn_send (error_frame (im_topic m) (err_text err) (im_req_id m)) (c\<lparr>wc_broker := b\<rparr>))
                   | (Inr (seq, e1, next), b) \<Rightarrow>
                       Some (c\<lparr>wc_broker := b, wc_pending := Some (ot, ''ws'', e1, next), wc_reader := RdPublishing m seq\<rparr>)))"

text \<open>One frame read by \<open>readPump\<close>.\<close>

definition conn_read :: "time \<Rightarrow> string \<Rightarrow> in_msg \<Rightarrow> 's ws_conn \<Rightarrow> 's ws_conn option" where
  "conn_read now rid m c =
     (if im_op m = ''subscribe'' then Some (conn_subscribe m c)
      else if im_op m = ''publish'' then conn_publish now rid m c
      else (let (b, s) = ws_handle now rid m (wc_broker c, wc_session c) in Some (c\<lparr>wc_broker := b, wc_session := s\<rparr>)))"

text \<open>The hub half of the pending publish; the connection's own is then acknowledged.\<close>

definition conn_fanout :: "'s ws_conn \<Rightarrow> 's ws_conn option" where
  "conn_fanout c =
     (case wc_pending c of
        None \<Rightarrow> None
      | Some (ot, source, e, next) \<Rightarrow>
          (let c1 = c\<lparr>wc_broker := broker_fanout ot source e next (wc_broker c), wc_pending := None\<rparr>
           in Some (case wc_reader c of
                      RdPublishing m seq \<Rightarrow> conn_send (ack_frame (im_topic m) seq (im_req_id m)) (c1\<lparr>wc_reader := RdIdle\<rparr>)
                    | _ \<Rightarrow> c1)))"

text \<open>The context of a forwarder is done when it was cancelled by the loss of its entry, or with the session.\<close>

definition forwarder_done :: "nat \<Rightarrow> 's ws_conn \<Rightarrow> bool" where
  "forwarder_done i c \<longleftrightarrow> wc_cancelled c \<or> i \<notin> fmran' (ws_subs (wc_session c))
     \<or> (case fmlookup (hub_subs (br_hub (wc_broker c))) i of Some s \<Rightarrow> sub_done s | None \<Rightarrow> True)"

fun conn_exec :: "ws_act \<Rightarrow> 's ws_conn \<Rightarrow> 's ws_conn option" where
  "conn_exec (WaIngest now rid e source) c =
     (case publish_check e of
        Inl _ \<Rightarrow> None
      | Inr ot \<Rightarrow>
          if wc_pending c \<noteq> None then None
          else (case broker_ingest now rid ot e (wc_broker c) of
                  (Inl _, b) \<Rightarrow> Some (c\<lparr>wc_broker := b\<rparr>)
                | (Inr (seq, e1, next), b) \<Rightarrow> Some (c\<lparr>wc_broker := b, wc_pending := Some (ot, source, e1, next)\<rparr>)))"
| "conn_exec WaFanout c = conn_fanout c"
| "conn_exec (WaOther op) c =
     (if list_all (\<lambda>i. foreign_op (Some i) op) (wc_opened c) \<and> foreign_op None op
      then Some (c\<lparr>wc_broker := (wc_broker c)\<lparr>br_hub := hub_exec op (br_hub (wc_broker c))\<rparr>\<rparr>) else None)"
| "conn_exec (WaRead now rid m) c = (if wc_reader c = RdIdle then conn_read now rid m c else None)"
| "conn_exec WaBackfill c = (case wc_reader c of RdOpened m sub \<Rightarrow> Some (conn_backfill m sub c) | _ \<Rightarrow> None)"
| "conn_exec WaSend c =
     (case wc_reader c of
        RdSending m sub fence [] \<Rightarrow> Some (conn_register m sub fence c)
      | RdSending m sub fence (f # fs) \<Rightarrow> Some (conn_send f (c\<lparr>wc_reader := RdSending m sub fence fs\<rparr>))
      | _ \<Rightarrow> None)"
| "conn_exec WaReadErr c = (if wc_reader c = RdIdle then Some (c\<lparr>wc_reader := RdClosing\<rparr>) else None)"
| "conn_exec WaCloseSubs c =
     (if wc_reader c = RdClosing then
        (let (b, s) = ws_close_all (wc_broker c, wc_session c) in Some (c\<lparr>wc_broker := b, wc_session := s, wc_reader := RdLeaving\<rparr>))
      else None)"
| "conn_exec WaCancel c =
     (if wc_reader c = RdLeaving then
        Some (c\<lparr>wc_cancelled := True, wc_reader := RdGone, wc_broker := add_metrics [DecConnected] (wc_broker c)\<rparr>)
      else None)"
| "conn_exec (WaWrite ok) c =
     (if wc_writer c \<and> \<not> (ok \<and> socket_closed (wc_reader c)) then
        (case ws_write (wc_session c) of
           None \<Rightarrow> None
         | Some (m, s) \<Rightarrow> Some (if ok then c\<lparr>wc_session := s, wc_wire := wc_wire c @ [m]\<rparr>
                              else c\<lparr>wc_session := s, wc_writer := False, wc_cancelled := True\<rparr>))
      else None)"
| "conn_exec (WaPing ok) c =
     (if wc_writer c \<and> \<not> (ok \<and> socket_closed (wc_reader c)) then
        Some (if ok then c else c\<lparr>wc_writer := False, wc_cancelled := True\<rparr>)
      else None)"
| "conn_exec WaWriterDone c = (if wc_writer c \<and> wc_cancelled c then Some (c\<lparr>wc_writer := False\<rparr>) else None)"
| "conn_exec (WaForward i) c =
     map_option (\<lambda>(b, s). c\<lparr>wc_broker := b, wc_session := s\<rparr>) (ws_forward i (wc_broker c, wc_session c))"
| "conn_exec (WaForwardDone i) c =
     (if i \<in> fmdom' (ws_fwd (wc_session c)) \<and> forwarder_done i c
      then Some (c\<lparr>wc_session := ws_forward_stop i (wc_session c)\<rparr>) else None)"

fun conn_run :: "ws_act list \<Rightarrow> 's ws_conn \<Rightarrow> 's ws_conn option" where
  "conn_run [] c = Some c"
| "conn_run (a # as) c = (case conn_exec a c of None \<Rightarrow> None | Some c1 \<Rightarrow> conn_run as c1)"

section \<open>Frames of a topic\<close>

definition event_of :: "string \<Rightarrow> out_msg \<Rightarrow> event option" where
  "event_of t m = (if om_type m = ''event'' \<and> om_topic m = t then om_event m else None)"

definition events_of :: "string \<Rightarrow> out_msg list \<Rightarrow> event list" where
  "events_of t ms = List.map_filter (event_of t) ms"

lemma events_of_simps [simp]:
  "events_of t [] = []" "events_of t (m # ms) = (case event_of t m of None \<Rightarrow> [] | Some e \<Rightarrow> [e]) @ events_of t ms"
  "events_of t (xs @ ys) = events_of t xs @ events_of t ys"
  by (auto simp: events_of_def List.map_filter_def split: option.splits)

lemma event_of_frames [simp]:
  "event_of t (event_frame u e) = (if u = t then Some e else None)" "event_of t (ack_frame u n q) = None"
  "event_of t (error_frame u msg q) = None" "om_type m \<noteq> ''event'' \<Longrightarrow> event_of t m = None"
  by (simp_all add: event_of_def event_frame_def ack_frame_def error_frame_def frame_def)

lemma events_of_backfill: "events_of t (map (event_frame u) es) = (if u = t then es else [])"
  by (induction es) auto

definition sent_of :: "string \<Rightarrow> 's ws_conn \<Rightarrow> event list" where
  "sent_of t c = events_of t (wc_wire c @ ws_out (wc_session c))"

lemma conn_send_simps [simp]:
  "wc_broker (conn_send m c) = wc_broker c" "wc_pending (conn_send m c) = wc_pending c"
  "wc_reader (conn_send m c) = wc_reader c" "wc_writer (conn_send m c) = wc_writer c"
  "wc_cancelled (conn_send m c) = wc_cancelled c" "wc_wire (conn_send m c) = wc_wire c"
  "wc_opened (conn_send m c) = wc_opened c" "ws_subs (wc_session (conn_send m c)) = ws_subs (wc_session c)"
  "ws_fwd (wc_session (conn_send m c)) = ws_fwd (wc_session c)"
  by (simp_all add: conn_send_def)

text \<open>Sending a frame appends its event, if it is one of the topic, or drops it.\<close>

lemma sent_of_send:
  "sent_of t (conn_send m c) = sent_of t c \<or> sent_of t (conn_send m c) = sent_of t c @ events_of t [m]"
  "event_of t m = None \<Longrightarrow> sent_of t (conn_send m c) = sent_of t c"
  by (auto simp: sent_of_def conn_send_def ws_send_def)

lemma subseq_send: "subseq (sent_of t c @ events_of t [m]) es \<Longrightarrow> subseq (sent_of t (conn_send m c)) es"
  using sent_of_send(1)[of t m c] list_emb_append2[of "(=)" "[]" "events_of t [m]"]
  by (metis append_Nil2 subseq_append' subseq_order.order_trans list_emb_Nil)

section \<open>Whose subscription is whose\<close>

fun reader_sub :: "ws_reader \<Rightarrow> (string \<times> nat) option" where
  "reader_sub (RdOpened m i) = Some (im_topic m, i)"
| "reader_sub (RdSending m i fence fs) = Some (im_topic m, i)"
| "reader_sub _ = None"

definition topic_at :: "'s broker \<Rightarrow> nat \<Rightarrow> string option" where
  "topic_at b i = map_option sub_topic (fmlookup (hub_subs (br_hub b)) i)"

text \<open>A subscription is in the hands of the session's table, of a forwarder, or of the reader.\<close>

definition conn_holds :: "'s ws_conn \<Rightarrow> string \<Rightarrow> nat \<Rightarrow> bool" where
  "conn_holds c t i \<longleftrightarrow> fmlookup (ws_subs (wc_session c)) t = Some i
     \<or> (\<exists>fw. fmlookup (ws_fwd (wc_session c)) i = Some fw \<and> fw_topic fw = t) \<or> reader_sub (wc_reader c) = Some (t, i)"

lemma topic_at_step:
  assumes "hub_step h h'" "hub_inv h" "fmlookup (hub_subs h) i = Some s"
  shows "\<exists>s'. fmlookup (hub_subs h') i = Some s' \<and> sub_topic s' = sub_topic s \<and> (sub_closed s \<longrightarrow> sub_closed s')"
  using assms
proof (cases rule: hub_step.cases)
  case (step_subscribe u j)
  then show ?thesis using assms(3) hub_inv_sub[OF assms(2,3)] hub_subscribe_simps(4)[of u h i] by simp
next
  case (step_close j)
  then show ?thesis using assms(3) by (simp add: hub_simps)
next
  case (step_publish e n)
  then show ?thesis using assms(3) hub_publish_lookup[OF assms(2), of e i] by (simp add: deliver_frame)
next
  case (step_recv j e)
  then show ?thesis using assms(3) by (auto simp: hub_recv_simps hub_simps)
qed

lemma topic_at_steps:
  assumes "hub_step\<^sup>*\<^sup>* h h'" "hub_inv h"
  shows "hub_inv h' \<and> (\<forall>i s. fmlookup (hub_subs h) i = Some s \<longrightarrow>
    (\<exists>s'. fmlookup (hub_subs h') i = Some s' \<and> sub_topic s' = sub_topic s \<and> (sub_closed s \<longrightarrow> sub_closed s')))"
  using assms(1)
proof (induction rule: rtranclp_induct)
  case (step h1 h2)
  then show ?case using topic_at_step[OF step.hyps(2)] hub_step_inv[OF step.hyps(2)] by metis
qed (use assms(2) in simp)

lemma hub_exec_step: "hub_step\<^sup>*\<^sup>* h (hub_exec op h)"
proof (cases op)
  case (OpRecv i)
  then show ?thesis by (auto split: option.splits intro: hub_step.step_recv)
qed (auto intro!: r_into_rtranclp intro: hub_step.step_subscribe[OF prod.collapse[symmetric]] hub_step.step_close
    hub_step.step_publish[OF prod.collapse[symmetric]])

lemma close_all_steps: "hub_step\<^sup>*\<^sup>* h (foldl (\<lambda>h i. hub_close i h) h is)"
proof (induction "is" arbitrary: h)
  case (Cons i "is")
  show ?case using converse_rtranclp_into_rtranclp[OF hub_step.step_close Cons] by simp
qed simp

text \<open>One round of a forwarder.\<close>

lemma ws_forwardE:
  assumes "ws_forward i (b, s) = Some (b', s')"
  obtains fw fw' e h where "fmlookup (ws_fwd s) i = Some fw" "hub_recv i (br_hub b) = Some (e, h)" "b' = b\<lparr>br_hub := h\<rparr>"
    "ws_subs s' = ws_subs s" "ws_fwd s' = fmupd i fw' (ws_fwd s)" "fw_topic fw' = fw_topic fw" "fw_fence fw' = fw_fence fw"
    "length (ws_out s') \<le> length (ws_out s) + 2"
    "\<And>t. \<exists>x. events_of t (ws_out s') = events_of t (ws_out s) @ x
      \<and> subseq x (if fw_topic fw = t then forward_event (fw_fence fw) e else [])"
proof -
  obtain fw e h where fw: "fmlookup (ws_fwd s) i = Some fw" "hub_recv i (br_hub b) = Some (e, h)"
    using assms by (auto simp: ws_forward_def split: option.splits)
  have same: "fmupd i fw (ws_fwd s) = ws_fwd s" by (rule fmap_ext) (auto simp: fw(1))
  have lag: "event_of t ((frame ''lagging'')\<lparr>om_topic := u, om_missed := n\<rparr>) = None" for t u n
    by (simp add: event_of_def frame_def)
  have "\<exists>fw'. ws_fwd s' = fmupd i fw' (ws_fwd s) \<and> fw_topic fw' = fw_topic fw \<and> fw_fence fw' = fw_fence fw"
    using assms fw same[symmetric]
    by (auto simp: ws_forward_def Let_def split: if_splits option.splits intro: exI[of _ fw] exI[of _ "fw\<lparr>fw_last_lag := _\<rparr>"])
  moreover have "b' = b\<lparr>br_hub := h\<rparr> \<and> ws_subs s' = ws_subs s \<and> length (ws_out s') \<le> length (ws_out s) + 2"
    using assms fw by (auto simp: ws_forward_def Let_def split: if_splits option.splits)
  moreover have "\<exists>x. events_of t (ws_out s') = events_of t (ws_out s) @ x
      \<and> subseq x (if fw_topic fw = t then forward_event (fw_fence fw) e else [])" for t
    using assms fw by (auto simp: ws_forward_def Let_def forward_event_def lag split: if_splits option.splits)
  ultimately show ?thesis using that fw by blast
qed

text \<open>Every step moves the hub by operations of the hub.\<close>

lemma conn_exec_hub:
  assumes "conn_exec a c = Some c'"
  shows "hub_step\<^sup>*\<^sup>* (br_hub (wc_broker c)) (br_hub (wc_broker c'))"
proof -
  have ing: "hub_step\<^sup>*\<^sup>* (br_hub b) (br_hub b')" if "broker_ingest now rid ot e b = (r, b')" for now rid ot e r and b b' :: "'a broker"
    using broker_ingest_frame(1)[of now rid ot e b] that by simp
  have cl: "hub_step\<^sup>*\<^sup>* h (hub_close i h)" for i h using hub_exec_step[of h "OpClose i"] by simp
  have pb: "hub_step\<^sup>*\<^sup>* h (fst (hub_publish e h))" for e h using hub_exec_step[of h "OpPublish e"] by simp
  have sb: "hub_step\<^sup>*\<^sup>* h (snd (hub_subscribe t h))" for t h using hub_exec_step[of h "OpSubscribe t"] by simp
  have rc: "hub_step\<^sup>*\<^sup>* h h'" if "hub_recv i h = Some (e, h')" for i h e h' using hub_step.step_recv[OF that] by blast
  show ?thesis
  proof (cases a)
    case (WaRead now rid m)
    then show ?thesis using assms
      by (auto simp: conn_read_def conn_subscribe_def conn_publish_def Let_def ws_handle_def ws_handle_unsubscribe_def
          ws_handle_get_state_def case_prod_unfold broker_ingest_frame intro: cl sb split: if_splits option.splits sum.splits prod.splits)
  next
    case (WaForward i)
    then obtain b s where "ws_forward i (wc_broker c, wc_session c) = Some (b, s)" "c' = c\<lparr>wc_broker := b, wc_session := s\<rparr>"
      using assms by auto
    then show ?thesis by (auto elim!: ws_forwardE intro: rc)
  next
    case WaCloseSubs
    then show ?thesis using assms
      by (auto simp: ws_close_all_def close_all_hub close_all_steps split: if_splits)
  qed (use assms in \<open>auto simp: conn_fanout_def conn_backfill_def conn_register_def Let_def intro: ing cl pb hub_exec_step
      split: if_splits option.splits sum.splits prod.splits ws_reader.splits list.splits\<close>)
qed

text \<open>The store of a memory broker only grows.\<close>

lemma ingest_grows:
  assumes "mem_inv (br_store b)" "br_ops b = mem_ops" "broker_ingest now rid ot e b = (r, b')"
  shows "br_ops b' = mem_ops \<and> mem_inv (br_store b') \<and> prefix (mem_log (br_store b) t) (mem_log (br_store b') t)"
  using mem.ingest_spec[OF assms(1,2), of now rid ot e] broker_ingest_frame(2)[of now rid ot e b] assms(2,3) by auto

lemma close_all_store:
  "br_store (foldl (\<lambda>b (topic, sub). broker_unsubscribe sub b) b kvs) = br_store b
   \<and> br_ops (foldl (\<lambda>b (topic, sub). broker_unsubscribe sub b) b kvs) = br_ops b"
  by (induction kvs arbitrary: b) auto

lemma conn_exec_store:
  assumes "conn_exec a c = Some c'" "mem_inv (br_store (wc_broker c))" "br_ops (wc_broker c) = mem_ops"
  shows "br_ops (wc_broker c') = mem_ops \<and> mem_inv (br_store (wc_broker c'))
    \<and> prefix (mem_log (br_store (wc_broker c)) t) (mem_log (br_store (wc_broker c')) t)"
proof -
  note ing = ingest_grows[OF assms(2,3), of _ _ _ _ _ _ t]
  show ?thesis
  proof (cases a)
    case (WaRead now rid m)
    then show ?thesis using assms WaRead ing
      by (auto simp: conn_read_def conn_subscribe_def conn_publish_def Let_def ws_handle_def ws_handle_unsubscribe_def
          ws_handle_get_state_def split: if_splits option.splits sum.splits prod.splits)
  next
    case (WaForward i)
    then show ?thesis using assms by (auto elim!: ws_forwardE)
  next
    case WaCloseSubs
    then show ?thesis using assms by (auto simp: ws_close_all_def close_all_store split: if_splits)
  qed (use assms ing in \<open>auto simp: conn_fanout_def conn_backfill_def conn_register_def Let_def
      split: if_splits option.splits sum.splits prod.splits ws_reader.splits list.splits\<close>)
qed

text \<open>A step takes no subscription into hand but the one it opens.\<close>

lemma conn_exec_holds:
  assumes "conn_exec a c = Some c'"
  shows "set (wc_opened c) \<subseteq> set (wc_opened c')"
    and "conn_holds c' t i \<Longrightarrow> conn_holds c t i \<or> i \<in> set (wc_opened c') \<and> topic_at (wc_broker c') i = Some t"
proof -
  have "set (wc_opened c) \<subseteq> set (wc_opened c')
    \<and> (conn_holds c' t i \<longrightarrow> conn_holds c t i \<or> i \<in> set (wc_opened c') \<and> topic_at (wc_broker c') i = Some t)"
  proof (cases a)
    case (WaRead now rid m)
    then show ?thesis using assms
      by (auto simp: conn_read_def conn_subscribe_def conn_publish_def Let_def ws_handle_def ws_handle_unsubscribe_def
          ws_handle_get_state_def conn_holds_def topic_at_def hub_subscribe_def
          split: if_splits option.splits sum.splits prod.splits)
  next
    case (WaForward j)
    then show ?thesis using assms by (auto elim!: ws_forwardE simp: conn_holds_def split: if_splits)
  next
    case WaCloseSubs
    then show ?thesis using assms by (auto simp: ws_close_all_def conn_holds_def split: if_splits)
  qed (use assms in \<open>auto simp: conn_fanout_def conn_backfill_def conn_register_def conn_holds_def ws_write_def
      ws_forward_stop_def Let_def split: if_splits option.splits sum.splits prod.splits ws_reader.splits list.splits\<close>)
  then show "set (wc_opened c) \<subseteq> set (wc_opened c')"
    and "conn_holds c' t i \<Longrightarrow> conn_holds c t i \<or> i \<in> set (wc_opened c') \<and> topic_at (wc_broker c') i = Some t" by blast+
qed

definition conn_good :: "mem_store ws_conn \<Rightarrow> bool" where
  "conn_good c \<longleftrightarrow> hub_inv (br_hub (wc_broker c)) \<and> mem_inv (br_store (wc_broker c)) \<and> br_ops (wc_broker c) = mem_ops
     \<and> (\<forall>t i. conn_holds c t i \<longrightarrow> i \<in> set (wc_opened c) \<and> topic_at (wc_broker c) i = Some t)
     \<and> (\<forall>t m i fence fs. wc_reader c = RdSending m i fence fs \<and> im_topic m \<noteq> t \<longrightarrow> events_of t fs = [])"

lemma conn_exec_frames:
  assumes "conn_exec a c = Some c'" "wc_reader c' = RdSending m i fence fs" "im_topic m \<noteq> t"
    and "\<And>m i fence fs. wc_reader c = RdSending m i fence fs \<Longrightarrow> im_topic m \<noteq> t \<Longrightarrow> events_of t fs = []"
  shows "events_of t fs = []"
proof (cases a)
  case (WaRead now rid m)
  then show ?thesis using assms
    by (auto simp: conn_read_def conn_subscribe_def conn_publish_def Let_def
        split: if_splits option.splits sum.splits prod.splits)
next
  case WaBackfill
  then show ?thesis using assms
    by (auto simp: conn_backfill_def events_of_backfill Let_def split: sum.splits ws_reader.splits)
next
  case WaSend
  then show ?thesis using assms(1-3) assms(4)[of m i fence]
    by (auto simp: conn_register_def Let_def split: ws_reader.splits list.splits)
qed (use assms in \<open>auto simp: conn_fanout_def Let_def split: if_splits option.splits sum.splits prod.splits ws_reader.splits\<close>)

lemma conn_good_step:
  assumes "conn_exec a c = Some c'" "conn_good c"
  shows "conn_good c'"
proof -
  have G: "hub_inv (br_hub (wc_broker c))" "mem_inv (br_store (wc_broker c))" "br_ops (wc_broker c) = mem_ops"
    "\<And>t i. conn_holds c t i \<Longrightarrow> i \<in> set (wc_opened c) \<and> topic_at (wc_broker c) i = Some t"
    "\<And>t m i fence fs. wc_reader c = RdSending m i fence fs \<Longrightarrow> im_topic m \<noteq> t \<Longrightarrow> events_of t fs = []"
    using assms(2) unfolding conn_good_def by blast+
  note H = topic_at_steps[OF conn_exec_hub[OF assms(1)] G(1)]
  have T: "topic_at (wc_broker c') i = Some t" if "topic_at (wc_broker c) i = Some t" for i t
    using H that by (force simp: topic_at_def)
  have "i \<in> set (wc_opened c') \<and> topic_at (wc_broker c') i = Some t" if "conn_holds c' t i" for t i
    using conn_exec_holds(2)[OF assms(1) that] conn_exec_holds(1)[OF assms(1)] G(4)[of t i] T[of i t] by blast
  moreover have "events_of t fs = []" if "wc_reader c' = RdSending m i fence fs" "im_topic m \<noteq> t" for t m i fence fs
    by (rule conn_exec_frames[OF assms(1) that]) (rule G(5))
  ultimately show ?thesis
    using H conn_exec_store[OF assms(1) G(2,3)] unfolding conn_good_def by blast
qed

section \<open>A topic's subscription against its log\<close>

definition as_delivery :: "'s ws_conn \<Rightarrow> nat option \<Rightarrow> (event list \<times> nat) option \<Rightarrow> event list \<Rightarrow> event list \<Rightarrow> 's delivery" where
  "as_delivery c sub rd rcv out = \<lparr>dy_broker = wc_broker c, dy_pending = wc_pending c, dy_sub = sub, dy_read = rd,
     dy_recv = rcv, dy_out = out\<rparr>"

lemma as_delivery_simps [simp]:
  "dy_broker (as_delivery c sub rd rcv out) = wc_broker c" "dy_pending (as_delivery c sub rd rcv out) = wc_pending c"
  "dy_sub (as_delivery c sub rd rcv out) = sub" "dy_read (as_delivery c sub rd rcv out) = rd"
  "dy_recv (as_delivery c sub rd rcv out) = rcv" "dy_out (as_delivery c sub rd rcv out) = out"
  by (simp_all add: as_delivery_def)

text \<open>How far the connection is with the topic: no subscription; one that has not read its backfill; one
  with frames to send; one that is registered, with its forwarder.\<close>

definition no_forwarder :: "string \<Rightarrow> 's ws_conn \<Rightarrow> bool" where
  "no_forwarder t c \<longleftrightarrow> fmlookup (ws_subs (wc_session c)) t = None
     \<and> (\<forall>i fw. fmlookup (ws_fwd (wc_session c)) i = Some fw \<longrightarrow> fw_topic fw \<noteq> t)"

definition reader_free :: "string \<Rightarrow> 's ws_conn \<Rightarrow> bool" where
  "reader_free t c \<longleftrightarrow> (\<forall>i. reader_sub (wc_reader c) \<noteq> Some (t, i))"

definition registered_at :: "string \<Rightarrow> 's ws_conn \<Rightarrow> nat \<Rightarrow> nat \<Rightarrow> bool" where
  "registered_at t c i fence \<longleftrightarrow> fmlookup (ws_subs (wc_session c)) t = Some i
     \<and> (\<forall>j fw. fmlookup (ws_fwd (wc_session c)) j = Some fw \<and> fw_topic fw = t \<longrightarrow> j = i \<and> fw_fence fw = fence)"

inductive conn_link :: "string \<Rightarrow> 's ws_conn \<Rightarrow> nat option \<Rightarrow> (event list \<times> nat) option \<Rightarrow> event list \<Rightarrow> bool" for t c where
  link_none: "sent_of t c = [] \<Longrightarrow> no_forwarder t c \<Longrightarrow> reader_free t c \<Longrightarrow> conn_link t c None None []"
| link_opened: "wc_reader c = RdOpened m i \<Longrightarrow> im_topic m = t \<Longrightarrow> sent_of t c = [] \<Longrightarrow> no_forwarder t c
    \<Longrightarrow> conn_link t c (Some i) None []"
| link_sending: "wc_reader c = RdSending m i fence fs \<Longrightarrow> im_topic m = t \<Longrightarrow> subseq (sent_of t c @ events_of t fs) es
    \<Longrightarrow> no_forwarder t c \<Longrightarrow> conn_link t c (Some i) (Some (es, fence)) []"
| link_registered: "registered_at t c i fence \<Longrightarrow> reader_free t c \<Longrightarrow> subseq (sent_of t c) (es @ out)
    \<Longrightarrow> conn_link t c (Some i) (Some (es, fence)) out"

definition conn_inv :: "string \<Rightarrow> mem_store ws_conn \<Rightarrow> bool" where
  "conn_inv t c \<longleftrightarrow> (\<exists>sub rd rcv out. mem.dinv t (as_delivery c sub rd rcv out) \<and> conn_link t c sub rd out)"

text \<open>What a step that is not about the topic leaves of all this.\<close>

definition keeps :: "string \<Rightarrow> 's ws_conn \<Rightarrow> 's ws_conn \<Rightarrow> bool" where
  "keeps t c c' \<longleftrightarrow> subseq (sent_of t c') (sent_of t c) \<and> fmlookup (ws_subs (wc_session c')) t = fmlookup (ws_subs (wc_session c)) t
     \<and> (\<forall>j fw. fmlookup (ws_fwd (wc_session c')) j = Some fw \<and> fw_topic fw = t
          \<longrightarrow> (\<exists>fw'. fmlookup (ws_fwd (wc_session c)) j = Some fw' \<and> fw_topic fw' = t \<and> fw_fence fw' = fw_fence fw))
     \<and> (wc_reader c' = wc_reader c \<or> reader_free t c \<and> reader_free t c')"

lemma keeps_parts:
  assumes "keeps t c c'"
  shows "subseq (sent_of t c') (sent_of t c)" "no_forwarder t c \<Longrightarrow> no_forwarder t c'"
    "registered_at t c i fence \<Longrightarrow> registered_at t c' i fence" "reader_free t c \<Longrightarrow> reader_free t c'"
    "\<not> reader_free t c \<Longrightarrow> wc_reader c' = wc_reader c"
  using assms unfolding keeps_def no_forwarder_def registered_at_def reader_free_def by metis+

lemma link_keeps:
  assumes "conn_link t c sub rd out" "keeps t c c'"
  shows "conn_link t c' sub rd out"
  using assms(1)
proof cases
  case link_none
  then show ?thesis using keeps_parts[OF assms(2)] by (auto intro: conn_link.link_none)
next
  case (link_opened m i)
  then have "\<not> reader_free t c" by (simp add: reader_free_def)
  then show ?thesis using keeps_parts[OF assms(2)] link_opened by (auto intro: conn_link.link_opened)
next
  case (link_sending m i fence fs es)
  then have "\<not> reader_free t c" by (simp add: reader_free_def)
  moreover have "subseq (sent_of t c' @ events_of t fs) es"
    using keeps_parts(1)[OF assms(2)] link_sending subseq_append'
    by (metis list_emb_append_mono subseq_order.order_refl subseq_order.order_trans)
  ultimately show ?thesis using keeps_parts[OF assms(2)] link_sending by (auto intro: conn_link.link_sending)
next
  case (link_registered i fence es)
  then show ?thesis using keeps_parts[OF assms(2)] subseq_order.order_trans
    by (metis conn_link.link_registered)
qed

lemma dinv_same:
  assumes "mem.dinv t d" "br_hub (dy_broker d') = br_hub (dy_broker d)" "br_store (dy_broker d') = br_store (dy_broker d)"
    and "br_ops (dy_broker d') = br_ops (dy_broker d)" "dy_pending d' = dy_pending d" "dy_sub d' = dy_sub d"
    and "dy_read d' = dy_read d" "dy_recv d' = dy_recv d" "dy_out d' = dy_out d"
  shows "mem.dinv t d'"
  using assms by (simp add: mem.dinv_def mem.fanned_def)

section \<open>The steps of one topic\<close>

lemma conn_inv_by:
  assumes "conn_inv t c" "keeps t c c'"
    and "\<And>sub rd rcv out. mem.dinv t (as_delivery c sub rd rcv out) \<Longrightarrow> conn_link t c sub rd out
      \<Longrightarrow> mem.dinv t (as_delivery c' sub rd rcv out)"
  shows "conn_inv t c'"
  using assms link_keeps unfolding conn_inv_def by metis

lemma conn_inv_same:
  assumes "conn_inv t c" "keeps t c c'" "br_hub (wc_broker c') = br_hub (wc_broker c)"
    "br_store (wc_broker c') = br_store (wc_broker c)" "br_ops (wc_broker c') = br_ops (wc_broker c)" "wc_pending c' = wc_pending c"
  shows "conn_inv t c'"
  by (rule conn_inv_by[OF assms(1,2)], erule dinv_same) (simp_all add: assms)

lemma link_holds: "conn_link t c (Some i) rd out \<Longrightarrow> conn_holds c t i"
  by (erule conn_link.cases) (auto simp: conn_holds_def registered_at_def)

lemma conn_inv_foreign:
  assumes "conn_inv t c" "conn_good c" "keeps t c c'" "br_hub (wc_broker c') = hub_exec op (br_hub (wc_broker c))"
    "br_store (wc_broker c') = br_store (wc_broker c)" "br_ops (wc_broker c') = br_ops (wc_broker c)" "wc_pending c' = wc_pending c"
    and op: "foreign_op None op"
      "\<And>i. topic_at (wc_broker c) i = Some t \<Longrightarrow> i \<in> set (wc_opened c) \<Longrightarrow> foreign_op (Some i) op"
  shows "conn_inv t c'"
proof (rule conn_inv_by[OF assms(1,3)])
  fix sub rd rcv out assume d: "mem.dinv t (as_delivery c sub rd rcv out)" and l: "conn_link t c sub rd out"
  have "foreign_op sub op"
  proof (cases sub)
    case (Some i)
    then show ?thesis using op(2)[of i] link_holds l assms(2) unfolding conn_good_def by blast
  qed (simp add: op(1))
  then have "mem.dinv t ((as_delivery c sub rd rcv out)\<lparr>dy_broker := (wc_broker c)\<lparr>br_hub := hub_exec op (br_hub (wc_broker c))\<rparr>\<rparr>)"
    using mem.dinv_step[OF ds_foreign[of "as_delivery c sub rd rcv out"] d] by simp
  then show "mem.dinv t (as_delivery c' sub rd rcv out)" by (rule dinv_same) (simp_all add: assms)
qed

text \<open>The halves of a publish.\<close>

lemma conn_inv_ingest:
  assumes "conn_inv t c" "conn_good c" "wc_pending c = None" "publish_check e = Inr ot"
    and "broker_ingest now rid ot e (wc_broker c) = (r, b)"
  obtains n e' nx where "r = Inr (n, e', nx)"
    "\<And>c' src. keeps t c c' \<Longrightarrow> wc_broker c' = b \<Longrightarrow> wc_pending c' = Some (ot, src, e', nx) \<Longrightarrow> conn_inv t c'"
proof -
  have ok: "validate_topic (ev_topic e) = None" "ev_type e \<noteq> []" "parse_object_type (ev_topic e) = Inr ot"
    using assms(4) by (auto simp: publish_check_def split: option.splits if_splits)
  obtain n e' nx where r: "broker_ingest now rid ot e (wc_broker c) = (Inr (n, e', nx), b)"
    using mem.ingest_spec[of "wc_broker c" now rid ot e] assms(2,5) unfolding conn_good_def by auto
  show ?thesis
  proof (rule that)
    show "r = Inr (n, e', nx)" using r assms(5) by simp
    fix c' :: "mem_store ws_conn" and src assume k: "keeps t c c'" and c': "wc_broker c' = b" "wc_pending c' = Some (ot, src, e', nx)"
    show "conn_inv t c'"
    proof (rule conn_inv_by[OF assms(1) k])
      fix sub rd rcv out assume d: "mem.dinv t (as_delivery c sub rd rcv out)"
      from mem.dinv_step[OF ds_ingest[of "as_delivery c sub rd rcv out", OF _ ok] d] r assms(3) c'
      show "mem.dinv t (as_delivery c' sub rd rcv out)" by (auto simp: as_delivery_def)
    qed
  qed
qed

lemma conn_inv_fanout:
  assumes "conn_inv t c" "keeps t c c'" "wc_pending c = Some (ot, src, e, nx)"
    "wc_broker c' = broker_fanout ot src e nx (wc_broker c)" "wc_pending c' = None"
  shows "conn_inv t c'"
proof (rule conn_inv_by[OF assms(1,2)])
  fix sub rd rcv out assume d: "mem.dinv t (as_delivery c sub rd rcv out)"
  from mem.dinv_step[OF ds_fanout[of "as_delivery c sub rd rcv out"] d] assms(3-5)
  show "mem.dinv t (as_delivery c' sub rd rcv out)" by (auto simp: as_delivery_def)
qed

text \<open>Frames that are no event of the topic.\<close>

lemma keeps_send: "event_of t m = None \<Longrightarrow> keeps t c (conn_send m c)"
  by (simp add: keeps_def sent_of_send(2))

lemma keepsI:
  assumes "wc_wire c' = wc_wire c" "wc_session c' = wc_session c" "wc_reader c' = wc_reader c \<or> reader_free t c \<and> reader_free t c'"
  shows "keeps t c c'"
  using assms by (auto simp: keeps_def sent_of_def)

lemma read_ok_mem:
  assumes "mem_inv s"
  shows "\<exists>es. read_backfill mem_ops t from s = Inr es"
  by (cases "fr_kind from") (simp_all add: read_backfill_def mem_read_eq[OF assms] mem_latest_eq)

text \<open>A frame of the client.\<close>

fun leaves :: "string \<Rightarrow> ws_act \<Rightarrow> bool" where
  "leaves t (WaRead now rid m) \<longleftrightarrow> im_op m = ''unsubscribe'' \<and> im_topic m = t"
| "leaves t _ \<longleftrightarrow> False"

lemma conn_inv_subscribe:
  assumes "conn_good c" "conn_inv t c" "wc_reader c = RdIdle"
  shows "conn_inv t (conn_subscribe m c)"
proof (cases "fmlookup (ws_subs (wc_session c)) (im_topic m) = None \<and> validate_topic (im_topic m) = None")
  case False
  then show ?thesis
    by (auto simp: conn_subscribe_def intro!: conn_inv_same[OF assms(2) keeps_send])
next
  case True
  obtain i h where h: "hub_subscribe (im_topic m) (br_hub (wc_broker c)) = (i, h)" by fastforce
  define c' where "c' = conn_subscribe m c"
  have c': "c' = c\<lparr>wc_broker := (wc_broker c)\<lparr>br_hub := h\<rparr>, wc_reader := RdOpened m i, wc_opened := i # wc_opened c\<rparr>"
    using True h by (simp add: c'_def conn_subscribe_def)
  show ?thesis unfolding c'_def[symmetric]
  proof (cases "im_topic m = t")
    case False
    then have "keeps t c c'" using assms(3) by (intro keepsI) (simp_all add: c' reader_free_def)
    then show "conn_inv t c'"
      by (rule conn_inv_foreign[OF assms(2,1), where op = "OpSubscribe (im_topic m)"]) (simp_all add: c' h)
  next
    case t: True
    obtain sub rd rcv out where d: "mem.dinv t (as_delivery c sub rd rcv out)" and l: "conn_link t c sub rd out"
      using assms(2) unfolding conn_inv_def by blast
    have n: "sub = None" "rd = None" "out = []" "sent_of t c = []" "no_forwarder t c"
      using l True t assms(3) by (auto simp: registered_at_def elim: conn_link.cases)
    have "mem.dinv t (as_delivery c' (Some i) None rcv [])"
      using mem.dinv_step[OF ds_open[of "as_delivery c sub rd rcv out" t i h] d] n h t by (simp add: as_delivery_def c')
    moreover have "conn_link t c' (Some i) None []"
      using n(4,5) t by (intro link_opened) (auto simp: c' sent_of_def no_forwarder_def)
    ultimately show "conn_inv t c'" unfolding conn_inv_def by blast
  qed
qed

lemma conn_inv_publish:
  assumes "conn_good c" "conn_inv t c" "wc_reader c = RdIdle" "conn_publish now rid m c = Some c'"
  shows "conn_inv t c'"
proof (cases "publish_check (new_event (im_topic m) (im_type m) (im_actor m) (im_payload m) now)")
  case (Inl err)
  then show ?thesis using assms(4)
    by (auto simp: conn_publish_def intro!: conn_inv_same[OF assms(2) keeps_send])
next
  case (Inr ot)
  obtain r b where r: "broker_ingest now rid ot (new_event (im_topic m) (im_type m) (im_actor m) (im_payload m) now) (wc_broker c) = (r, b)"
    by fastforce
  have p: "wc_pending c = None" using Inr assms(4) by (cases "wc_pending c") (auto simp: conn_publish_def)
  obtain n e' nx where "r = Inr (n, e', nx)"
    and I: "\<And>c' src. keeps t c c' \<Longrightarrow> wc_broker c' = b \<Longrightarrow> wc_pending c' = Some (ot, src, e', nx) \<Longrightarrow> conn_inv t c'"
    using conn_inv_ingest[OF assms(2,1) p Inr r] by blast
  then have "c' = c\<lparr>wc_broker := b, wc_pending := Some (ot, ''ws'', e', nx), wc_reader := RdPublishing m n\<rparr>"
    using assms(4) Inr p r by (simp add: conn_publish_def)
  then show ?thesis using assms(3) by (intro I keepsI) (simp_all add: reader_free_def)
qed

text \<open>The operations but the three answer with one frame.\<close>

lemma ws_handle_other:
  assumes "im_op m \<notin> {''subscribe'', ''publish'', ''unsubscribe''}"
  shows "\<exists>f. ws_handle now rid m (b, s) = (b, ws_send f s) \<and> om_type f \<noteq> ''event''"
proof -
  have "\<exists>f. ws_handle_get_state m (b, s) = (b, ws_send f s) \<and> om_type f \<noteq> ''event''"
    by (auto simp: ws_handle_get_state_def frame_def error_frame_def split: sum.split)
  moreover have "om_type (frame ''pong'') \<noteq> ''event''" "om_type (error_frame [] ''unknown op'' (im_req_id m)) \<noteq> ''event''"
    by (simp_all add: frame_def error_frame_def)
  ultimately show ?thesis
    using assms by (cases "im_op m = ''get_state''"; cases "im_op m = ''ping''") (auto simp: ws_handle_def)
qed

lemma conn_inv_read:
  assumes "conn_good c" "conn_inv t c" "wc_reader c = RdIdle" "conn_read now rid m c = Some c'"
    and "\<not> leaves t (WaRead now rid m)"
  shows "conn_inv t c'"
proof -
  consider "im_op m = ''subscribe''" | "im_op m = ''publish''" | "im_op m = ''unsubscribe''"
    | "im_op m \<notin> {''subscribe'', ''publish'', ''unsubscribe''}" by blast
  then show ?thesis
  proof cases
    case 1
    then show ?thesis using assms(4) conn_inv_subscribe[OF assms(1-3), of m] by (auto simp: conn_read_def)
  next
    case 2
    then show ?thesis using assms(4) conn_inv_publish[OF assms(1-3)] by (simp add: conn_read_def)
  next
    case 3
    then have m: "im_topic m \<noteq> t" using assms(5) by simp
    show ?thesis
    proof (cases "fmlookup (ws_subs (wc_session c)) (im_topic m)")
      case None
      then have "c' = c" using 3 assms(4) by (simp add: conn_read_def ws_handle_def ws_handle_unsubscribe_def)
      then show ?thesis using assms(2) by simp
    next
      case (Some j)
      then have c': "c' = c\<lparr>wc_broker := broker_unsubscribe j (wc_broker c),
          wc_session := (wc_session c)\<lparr>ws_subs := fmdrop (im_topic m) (ws_subs (wc_session c))\<rparr>\<rparr>"
        using 3 assms(4) by (simp add: conn_read_def ws_handle_def ws_handle_unsubscribe_def)
      have "topic_at (wc_broker c) j = Some (im_topic m)"
        using Some assms(1) unfolding conn_good_def conn_holds_def by blast
      moreover have "keeps t c c'" using m by (auto simp: c' keeps_def sent_of_def)
      ultimately show ?thesis using m
        by (intro conn_inv_foreign[OF assms(2,1), where op = "OpClose j"]) (auto simp: c')
    qed
  next
    case 4
    then obtain f where f: "ws_handle now rid m (wc_broker c, wc_session c) = (wc_broker c, ws_send f (wc_session c))" "om_type f \<noteq> ''event''"
      using ws_handle_other[of m now rid "wc_broker c" "wc_session c"] by auto
    then have "c' = conn_send f c" "event_of t f = None" using 4 assms(4) by (auto simp: conn_read_def conn_send_def)
    then show ?thesis by (auto intro!: conn_inv_same[OF assms(2) keeps_send])
  qed
qed

lemma conn_inv_backfill:
  assumes "conn_good c" "conn_inv t c" "wc_reader c = RdOpened m i"
  shows "conn_inv t (conn_backfill m i c)"
proof -
  have G: "mem_inv (br_store (wc_broker c))" "br_ops (wc_broker c) = mem_ops" using assms(1) unfolding conn_good_def by blast+
  define from_s where "from_s = parse_from (im_from m) (im_from_seq m)"
  obtain es where es: "read_backfill mem_ops (im_topic m) from_s (br_store (wc_broker c)) = Inr es"
    using read_ok_mem[OF G(1)] by blast
  define c' where "c' = conn_backfill m i c"
  have c': "c' = c\<lparr>wc_broker := wc_broker c', wc_reader := RdSending m i (fence_of es)
      (map (event_frame (im_topic m)) es @ [ack_frame (im_topic m) (fence_of es) (im_req_id m)])\<rparr>"
    and b: "br_hub (wc_broker c') = br_hub (wc_broker c)" "br_store (wc_broker c') = br_store (wc_broker c)"
      "br_ops (wc_broker c') = br_ops (wc_broker c)"
    using es G(2) by (simp_all add: c'_def conn_backfill_def from_s_def Let_def)
  have o: "wc_pending c' = wc_pending c" "wc_wire c' = wc_wire c" "wc_session c' = wc_session c"
    by (subst c', simp)+
  have rd: "wc_reader c' = RdSending m i (fence_of es)
      (map (event_frame (im_topic m)) es @ [ack_frame (im_topic m) (fence_of es) (im_req_id m)])"
    by (subst c') simp
  show ?thesis unfolding c'_def[symmetric]
  proof (cases "im_topic m = t")
    case False
    then have "keeps t c c'" using assms(3) rd o by (intro keepsI) (simp_all add: reader_free_def)
    then show "conn_inv t c'" by (rule conn_inv_same[OF assms(2)]) (simp_all add: b o)
  next
    case t: True
    obtain sub rd0 rcv out where d: "mem.dinv t (as_delivery c sub rd0 rcv out)" and l: "conn_link t c sub rd0 out"
      using assms(2) unfolding conn_inv_def by blast
    have n: "sub = Some i" "rd0 = None" "out = []" "sent_of t c = []" "no_forwarder t c"
      using l t assms(3) by (auto simp: reader_free_def elim: conn_link.cases)
    have "mem.dinv t ((as_delivery c sub rd0 rcv out)\<lparr>dy_read := Some (es, fence_of es)\<rparr>)"
      using mem.dinv_step[OF ds_read[of "as_delivery c sub rd0 rcv out" i t from_s es] d] n es t G(2) by simp
    then have "mem.dinv t (as_delivery c' (Some i) (Some (es, fence_of es)) rcv [])"
      by (rule dinv_same) (simp_all add: b o n)
    moreover have "conn_link t c' (Some i) (Some (es, fence_of es)) []"
      using n(4,5) t by (intro link_sending[OF rd]) (auto simp: o sent_of_def no_forwarder_def events_of_backfill)
    ultimately show "conn_inv t c'" unfolding conn_inv_def by blast
  qed
qed

lemma conn_inv_sending:
  assumes "conn_good c" "conn_inv t c" "wc_reader c = RdSending m i fence (f # fs)"
  shows "conn_inv t (conn_send f (c\<lparr>wc_reader := RdSending m i fence fs\<rparr>))" (is "conn_inv t ?c")
proof (cases "im_topic m = t")
  case False
  then have "events_of t (f # fs) = []" using assms(1,3) unfolding conn_good_def by blast
  then have "event_of t f = None" by (simp split: option.splits)
  then have "keeps t c ?c" using False assms(3) sent_of_send(2)[of t f "c\<lparr>wc_reader := RdSending m i fence fs\<rparr>"]
    by (simp add: keeps_def reader_free_def sent_of_def)
  then show ?thesis by (rule conn_inv_same[OF assms(2)]) simp_all
next
  case t: True
  obtain sub rd rcv out where d: "mem.dinv t (as_delivery c sub rd rcv out)" and l: "conn_link t c sub rd out"
    using assms(2) unfolding conn_inv_def by blast
  obtain es where n: "sub = Some i" "rd = Some (es, fence)" "out = []" "subseq (sent_of t c @ events_of t (f # fs)) es" "no_forwarder t c"
    using l t assms(3) by (auto simp: reader_free_def elim: conn_link.cases)
  have "sent_of t (conn_send f (c\<lparr>wc_reader := RdSending m i fence fs\<rparr>)) = sent_of t c
      \<or> sent_of t ?c = sent_of t c @ events_of t [f]"
    using sent_of_send(1)[of t f "c\<lparr>wc_reader := RdSending m i fence fs\<rparr>"] by (simp add: sent_of_def)
  then have "subseq (sent_of t ?c @ events_of t fs) (sent_of t c @ events_of t (f # fs))"
    using list_emb_append2[of "(=)" "events_of t fs" "events_of t fs" "events_of t [f]"] by (auto simp: subseq_append')
  then have "subseq (sent_of t ?c @ events_of t fs) es" using n(4) subseq_order.order_trans by blast
  then have "conn_link t ?c sub rd out"
    using t n by (auto simp: no_forwarder_def intro: link_sending)
  moreover have "mem.dinv t (as_delivery ?c sub rd rcv out)" using d by (rule dinv_same) simp_all
  ultimately show ?thesis unfolding conn_inv_def by blast
qed

lemma conn_inv_register:
  assumes "conn_inv t c" "wc_reader c = RdSending m i fence []"
  shows "conn_inv t (conn_register m i fence c)" (is "conn_inv t ?c")
proof (cases "im_topic m = t")
  case False
  then have "keeps t c ?c" using assms(2) by (auto simp: keeps_def conn_register_def reader_free_def sent_of_def Let_def)
  then show ?thesis by (rule conn_inv_same[OF assms(1)]) (simp_all add: conn_register_def Let_def)
next
  case t: True
  obtain sub rd rcv out where d: "mem.dinv t (as_delivery c sub rd rcv out)" and l: "conn_link t c sub rd out"
    using assms(1) unfolding conn_inv_def by blast
  obtain es where n: "sub = Some i" "rd = Some (es, fence)" "out = []" "subseq (sent_of t c) es" "no_forwarder t c"
    using l t assms(2) by (auto simp: reader_free_def elim: conn_link.cases)
  have "conn_link t ?c (Some i) (Some (es, fence)) []"
    using n(4,5) t by (intro link_registered)
      (auto simp: registered_at_def no_forwarder_def reader_free_def conn_register_def sent_of_def Let_def)
  moreover have "mem.dinv t (as_delivery ?c sub rd rcv out)"
    using d by (rule dinv_same) (simp_all add: conn_register_def Let_def)
  ultimately show ?thesis using n unfolding conn_inv_def by blast
qed

lemma conn_inv_forward:
  assumes "conn_good c" "conn_inv t c" "ws_forward j (wc_broker c, wc_session c) = Some (b, s)"
  shows "conn_inv t (c\<lparr>wc_broker := b, wc_session := s\<rparr>)" (is "conn_inv t ?c")
  using assms(3)
proof (rule ws_forwardE)
  fix fw fw' e h
  assume f: "fmlookup (ws_fwd (wc_session c)) j = Some fw" "hub_recv j (br_hub (wc_broker c)) = Some (e, h)"
    "b = (wc_broker c)\<lparr>br_hub := h\<rparr>" "ws_subs s = ws_subs (wc_session c)" "ws_fwd s = fmupd j fw' (ws_fwd (wc_session c))"
    "fw_topic fw' = fw_topic fw" "fw_fence fw' = fw_fence fw"
    and ev: "\<And>t. \<exists>x. events_of t (ws_out s) = events_of t (ws_out (wc_session c)) @ x
      \<and> subseq x (if fw_topic fw = t then forward_event (fw_fence fw) e else [])"
  obtain x where x: "sent_of t ?c = sent_of t c @ x" "subseq x (if fw_topic fw = t then forward_event (fw_fence fw) e else [])"
    using ev[of t] by (auto simp: sent_of_def)
  have at: "topic_at (wc_broker c) j = Some (fw_topic fw)"
    using assms(1) f(1) unfolding conn_good_def conn_holds_def by blast
  show ?thesis
  proof (cases "fw_topic fw = t")
    case False
    then have "x = []" using x(2) by simp
    then have "keeps t c ?c" using False f x(1) by (auto simp: keeps_def)
    then show ?thesis using False at
      by (intro conn_inv_foreign[OF assms(2,1), where op = "OpRecv j"]) (auto simp: f(2,3))
  next
    case True
    obtain sub rd rcv out where d: "mem.dinv t (as_delivery c sub rd rcv out)" and l: "conn_link t c sub rd out"
      using assms(2) unfolding conn_inv_def by blast
    have nn: "\<not> no_forwarder t c" using True f(1) by (auto simp: no_forwarder_def)
    obtain es i fence where r: "sub = Some i" "rd = Some (es, fence)" "registered_at t c i fence" "reader_free t c"
        "subseq (sent_of t c) (es @ out)"
      using l nn by cases auto
    then have "j = i \<and> fw_fence fw = fence" using True f(1) unfolding registered_at_def by blast
    then have n: "sub = Some j" "rd = Some (es, fw_fence fw)" "registered_at t c j (fw_fence fw)" "reader_free t c"
        "subseq (sent_of t c) (es @ out)" using r by simp_all
    have inv: "mem.dinv t (as_delivery ?c (Some j) (Some (es, fw_fence fw)) (rcv @ [e]) (out @ forward_event (fw_fence fw) e))"
      using mem.dinv_step[OF ds_forward[of "as_delivery c sub rd rcv out" j es "fw_fence fw" e h] d] n f(2,3)
      by (simp add: as_delivery_def)
    have sub: "subseq (sent_of t ?c) (es @ out @ forward_event (fw_fence fw) e)"
      using list_emb_append_mono[OF n(5), of x "forward_event (fw_fence fw) e"] x True by simp
    have "registered_at t ?c j (fw_fence fw)" using n(3) f(4-7) by (simp add: registered_at_def) blast
    moreover have "reader_free t ?c" using n(4) by (simp add: reader_free_def)
    ultimately have "conn_link t ?c (Some j) (Some (es, fw_fence fw)) (out @ forward_event (fw_fence fw) e)"
      using sub by (intro link_registered)
    with inv show ?thesis unfolding conn_inv_def by blast
  qed
qed

lemma conn_inv_step:
  assumes "conn_exec a c = Some c'" "conn_good c" "conn_inv t c" "\<not> socket_closed (wc_reader c')" "\<not> leaves t a"
  shows "conn_inv t c'"
proof (cases a)
  case (WaIngest now rid e src)
  then obtain ot where ot: "publish_check e = Inr ot" "wc_pending c = None"
    using assms(1) by (cases "wc_pending c") (auto split: sum.splits)
  obtain r b where r: "broker_ingest now rid ot e (wc_broker c) = (r, b)" by fastforce
  obtain n e' nx where "r = Inr (n, e', nx)"
    and I: "\<And>c' src. keeps t c c' \<Longrightarrow> wc_broker c' = b \<Longrightarrow> wc_pending c' = Some (ot, src, e', nx) \<Longrightarrow> conn_inv t c'"
    using conn_inv_ingest[OF assms(3,2) ot(2,1) r] by blast
  then have "c' = c\<lparr>wc_broker := b, wc_pending := Some (ot, src, e', nx)\<rparr>" using assms(1) WaIngest ot r by simp
  then show ?thesis by (intro I keepsI) simp_all
next
  case WaFanout
  then obtain ot src e nx where p: "wc_pending c = Some (ot, src, e, nx)"
    using assms(1) by (auto simp: conn_fanout_def split: option.splits)
  define c1 where "c1 = c\<lparr>wc_broker := broker_fanout ot src e nx (wc_broker c), wc_pending := None\<rparr>"
  have i: "conn_inv t c1" by (rule conn_inv_fanout[OF assms(3) keepsI p]) (simp_all add: c1_def)
  show ?thesis
  proof (cases "\<exists>m n. wc_reader c = RdPublishing m n")
    case True
    then obtain m n where m: "wc_reader c = RdPublishing m n" by blast
    then have c': "c' = conn_send (ack_frame (im_topic m) n (im_req_id m)) (c1\<lparr>wc_reader := RdIdle\<rparr>)"
      using assms(1) WaFanout p by (simp add: conn_fanout_def c1_def)
    have "conn_inv t (c1\<lparr>wc_reader := RdIdle\<rparr>)"
      by (rule conn_inv_same[OF i keepsI]) (simp_all add: c1_def m reader_free_def)
    then show ?thesis unfolding c' by (rule conn_inv_same[OF _ keeps_send]) simp_all
  next
    case False
    then have "c' = c1" using assms(1) WaFanout p by (auto simp: conn_fanout_def c1_def Let_def split: ws_reader.splits)
    then show ?thesis using i by simp
  qed
next
  case (WaOther op)
  then have c': "c' = c\<lparr>wc_broker := (wc_broker c)\<lparr>br_hub := hub_exec op (br_hub (wc_broker c))\<rparr>\<rparr>"
    and op: "list_all (\<lambda>i. foreign_op (Some i) op) (wc_opened c)" "foreign_op None op"
    using assms(1) by (auto split: if_splits)
  show ?thesis
    by (rule conn_inv_foreign[OF assms(3,2) keepsI, where op = op]) (use op in \<open>auto simp: c' list_all_iff\<close>)
next
  case (WaRead now rid m)
  then show ?thesis using assms conn_inv_read[OF assms(2,3)] by (auto split: if_splits)
next
  case WaBackfill
  then show ?thesis using assms conn_inv_backfill[OF assms(2,3)] by (auto split: ws_reader.splits)
next
  case WaSend
  then show ?thesis using assms conn_inv_sending[OF assms(2,3)] conn_inv_register[OF assms(3)]
    by (auto split: ws_reader.splits list.splits)
next
  case (WaWrite ok)
  then obtain f s where f: "ws_write (wc_session c) = Some (f, s)" using assms(1) by (auto split: option.splits if_splits)
  then have s: "ws_out (wc_session c) = f # ws_out s" "ws_subs s = ws_subs (wc_session c)" "ws_fwd s = ws_fwd (wc_session c)"
    by (auto simp: ws_write_def split: list.splits)
  have "subseq (sent_of t c') (sent_of t c)"
    using assms(1) WaWrite f s(1) list_emb_append2[of "(=)" "events_of t (ws_out s)" "events_of t (ws_out s)" "events_of t [f]"]
    by (auto simp: sent_of_def subseq_append' split: if_splits)
  then have "keeps t c c'" using assms(1) WaWrite f s by (auto simp: keeps_def split: if_splits)
  then show ?thesis
    by (rule conn_inv_same[OF assms(3)]) (use assms(1) WaWrite f in \<open>auto split: if_splits\<close>)
next
  case (WaForward i)
  then show ?thesis using assms(1) conn_inv_forward[OF assms(2,3)] by auto
next
  case (WaForwardDone i)
  then have c': "c' = c\<lparr>wc_session := ws_forward_stop i (wc_session c)\<rparr>" using assms(1) by (simp split: if_splits)
  have "keeps t c c'" by (auto simp: keeps_def sent_of_def c' ws_forward_stop_def split: if_splits)
  then show ?thesis by (rule conn_inv_same[OF assms(3)]) (simp_all add: c')
qed (use assms(1,4) in \<open>auto split: if_splits prod.splits intro!: conn_inv_same[OF assms(3) keepsI]\<close>)

section \<open>What the client reads\<close>

text \<open>The events of a topic on the wire.\<close>

definition wire_ok :: "string \<Rightarrow> mem_store ws_conn \<Rightarrow> bool" where
  "wire_ok t c \<longleftrightarrow> sorted_wrt (<) (map ev_seq (events_of t (wc_wire c)))
     \<and> (\<forall>e \<in> set (events_of t (wc_wire c)). 1 \<le> ev_seq e \<and> ev_seq e \<le> length (mem_log (br_store (wc_broker c)) t)
         \<and> (\<exists>r. e = (mem_log (br_store (wc_broker c)) t ! (ev_seq e - 1))\<lparr>ev_state := r\<rparr>))"

lemma conn_inv_wire:
  assumes "conn_inv t c"
  shows "wire_ok t c"
proof -
  let ?l = "mem_log (br_store (wc_broker c)) t"
  obtain sub rd rcv out where d: "mem.dinv t (as_delivery c sub rd rcv out)" and l: "conn_link t c sub rd out"
    using assms unfolding conn_inv_def by blast
  have w: "subseq (events_of t (wc_wire c)) (sent_of t c)"
    using list_emb_append2[of "(=)" "[]" "events_of t (ws_out (wc_session c))"] by (simp add: sent_of_def subseq_rev_drop_many)
  show ?thesis
  proof (cases "sent_of t c = []")
    case True
    then have "events_of t (wc_wire c) = []" using w by simp
    then show ?thesis by (simp add: wire_ok_def)
  next
    case False
    have "\<exists>i es fence. sub = Some i \<and> rd = Some (es, fence)"
      using l False by cases auto
    then obtain i es fence where r: "sub = Some i" "rd = Some (es, fence)" by blast
    have "subseq (sent_of t c) (es @ out)"
      using l r by cases (auto intro: subseq_order.order_trans[OF list_emb_append2[of "(=)" "[]"]] simp: subseq_rev_drop_many
          dest: list_emb_appendD)
    with w have sub: "subseq (events_of t (wc_wire c)) (es @ out)" by (rule subseq_order.order_trans)
    have D: "dense_log ?l" using mem.dense d unfolding mem.dinv_def by simp
    have S: "seen t ?l (mem.fanned t (as_delivery c sub rd rcv out)) (br_hub (wc_broker c)) (Some i) (Some (es, fence)) rcv out"
      using d r unfolding mem.dinv_def by simp
    note O = seen_in_order[OF D S]
    have "sorted_wrt (<) (map ev_seq (events_of t (wc_wire c)))"
      using O(1) by (rule subseq_sorted_wrt[OF subseq_map[OF sub]])
    moreover have "set (events_of t (wc_wire c)) \<subseteq> set (es @ out)" by (rule subseq_set[OF sub])
    ultimately show ?thesis using O(2) unfolding wire_ok_def by blast
  qed
qed

text \<open>Once the socket is closed nothing is written, and the log keeps what it has.\<close>

lemma socket_closed_step:
  assumes "conn_exec a c = Some c'" "socket_closed (wc_reader c)"
  shows "socket_closed (wc_reader c') \<and> wc_wire c' = wc_wire c"
  using assms by (cases a; cases "wc_reader c")
    (auto simp: conn_fanout_def Let_def split: if_splits option.splits sum.splits prod.splits)

lemma conn_exec_wire:
  assumes "conn_exec a c = Some c'"
  shows "wc_wire c' = wc_wire c \<or> a = WaWrite True \<and> wc_reader c' = wc_reader c"
proof (cases a)
  case (WaWrite ok)
  then show ?thesis using assms by (cases ok) (auto split: if_splits option.splits)
qed (use assms in \<open>auto simp: conn_read_def conn_subscribe_def conn_publish_def conn_fanout_def conn_backfill_def
    conn_register_def Let_def split: if_splits option.splits sum.splits prod.splits ws_reader.splits list.splits\<close>)

lemma wire_ok_frozen:
  assumes "wire_ok t c" "wc_wire c' = wc_wire c"
    and "prefix (mem_log (br_store (wc_broker c)) t) (mem_log (br_store (wc_broker c')) t)"
  shows "wire_ok t c'"
proof -
  obtain xs where xs: "mem_log (br_store (wc_broker c')) t = mem_log (br_store (wc_broker c)) t @ xs"
    using assms(3) by (auto simp: prefix_def)
  have "1 \<le> n \<Longrightarrow> n \<le> length l \<Longrightarrow> (l @ xs) ! (n - 1) = l ! (n - 1)" for n and l :: "event list"
    by (simp add: nth_append)
  then show ?thesis using assms(1,2) unfolding wire_ok_def xs by fastforce
qed

definition wire_inv :: "string \<Rightarrow> mem_store ws_conn \<Rightarrow> bool" where
  "wire_inv t c \<longleftrightarrow> conn_good c \<and> wire_ok t c \<and> (socket_closed (wc_reader c) \<or> conn_inv t c)"

lemma wire_inv_step:
  assumes "conn_exec a c = Some c'" "wire_inv t c" "\<not> leaves t a"
  shows "wire_inv t c'"
proof -
  have I: "conn_good c" "wire_ok t c" "socket_closed (wc_reader c) \<or> conn_inv t c" using assms(2) by (auto simp: wire_inv_def)
  have G: "conn_good c'" by (rule conn_good_step[OF assms(1) I(1)])
  have P: "prefix (mem_log (br_store (wc_broker c)) t) (mem_log (br_store (wc_broker c')) t)"
    using conn_exec_store[OF assms(1)] I(1) unfolding conn_good_def by blast
  show ?thesis
  proof (cases "socket_closed (wc_reader c')")
    case True
    then have "wc_wire c' = wc_wire c" using socket_closed_step[OF assms(1)] conn_exec_wire[OF assms(1)] by auto
    then show ?thesis using wire_ok_frozen[OF I(2) _ P] G True by (simp add: wire_inv_def)
  next
    case False
    then have "conn_inv t c'" using conn_inv_step[OF assms(1) I(1) _ False assms(3)] I(3) socket_closed_step[OF assms(1)] by blast
    then show ?thesis using G conn_inv_wire by (simp add: wire_inv_def)
  qed
qed

lemma wire_inv_open:
  assumes "broker_reachable (memory_broker reg ttl) b"
  shows "wire_inv t (conn_open b)"
proof -
  have B: "br_ops b = mem_ops" "mem_inv (br_store b)" "hub_inv (br_hub b)"
    using memory_broker_reachable[OF assms] memory_broker_hub[OF assms] by auto
  have G: "conn_good (conn_open b)"
    using B by (simp add: conn_good_def conn_open_def conn_holds_def ws_new_def)
  have "mem.dinv t (as_delivery (conn_open b) None None [] [])"
    using mem.dinv_start[OF B(3,2,1), of t] by (rule dinv_same) (simp_all add: delivery_start_def conn_open_def)
  moreover have "conn_link t (conn_open b) None None []"
    by (rule link_none) (simp_all add: conn_open_def sent_of_def ws_new_def no_forwarder_def reader_free_def)
  ultimately have "conn_inv t (conn_open b)" unfolding conn_inv_def by blast
  then show ?thesis using G conn_inv_wire by (simp add: wire_inv_def)
qed

lemma conn_run_induct:
  assumes "conn_run acts c = Some c'" "P c" "\<And>a c c'. a \<in> set acts \<Longrightarrow> conn_exec a c = Some c' \<Longrightarrow> P c \<Longrightarrow> P c'"
  shows "P c'"
  using assms
proof (induction acts arbitrary: c)
  case (Cons a as)
  then obtain c1 where "conn_exec a c = Some c1" "conn_run as c1 = Some c'" by (auto split: option.splits)
  then show ?case using Cons.IH[of c1] Cons.prems(2,3) by (meson list.set_intros)
qed simp


text \<open>Run without interruption, the steps of a subscribe that is accepted are \<open>ws_handle_subscribe\<close>.\<close>

lemma conn_run_append: "conn_run (xs @ ys) c = (case conn_run xs c of None \<Rightarrow> None | Some c1 \<Rightarrow> conn_run ys c1)"
  by (induction xs arbitrary: c) (auto split: option.splits)

lemma conn_send_all:
  "wc_reader c = RdSending m i fence fs \<Longrightarrow> conn_run (replicate (length fs) WaSend) c =
     Some (c\<lparr>wc_session := foldl (\<lambda>s f. ws_send f s) (wc_session c) fs, wc_reader := RdSending m i fence []\<rparr>)"
  by (induction fs arbitrary: c) (simp_all add: conn_send_def)

lemma conn_subscribe_atomic:
  assumes "wc_reader c = RdIdle" "im_op m = ''subscribe''" "fmlookup (ws_subs (wc_session c)) (im_topic m) = None"
    and "broker_subscribe (im_topic m) (parse_from (im_from m) (im_from_seq m)) (wc_broker c) = (Inr (i, es, fence), b)"
    and "ws_handle_subscribe m (wc_broker c, wc_session c) = (b', s')"
  shows "conn_run (WaRead now rid m # WaBackfill # replicate (length es + 2) WaSend) c =
    Some (c\<lparr>wc_broker := b', wc_session := s', wc_opened := i # wc_opened c\<rparr>)"
proof -
  have v: "validate_topic (im_topic m) = None" using assms(4) by (auto simp: broker_subscribe_def split: option.splits)
  obtain j h where "hub_subscribe (im_topic m) (br_hub (wc_broker c)) = (j, h)" by fastforce
  then have h: "hub_subscribe (im_topic m) (br_hub (wc_broker c)) = (i, h)"
    using assms(4) v by (auto simp: broker_subscribe_def Let_def split: sum.splits)
  have r: "read_backfill (br_ops (wc_broker c)) (im_topic m) (parse_from (im_from m) (im_from_seq m)) (br_store (wc_broker c)) = Inr es"
    and f: "fence = fence_of es"
    and b: "b = add_metrics [IncSubscriptions (case parse_object_type (im_topic m) of Inr ot \<Rightarrow> ot | Inl _ \<Rightarrow> [])]
        ((wc_broker c)\<lparr>br_hub := h\<rparr>)"
    using assms(4) v h by (auto simp: broker_subscribe_def Let_def split: sum.splits)
  let ?fs = "map (event_frame (im_topic m)) es @ [ack_frame (im_topic m) fence (im_req_id m)]"
  let ?c = "c\<lparr>wc_broker := b, wc_reader := RdSending m i fence ?fs, wc_opened := i # wc_opened c\<rparr>"
  let ?c1 = "?c\<lparr>wc_session := foldl (\<lambda>s f. ws_send f s) (wc_session c) ?fs, wc_reader := RdSending m i fence []\<rparr>"
  have l: "WaRead now rid m # WaBackfill # replicate (length es + 2) WaSend =
      [WaRead now rid m, WaBackfill] @ (replicate (length ?fs) WaSend @ [WaSend])"
    by (simp add: replicate_append_same)
  have "conn_run [WaRead now rid m, WaBackfill] c = Some ?c"
    using assms(1-3) v h r f b by (simp add: conn_read_def conn_subscribe_def conn_backfill_def Let_def)
  moreover have "conn_run (replicate (length ?fs) WaSend) ?c = Some ?c1"
    by (subst conn_send_all[of ?c m i fence ?fs]) (simp_all del: foldl_append map_append)
  ultimately have "conn_run (WaRead now rid m # WaBackfill # replicate (length es + 2) WaSend) c = conn_run [WaSend] ?c1"
    unfolding l conn_run_append by (simp only: option.case)
  also have "\<dots> = Some (conn_register m i fence ?c1)" by simp
  finally have "conn_run (WaRead now rid m # WaBackfill # replicate (length es + 2) WaSend) c = Some (conn_register m i fence ?c1)" .
  moreover have "ws_handle_subscribe m (wc_broker c, wc_session c) = (b,
      (let s = foldl (\<lambda>s f. ws_send f s) (wc_session c) ?fs
       in s\<lparr>ws_subs := fmupd (im_topic m) i (ws_subs s),
            ws_fwd := fmupd i \<lparr>fw_topic = im_topic m, fw_fence = fence, fw_last_lag = 0\<rparr> (ws_fwd s)\<rparr>))"
    using assms(3,4) by (simp add: ws_handle_subscribe_def foldl_map Let_def)
  ultimately show ?thesis using assms(1,5) by (simp add: conn_register_def Let_def)
qed

text \<open>A frame that the reader handles in one step.\<close>

lemma handled_at_once:
  assumes "conn_exec (WaRead now rid m) c = Some c'" "wc_broker c' = b'" "wc_session c' = s'" "wc_reader c' = RdIdle"
    "wc_pending c' = None" "wc_wire c' = wc_wire c"
  shows "\<exists>acts c'. conn_run (WaRead now rid m # acts) c = Some c' \<and> list_all (\<lambda>a. a \<in> {WaBackfill, WaSend, WaFanout}) acts
    \<and> wc_broker c' = b' \<and> wc_session c' = s' \<and> wc_reader c' = RdIdle \<and> wc_pending c' = None \<and> wc_wire c' = wc_wire c"
  using assms by (intro exI[of _ "[]"] exI[of _ c']) simp

lemma conn_handles_subscribe:
  assumes "wc_reader c = RdIdle" "wc_pending c = None"
    and "ws_handle now rid m (wc_broker c, wc_session c) = (b', s')" "im_op m = ''subscribe''"
  shows "\<exists>acts c'. conn_run (WaRead now rid m # acts) c = Some c' \<and> list_all (\<lambda>a. a \<in> {WaBackfill, WaSend, WaFanout}) acts
    \<and> wc_broker c' = b' \<and> wc_session c' = s' \<and> wc_reader c' = RdIdle \<and> wc_pending c' = None \<and> wc_wire c' = wc_wire c"
proof -
  have h: "ws_handle_subscribe m (wc_broker c, wc_session c) = (b', s')" using assms(3,4) by (simp add: ws_handle_def)
  show ?thesis
  proof (cases "fmlookup (ws_subs (wc_session c)) (im_topic m) = None \<and> validate_topic (im_topic m) = None")
    case False
    show ?thesis
      by (rule handled_at_once[where c' = "conn_subscribe m c"])
        (use False h assms(1,2,4) in \<open>auto simp: ws_handle_subscribe_def broker_subscribe_def conn_read_def conn_subscribe_def conn_send_def
          split: option.splits\<close>)
  next
    case True
    obtain i h' where hs: "hub_subscribe (im_topic m) (br_hub (wc_broker c)) = (i, h')" by fastforce
    show ?thesis
    proof (cases "read_backfill (br_ops (wc_broker c)) (im_topic m) (parse_from (im_from m) (im_from_seq m)) (br_store (wc_broker c))")
      case (Inl err)
      let ?c = "conn_backfill m i (conn_subscribe m c)"
      have "conn_run [WaRead now rid m, WaBackfill] c = Some ?c"
        using True assms(1,4) hs by (simp add: conn_read_def conn_subscribe_def)
      moreover have "wc_broker ?c = b' \<and> wc_session ?c = s' \<and> wc_reader ?c = RdIdle \<and> wc_pending ?c = None \<and> wc_wire ?c = wc_wire c"
        using True h Inl assms(2) hs
        by (auto simp: ws_handle_subscribe_def broker_subscribe_def conn_subscribe_def conn_backfill_def conn_send_def)
      ultimately show ?thesis by (intro exI[of _ "[WaBackfill]"] exI[of _ ?c]) simp
    next
      case (Inr es)
      obtain fence b where "broker_subscribe (im_topic m) (parse_from (im_from m) (im_from_seq m)) (wc_broker c) = (Inr (i, es, fence), b)"
        using True hs Inr by (auto simp: broker_subscribe_def)
      from conn_subscribe_atomic[OF assms(1,4) conjunct1[OF True] this h, of now rid] show ?thesis
        using assms(1,2) by (intro exI[of _ "WaBackfill # replicate (length es + 2) WaSend"] exI) (auto simp: list_all_iff)
    qed
  qed
qed

lemma conn_handles_publish:
  assumes "wc_reader c = RdIdle" "wc_pending c = None"
    and "ws_handle now rid m (wc_broker c, wc_session c) = (b', s')" "im_op m = ''publish''"
  shows "\<exists>acts c'. conn_run (WaRead now rid m # acts) c = Some c' \<and> list_all (\<lambda>a. a \<in> {WaBackfill, WaSend, WaFanout}) acts
    \<and> wc_broker c' = b' \<and> wc_session c' = s' \<and> wc_reader c' = RdIdle \<and> wc_pending c' = None \<and> wc_wire c' = wc_wire c"
proof -
  have h: "ws_handle_publish now rid m (wc_broker c, wc_session c) = (b', s')" using assms(3,4) by (simp add: ws_handle_def)
  let ?e = "new_event (im_topic m) (im_type m) (im_actor m) (im_payload m) now"
  show ?thesis
  proof (cases "publish_check ?e")
    case (Inl err)
    show ?thesis
      by (rule handled_at_once[where c' = "conn_send (error_frame (im_topic m) (err_text err) (im_req_id m)) c"])
        (use Inl h assms(1,2,4) in \<open>auto simp: ws_handle_publish_def broker_publish_def publish_check_def conn_read_def conn_publish_def
          conn_send_def Let_def split: option.splits if_splits sum.splits\<close>)
  next
    case (Inr ot)
    then have ok: "validate_topic (ev_topic ?e) = None" "ev_type ?e \<noteq> []" "parse_object_type (ev_topic ?e) = Inr ot"
      by (auto simp: publish_check_def split: option.splits if_splits)
    obtain r b where r: "broker_ingest now rid ot ?e (wc_broker c) = (r, b)" by fastforce
    show ?thesis
    proof (cases r)
      case (Inl err)
      show ?thesis
        by (rule handled_at_once[where c' = "conn_send (error_frame (im_topic m) (err_text err) (im_req_id m)) (c\<lparr>wc_broker := b\<rparr>)"])
          (use Inl Inr ok r h assms(1,2,4) in \<open>auto simp: ws_handle_publish_def broker_publish_def conn_read_def conn_publish_def
            conn_send_def Let_def\<close>)
    next
      case (Inr x)
      obtain n e' nx where x: "x = (n, e', nx)" by (cases x)
      let ?c = "c\<lparr>wc_broker := b, wc_pending := Some (ot, ''ws'', e', nx), wc_reader := RdPublishing m n\<rparr>"
      let ?c2 = "conn_send (ack_frame (im_topic m) n (im_req_id m))
        (?c\<lparr>wc_broker := broker_fanout ot ''ws'' e' nx b, wc_pending := None, wc_reader := RdIdle\<rparr>)"
      have run: "conn_run [WaRead now rid m, WaFanout] c = Some ?c2"
        using \<open>publish_check ?e = Inr ot\<close> r Inr x assms(1,2,4) by (simp add: conn_read_def conn_publish_def conn_fanout_def Let_def)
      have res: "wc_broker ?c2 = b' \<and> wc_session ?c2 = s' \<and> wc_reader ?c2 = RdIdle \<and> wc_pending ?c2 = None \<and> wc_wire ?c2 = wc_wire c"
        using h r Inr x ok assms(2) by (auto simp: ws_handle_publish_def broker_publish_def conn_send_def Let_def)
      have "list_all (\<lambda>a. a \<in> {WaBackfill, WaSend, WaFanout}) [WaFanout]" by simp
      with run res show ?thesis by blast
    qed
  qed
qed


text \<open>A run: a subscribe to the demo broker's topic from its first event, and two frames written.\<close>

definition demo_acts :: "ws_act list" where
  "demo_acts = [WaRead 20 ''r'' sub_msg, WaBackfill, WaSend, WaSend, WaSend, WaSend, WaWrite True, WaWrite True]"

lemma demo_conn:
  "\<exists>c. conn_run demo_acts (conn_open demo_broker) = Some c \<and> map ev_seq (events_of ''int/hits'' (wc_wire c)) = [1, 2]
    \<and> wc_reader c = RdIdle \<and> length (wc_opened c) = 1 \<and> wc_writer c"
proof -
  let ?e1 = "stamp_event 8 ''a'' 1 incr_event" and ?e2 = "stamp_event 9 ''b'' 2 incr_event"
  let ?c = "conn_open demo_broker"
  have "\<exists>sub b1. broker_subscribe ''int/hits'' (parse_from [] 1) (add_metrics [IncConnected] demo_broker) =
      (Inr (sub, [?e1, ?e2], 2), b1)"
    using demo_subscribe
    by (fastforce simp: broker_subscribe_def case_prod_unfold Let_def split: option.splits sum.splits)
  then obtain i b1 where s: "broker_subscribe ''int/hits'' (parse_from [] 1) (wc_broker ?c) = (Inr (i, [?e1, ?e2], 2), b1)"
    by (auto simp: conn_open_def)
  obtain b' s' where h: "ws_handle_subscribe sub_msg (wc_broker ?c, wc_session ?c) = (b', s')" by fastforce
  have o: "ws_out s' = [event_frame ''int/hits'' ?e1, event_frame ''int/hits'' ?e2, ack_frame ''int/hits'' 2 ''r1'']"
    using h s by (auto simp: ws_handle_subscribe_def sub_msg_def conn_open_def ws_new_def out_buf_def Let_def)
  have "conn_run (WaRead 20 ''r'' sub_msg # WaBackfill # replicate (length [?e1, ?e2] + 2) WaSend) ?c =
      Some (?c\<lparr>wc_broker := b', wc_session := s', wc_opened := i # wc_opened ?c\<rparr>)"
    by (rule conn_subscribe_atomic[OF _ _ _ _ h]) (use s in \<open>simp_all add: sub_msg_def conn_open_def ws_new_def\<close>)
  then have "conn_run demo_acts ?c = conn_run [WaWrite True, WaWrite True] (?c\<lparr>wc_broker := b', wc_session := s', wc_opened := i # wc_opened ?c\<rparr>)"
    using conn_run_append[of "WaRead 20 ''r'' sub_msg # WaBackfill # replicate (length [?e1, ?e2] + 2) WaSend"
        "[WaWrite True, WaWrite True]" ?c]
    by (simp add: demo_acts_def numeral_eq_Suc)
  then show ?thesis using o by (simp add: ws_write_def conn_open_def)
qed


lemma demo_acts_stay: "\<forall>a \<in> set demo_acts. \<not> leaves t a"
  by (simp add: demo_acts_def sub_msg_def)


section \<open>What a connection leaves behind\<close>

text \<open>What the reader has in hand is not in the table yet; the table is empty after the close.\<close>

definition table_inv :: "'s ws_conn \<Rightarrow> bool" where
  "table_inv c \<longleftrightarrow> (\<forall>t. reader_free t c \<or> fmlookup (ws_subs (wc_session c)) t = None \<and> validate_topic t = None)
     \<and> (\<forall>t i. fmlookup (ws_subs (wc_session c)) t = Some i \<longrightarrow> validate_topic t = None)
     \<and> (wc_reader c = RdLeaving \<or> wc_reader c = RdGone \<longrightarrow> ws_subs (wc_session c) = fmempty)"

lemmas conn_simps = conn_read_def conn_subscribe_def conn_publish_def conn_fanout_def conn_backfill_def conn_register_def
  ws_handle_def ws_handle_unsubscribe_def ws_handle_get_state_def ws_write_def ws_forward_stop_def Let_def

lemmas conn_splits = if_splits option.splits sum.splits prod.splits ws_reader.splits list.splits

lemma table_inv_step:
  assumes "conn_exec a c = Some c'" "table_inv c"
  shows "table_inv c'"
proof (cases a)
  case (WaForward i)
  then show ?thesis using assms by (auto elim!: ws_forwardE simp: table_inv_def reader_free_def)
next
  case WaCloseSubs
  then show ?thesis using assms by (auto simp: ws_close_all_def table_inv_def reader_free_def split: if_splits)
qed (use assms in \<open>auto simp: table_inv_def reader_free_def conn_simps split: conn_splits\<close>)

text \<open>A step lets go of a subscription only by closing it.\<close>

definition closed_at :: "'s ws_conn \<Rightarrow> nat \<Rightarrow> bool" where
  "closed_at c i \<longleftrightarrow> (\<exists>s. fmlookup (hub_subs (br_hub (wc_broker c))) i = Some s \<and> sub_closed s)"

definition in_hand :: "'s ws_conn \<Rightarrow> nat \<Rightarrow> bool" where
  "in_hand c i \<longleftrightarrow> (\<exists>t. fmlookup (ws_subs (wc_session c)) t = Some i) \<or> (\<exists>t. reader_sub (wc_reader c) = Some (t, i))"

lemma closed_close: "fmlookup (hub_subs h) i = Some s \<Longrightarrow> \<exists>s. fmlookup (hub_subs (hub_close i h)) i = Some s \<and> sub_closed s"
  by (simp add: hub_simps)

lemma closed_close_all:
  "i \<in> set is \<Longrightarrow> fmlookup (hub_subs h) i = Some s \<Longrightarrow>
     \<exists>s. fmlookup (hub_subs (foldl (\<lambda>h i. hub_close i h) h is)) i = Some s \<and> sub_closed s"
proof (induction "is" arbitrary: h s)
  case (Cons j js)
  have keep: "\<exists>s. fmlookup (hub_subs (foldl (\<lambda>h i. hub_close i h) h js)) i = Some s \<and> sub_closed s"
    if "fmlookup (hub_subs h) i = Some s" "sub_closed s" for h s
    using that by (induction js arbitrary: h s) (auto simp: hub_simps)
  show ?case
  proof (cases "i = j")
    case True
    then show ?thesis using keep closed_close[OF Cons.prems(2)] by auto
  next
    case False
    then show ?thesis using Cons.IH[of "hub_close j h" s] Cons.prems by (simp add: hub_simps)
  qed
qed simp

lemma conn_exec_lets_go:
  assumes "conn_exec a c = Some c'" "fmlookup (hub_subs (br_hub (wc_broker c))) i = Some s" "in_hand c i" "table_inv c"
  shows "closed_at c' i \<or> in_hand c' i"
proof (cases a)
  case (WaRead now rid m)
  then have idle: "wc_reader c = RdIdle" and r: "conn_read now rid m c = Some c'" using assms(1) by (auto split: if_splits)
  then obtain t where t: "fmlookup (ws_subs (wc_session c)) t = Some i" using assms(3) by (auto simp: in_hand_def)
  show ?thesis
  proof (cases "im_op m = ''unsubscribe''")
    case True
    then show ?thesis using r t closed_close[OF assms(2)]
      by (cases "im_topic m = t") (auto simp: conn_simps in_hand_def closed_at_def split: conn_splits)
  next
    case False
    then have "fmlookup (ws_subs (wc_session c')) t = Some i"
      using r t by (auto simp: conn_simps split: conn_splits)
    then show ?thesis by (auto simp: in_hand_def)
  qed
next
  case WaBackfill
  then show ?thesis using assms(1,3) closed_close[OF assms(2)]
    by (auto simp: conn_simps in_hand_def closed_at_def split: conn_splits)
next
  case WaSend
  then obtain m sub fence fs where r: "wc_reader c = RdSending m sub fence fs" using assms(1) by (auto split: ws_reader.splits)
  show ?thesis
  proof (cases fs)
    case Nil
    then have c': "c' = conn_register m sub fence c" using assms(1) WaSend r by simp
    have new: "fmlookup (ws_subs (wc_session c)) (im_topic m) = None" using assms(4) r unfolding table_inv_def reader_free_def by simp
    show ?thesis
    proof (cases "i = sub")
      case True
      then show ?thesis by (auto simp: c' conn_register_def in_hand_def Let_def)
    next
      case False
      then obtain t where "fmlookup (ws_subs (wc_session c)) t = Some i" using assms(3) r by (auto simp: in_hand_def)
      then have "fmlookup (ws_subs (wc_session c')) t = Some i" using new by (auto simp: c' conn_register_def Let_def)
      then show ?thesis by (auto simp: in_hand_def)
    qed
  next
    case (Cons f gs)
    then show ?thesis using assms(1,3) WaSend r by (auto simp: in_hand_def)
  qed
next
  case WaCloseSubs
  then obtain t where "fmlookup (ws_subs (wc_session c)) t = Some i" using assms(1,3) by (auto simp: in_hand_def split: if_splits)
  then have "(t, i) \<in> set (fm_items (ws_subs (wc_session c)))" by (simp add: set_fm_items)
  then have "i \<in> set (map snd (fm_items (ws_subs (wc_session c))))" by force
  from closed_close_all[OF this assms(2)] show ?thesis using WaCloseSubs assms(1)
    by (auto simp: ws_close_all_def closed_at_def close_all_hub split: if_splits)
next
  case (WaForward j)
  then show ?thesis using assms(1,3) by (auto elim!: ws_forwardE simp: in_hand_def)
qed (use assms(1,3) in \<open>auto simp: conn_simps in_hand_def split: conn_splits\<close>)

text \<open>Each subscription it has opened is closed, in the table, or still with the reader.\<close>

definition opened_inv :: "'s ws_conn \<Rightarrow> bool" where
  "opened_inv c \<longleftrightarrow> (\<forall>i \<in> set (wc_opened c). \<exists>s. fmlookup (hub_subs (br_hub (wc_broker c))) i = Some s
     \<and> (sub_closed s \<or> in_hand c i))"

lemma opened_inv_step:
  assumes "conn_exec a c = Some c'" "conn_good c" "table_inv c" "opened_inv c"
  shows "opened_inv c'"
  unfolding opened_inv_def
proof
  fix i assume i: "i \<in> set (wc_opened c')"
  have H: "hub_inv (br_hub (wc_broker c))" using assms(2) unfolding conn_good_def by blast
  note S = topic_at_steps[OF conn_exec_hub[OF assms(1)] H]
  show "\<exists>s. fmlookup (hub_subs (br_hub (wc_broker c'))) i = Some s \<and> (sub_closed s \<or> in_hand c' i)"
  proof (cases "i \<in> set (wc_opened c)")
    case True
    then obtain s where s: "fmlookup (hub_subs (br_hub (wc_broker c))) i = Some s" "sub_closed s \<or> in_hand c i"
      using assms(4) by (auto simp: opened_inv_def)
    then show ?thesis using S conn_exec_lets_go[OF assms(1) s(1) _ assms(3)] unfolding closed_at_def by metis
  next
    case False
    then show ?thesis using i assms(1)
      by (cases a) (auto simp: conn_simps hub_subscribe_def in_hand_def split: conn_splits)
  qed
qed

lemma broker_fanout_gauges:
  "connected_gauge (br_metrics (broker_fanout ot src e nx b)) = connected_gauge (br_metrics b)"
  "sub_gauge u (br_metrics (broker_fanout ot src e nx b)) = sub_gauge u (br_metrics b)"
proof -
  have n: "count_list (concat (replicate n (on_drop t))) x = 0" if "\<And>ot. x \<noteq> IncDropped ot" for n t x
    using that by (induction n) (auto simp: on_drop_def split: sum.splits)
  show "connected_gauge (br_metrics (broker_fanout ot src e nx b)) = connected_gauge (br_metrics b)"
    "sub_gauge u (br_metrics (broker_fanout ot src e nx b)) = sub_gauge u (br_metrics b)"
    by (simp_all add: broker_fanout_def Let_def case_prod_unfold add_metrics_def connected_gauge_def sub_gauge_def n)
qed

text \<open>What the connection has added to the gauge of a type: the topics in the table, and the
  subscription that the reader is about to put there.\<close>

definition type_count :: "string \<Rightarrow> (string, nat) fmap \<Rightarrow> int" where
  "type_count ot m = int (card {u. u \<in> fmdom' m \<and> object_type u = ot})"

definition held_of :: "string \<Rightarrow> 's ws_conn \<Rightarrow> int" where
  "held_of ot c = type_count ot (ws_subs (wc_session c))
     + (case wc_reader c of RdSending m i fence fs \<Rightarrow> (if object_type (im_topic m) = ot then 1 else 0) | _ \<Rightarrow> 0)"

definition gauge_inv :: "'s broker \<Rightarrow> 's ws_conn \<Rightarrow> bool" where
  "gauge_inv b c \<longleftrightarrow> (\<forall>ot. sub_gauge ot (br_metrics (wc_broker c)) = sub_gauge ot (br_metrics b) + held_of ot c)
     \<and> connected_gauge (br_metrics (wc_broker c)) = connected_gauge (br_metrics b) + (if wc_reader c = RdGone then 0 else 1)"

lemma unsubscribe_metrics:
  assumes "topic_at b i = Some t" "validate_topic t = None"
  shows "br_metrics (broker_unsubscribe i b) = br_metrics b @ [DecSubscriptions (object_type t)]"
  using assms validate_parse(1)[OF assms(2)]
  by (auto simp: topic_at_def broker_unsubscribe_def add_metrics_def object_type_def)

lemma close_all_metrics:
  assumes "hub_inv (br_hub b)" "\<forall>(t, i) \<in> set kvs. topic_at b i = Some t \<and> validate_topic t = None"
  shows "br_metrics (foldl (\<lambda>b (topic, sub). broker_unsubscribe sub b) b kvs) =
    br_metrics b @ map (\<lambda>(t, i). DecSubscriptions (object_type t)) kvs"
  using assms
proof (induction kvs arbitrary: b)
  case (Cons kv kvs)
  obtain t i where kv: "kv = (t, i)" by fastforce
  have "topic_at (broker_unsubscribe i b) j = topic_at b j" for j
    by (simp add: topic_at_def hub_simps split: option.splits)
  then have "br_metrics (foldl (\<lambda>b (topic, sub). broker_unsubscribe sub b) (broker_unsubscribe i b) kvs) =
      br_metrics (broker_unsubscribe i b) @ map (\<lambda>(t, i). DecSubscriptions (object_type t)) kvs"
    using Cons.prems by (intro Cons.IH) (auto intro: hub_inv_close)
  then show ?case using kv Cons.prems(2) unsubscribe_metrics[of b i t] by simp
qed simp

lemma type_count_simps:
  "type_count ot fmempty = 0"
  "t \<notin> fmdom' m \<Longrightarrow> type_count ot (fmupd t i m) = type_count ot m + (if object_type t = ot then 1 else 0)"
  "t \<in> fmdom' m \<Longrightarrow> type_count ot (fmdrop t m) = type_count ot m - (if object_type t = ot then 1 else 0)"
proof -
  show "type_count ot fmempty = 0" by (simp add: type_count_def)
next
  assume t: "t \<notin> fmdom' m"
  have "{u. u \<in> fmdom' (fmupd t i m) \<and> object_type u = ot} =
      (if object_type t = ot then insert t {u. u \<in> fmdom' m \<and> object_type u = ot} else {u. u \<in> fmdom' m \<and> object_type u = ot})"
    by auto
  then show "type_count ot (fmupd t i m) = type_count ot m + (if object_type t = ot then 1 else 0)"
    using t by (simp add: type_count_def)
next
  assume t: "t \<in> fmdom' m"
  have e: "{u. u \<in> fmdom' (fmdrop t m) \<and> object_type u = ot} = {u. u \<in> fmdom' m \<and> object_type u = ot} - {t}" by auto
  show "type_count ot (fmdrop t m) = type_count ot m - (if object_type t = ot then 1 else 0)"
  proof (cases "object_type t = ot")
    case True
    then have "card {u. u \<in> fmdom' m \<and> object_type u = ot} = Suc (card ({u. u \<in> fmdom' m \<and> object_type u = ot} - {t}))"
      using t by (intro card.remove) simp_all
    then show ?thesis using True unfolding type_count_def e by simp
  next
    case False
    then have "{u. u \<in> fmdom' m \<and> object_type u = ot} - {t} = {u. u \<in> fmdom' m \<and> object_type u = ot}" by auto
    then show ?thesis using False unfolding type_count_def e by simp
  qed
qed

lemma count_topics:
  fixes m :: "(string, nat) fmap"
  shows "count_list (map (\<lambda>(t, i). DecSubscriptions (object_type t)) (fm_items m)) (DecSubscriptions ot) =
    card {u. u \<in> fmdom' m \<and> object_type u = ot}"
proof -
  have 1: "count_list (map (\<lambda>(t, i). DecSubscriptions (object_type t)) kvs) (DecSubscriptions ot) =
      length (filter (\<lambda>t. object_type t = ot) (map fst kvs))" for kvs :: "(string \<times> nat) list"
    by (induction kvs) auto
  have 2: "distinct (filter (\<lambda>t. object_type t = ot) (map fst (fm_items m)))"
    by (simp add: sorted_list_of_fset.rep_eq)
  have 3: "set (filter (\<lambda>t. object_type t = ot) (map fst (fm_items m))) = {u. u \<in> fmdom' m \<and> object_type u = ot}"
    by (auto simp: fmdom'_alt_def)
  show ?thesis unfolding 1 distinct_card[OF 2, symmetric] 3 ..
qed

lemma gauge_inv_same:
  assumes "gauge_inv b c" "wc_reader c' = wc_reader c \<or> (\<forall>m i fence fs. wc_reader c' \<noteq> RdSending m i fence fs \<and> wc_reader c \<noteq> RdSending m i fence fs)
      \<and> wc_reader c \<noteq> RdGone \<and> wc_reader c' \<noteq> RdGone"
    and "ws_subs (wc_session c') = ws_subs (wc_session c)"
    and "\<And>ot. sub_gauge ot (br_metrics (wc_broker c')) = sub_gauge ot (br_metrics (wc_broker c))"
    and "connected_gauge (br_metrics (wc_broker c')) = connected_gauge (br_metrics (wc_broker c))"
  shows "gauge_inv b c'"
proof -
  have "held_of ot c' = held_of ot c" for ot
    using assms(2,3) by (cases "wc_reader c'"; cases "wc_reader c") (auto simp: held_of_def)
  then show ?thesis using assms by (auto simp: gauge_inv_def)
qed

lemma gauge_inv_step:
  assumes "conn_exec a c = Some c'" "conn_good c" "table_inv c" "gauge_inv b c"
  shows "gauge_inv b c'"
proof -
  have ing: "br_metrics b' = br_metrics b" if "broker_ingest now rid ot e b = (r, b')" for now rid ot e r and b b' :: "mem_store broker"
    using broker_ingest_frame(4)[of now rid ot e b] that by simp
  show ?thesis
  proof (cases a)
    case (WaRead now rid m)
    then have r: "wc_reader c = RdIdle" "conn_read now rid m c = Some c'" using assms(1) by (auto split: if_splits)
    show ?thesis
    proof (cases "im_op m = ''unsubscribe''")
      case True
      show ?thesis
      proof (cases "fmlookup (ws_subs (wc_session c)) (im_topic m)")
        case None
        then have "c' = c" using r True by (simp add: conn_simps)
        then show ?thesis using assms(4) by simp
      next
        case (Some i)
        then have c': "c' = c\<lparr>wc_broker := broker_unsubscribe i (wc_broker c),
            wc_session := (wc_session c)\<lparr>ws_subs := fmdrop (im_topic m) (ws_subs (wc_session c))\<rparr>\<rparr>"
          using r True by (simp add: conn_simps)
        have "topic_at (wc_broker c) i = Some (im_topic m)"
          using Some assms(2) unfolding conn_good_def conn_holds_def by blast
        moreover have "validate_topic (im_topic m) = None" using Some assms(3) unfolding table_inv_def by blast
        ultimately have M: "br_metrics (broker_unsubscribe i (wc_broker c)) =
            br_metrics (wc_broker c) @ [DecSubscriptions (object_type (im_topic m))]" by (rule unsubscribe_metrics)
        have "im_topic m \<in> fmdom' (ws_subs (wc_session c))" using Some by (simp add: fmdom'I)
        then show ?thesis using assms(4) M r(1) type_count_simps(3) by (simp add: c' gauge_inv_def held_of_def)
      qed
    next
      case False
      then show ?thesis
        by (intro gauge_inv_same[OF assms(4)]) (use r in \<open>auto simp: conn_simps dest: ing split: conn_splits\<close>)
    qed
  next
    case WaFanout
    then show ?thesis
      by (intro gauge_inv_same[OF assms(4)]) (use assms(1) in \<open>auto simp: conn_simps broker_fanout_gauges split: conn_splits\<close>)
  next
    case WaBackfill
    then obtain m i where r: "wc_reader c = RdOpened m i" using assms(1) by (auto split: ws_reader.splits)
    have "validate_topic (im_topic m) = None" using assms(3) r unfolding table_inv_def reader_free_def by (metis reader_sub.simps(1))
    then have "parse_object_type (im_topic m) = Inr (object_type (im_topic m))" using validate_parse(1) by (simp add: object_type_def)
    then show ?thesis using WaBackfill assms(1,4) r
      by (auto simp: conn_backfill_def gauge_inv_def held_of_def add_metrics_def Let_def split: sum.splits)
  next
    case WaSend
    then obtain m i fence fs where r: "wc_reader c = RdSending m i fence fs" using assms(1) by (auto split: ws_reader.splits)
    have "fmlookup (ws_subs (wc_session c)) (im_topic m) = None" using assms(3) r unfolding table_inv_def reader_free_def by simp
    then have "im_topic m \<notin> fmdom' (ws_subs (wc_session c))" by (simp add: fmdom'_notI)
    then show ?thesis using WaSend assms(1,4) r type_count_simps(2)
      by (cases fs) (auto simp: conn_register_def gauge_inv_def held_of_def Let_def)
  next
    case WaCloseSubs
    then have r: "wc_reader c = RdClosing" using assms(1) by (simp split: if_splits)
    have H: "hub_inv (br_hub (wc_broker c))" using assms(2) unfolding conn_good_def by blast
    have "\<forall>(t, i) \<in> set (fm_items (ws_subs (wc_session c))). topic_at (wc_broker c) i = Some t \<and> validate_topic t = None"
      using assms(2,3) unfolding conn_good_def conn_holds_def table_inv_def by (auto simp: set_fm_items)
    note M = close_all_metrics[OF H this]
    have c: "connected_gauge (map (\<lambda>(t, i). DecSubscriptions (object_type t)) kvs) = 0" for kvs :: "(string \<times> nat) list"
      by (induction kvs) (auto simp: connected_gauge_def)
    have s: "sub_gauge ot (map (\<lambda>(t, i). DecSubscriptions (object_type t)) (fm_items m)) = - type_count ot m"
      for ot and m :: "(string, nat) fmap"
    proof -
      have "count_list (map (\<lambda>(t, i). DecSubscriptions (object_type t)) kvs) (IncSubscriptions ot) = 0" for kvs :: "(string \<times> nat) list"
        by (induction kvs) auto
      then show ?thesis by (simp add: sub_gauge_def count_topics type_count_def)
    qed
    show ?thesis using WaCloseSubs assms(1,4) r M c s
      by (auto simp: ws_close_all_def gauge_inv_def held_of_def type_count_simps(1))
  next
    case WaCancel
    then show ?thesis using assms(1,4) by (auto simp: gauge_inv_def held_of_def add_metrics_def split: if_splits)
  next
    case (WaForward i)
    then show ?thesis
      by (intro gauge_inv_same[OF assms(4)]) (use assms(1) in \<open>auto elim!: ws_forwardE\<close>)
  qed (intro gauge_inv_same[OF assms(4)]; use assms(1) in \<open>auto simp: conn_simps dest: ing split: conn_splits\<close>)+
qed

definition whole_inv :: "mem_store broker \<Rightarrow> mem_store ws_conn \<Rightarrow> bool" where
  "whole_inv b c \<longleftrightarrow> conn_good c \<and> table_inv c \<and> opened_inv c \<and> gauge_inv b c \<and> (wc_reader c = RdGone \<longrightarrow> wc_cancelled c)"

lemma conn_exec_cancelled:
  "conn_exec a c = Some c' \<Longrightarrow> (wc_reader c = RdGone \<longrightarrow> wc_cancelled c) \<Longrightarrow> wc_reader c' = RdGone \<longrightarrow> wc_cancelled c'"
  by (cases a) (auto simp: conn_simps split: conn_splits)

lemma whole_inv_step: "conn_exec a c = Some c' \<Longrightarrow> whole_inv b c \<Longrightarrow> whole_inv b c'"
  unfolding whole_inv_def
  using conn_good_step table_inv_step opened_inv_step gauge_inv_step conn_exec_cancelled by blast

lemma whole_inv_reachable:
  assumes "broker_reachable (memory_broker reg ttl) b" "conn_run acts (conn_open b) = Some c"
  shows "whole_inv b c"
proof (rule conn_run_induct[OF assms(2), where P = "whole_inv b"])
  have "conn_good (conn_open b)" using wire_inv_open[OF assms(1)] by (simp add: wire_inv_def)
  then show "whole_inv b (conn_open b)"
    by (simp add: whole_inv_def conn_open_def table_inv_def opened_inv_def gauge_inv_def held_of_def type_count_simps(1)
        reader_free_def ws_new_def add_metrics_def)
qed (rule whole_inv_step)

lemma opened_closed:
  assumes "whole_inv b c" "wc_reader c = RdLeaving \<or> wc_reader c = RdGone" "i \<in> set (wc_opened c)"
  shows "closed_at c i"
proof -
  have "ws_subs (wc_session c) = fmempty" using assms(1,2) by (auto simp: whole_inv_def table_inv_def)
  then have "\<not> in_hand c i" using assms(2) by (auto simp: in_hand_def)
  then show ?thesis using assms(1,3) by (auto simp: whole_inv_def opened_inv_def closed_at_def)
qed

text \<open>C10: when the handler of a connection has returned, every subscription it ever opened is closed and out
  of the hub's registry, and the gauges of the open subscriptions of each type and of the connected
  clients stand where they stood without it, whichever way the connection went.\<close>

theorem conn_releases:
  assumes "broker_reachable (memory_broker reg ttl) b" "conn_run acts (conn_open b) = Some c" "wc_reader c = RdGone"
  shows "(\<forall>i \<in> set (wc_opened c). \<forall>t. i \<notin> set (registered (br_hub (wc_broker c)) t))
    \<and> (\<forall>ot. sub_gauge ot (br_metrics (wc_broker c)) = sub_gauge ot (br_metrics b))
    \<and> connected_gauge (br_metrics (wc_broker c)) = connected_gauge (br_metrics b)"
proof -
  note W = whole_inv_reachable[OF assms(1,2)]
  have H: "hub_inv (br_hub (wc_broker c))" using W unfolding whole_inv_def conn_good_def by blast
  have "i \<notin> set (registered (br_hub (wc_broker c)) t)" if "i \<in> set (wc_opened c)" for i t
    using opened_closed[OF W _ that] assms(3) hub_inv_registered[OF H, of i t] by (auto simp: closed_at_def)
  moreover have "ws_subs (wc_session c) = fmempty" using W assms(3) by (auto simp: whole_inv_def table_inv_def)
  then have "held_of ot c = 0" for ot using assms(3) by (simp add: held_of_def type_count_simps(1))
  ultimately show ?thesis using W assms(3) by (simp add: whole_inv_def gauge_inv_def)
qed

definition gone_acts :: "ws_act list" where
  "gone_acts = demo_acts @ [WaReadErr, WaCloseSubs, WaCancel]"

lemma demo_gone: "\<exists>c. conn_run gone_acts (conn_open demo_broker) = Some c \<and> wc_reader c = RdGone \<and> length (wc_opened c) = 1
  \<and> wc_writer c \<and> wc_cancelled c"
proof -
  obtain c where c: "conn_run demo_acts (conn_open demo_broker) = Some c" "wc_reader c = RdIdle" "length (wc_opened c) = 1" "wc_writer c"
    using demo_conn by (elim exE conjE)
  then show ?thesis by (simp add: gone_acts_def conn_run_append ws_close_all_def)
qed

theorem conn_releases_witness:
  "\<exists>c. conn_run gone_acts (conn_open demo_broker) = Some c \<and> length (wc_opened c) = 1
    \<and> hd (wc_opened c) \<notin> set (registered (br_hub (wc_broker c)) ''int/hits'')"
proof -
  obtain c where c: "conn_run gone_acts (conn_open demo_broker) = Some c" "wc_reader c = RdGone" "length (wc_opened c) = 1"
    using demo_gone by (elim exE conjE)
  have "hd (wc_opened c) \<in> set (wc_opened c)" using c(3) by (intro hd_in_set) auto
  then have "hd (wc_opened c) \<notin> set (registered (br_hub (wc_broker c)) ''int/hits'')"
    using conn_releases[OF demo_broker_reachable c(1,2), THEN conjunct1] by blast
  then show ?thesis using c(1,3) by (intro exI[of _ c] conjI)
qed

section \<open>The end of the goroutines\<close>

text \<open>The steps of the connection itself.\<close>

fun own_act :: "ws_act \<Rightarrow> bool" where
  "own_act (WaIngest now rid e src) \<longleftrightarrow> False"
| "own_act WaFanout \<longleftrightarrow> False"
| "own_act (WaOther op) \<longleftrightarrow> False"
| "own_act _ \<longleftrightarrow> True"

definition conn_done :: "'s ws_conn \<Rightarrow> bool" where
  "conn_done c \<longleftrightarrow> wc_reader c = RdGone \<and> \<not> wc_writer c \<and> ws_fwd (wc_session c) = fmempty"

text \<open>A bound on the steps left: a forwarder may still put two frames in the queue for each event it
  has buffered.\<close>

definition chan_len :: "hub \<Rightarrow> nat \<Rightarrow> nat" where
  "chan_len h i = (case fmlookup (hub_subs h) i of Some s \<Rightarrow> length (sub_chan s) | None \<Rightarrow> 0)"

definition conn_work :: "'s ws_conn \<Rightarrow> nat" where
  "conn_work c = (if wc_reader c = RdLeaving then 1 else 0) + (if wc_writer c then 1 else 0) + length (ws_out (wc_session c))
     + (\<Sum>i \<in> fmdom' (ws_fwd (wc_session c)). 1 + 3 * chan_len (br_hub (wc_broker c)) i)"

lemma conn_progress:
  assumes "whole_inv b c" "wc_reader c = RdLeaving \<or> wc_reader c = RdGone" "\<not> conn_done c"
  shows "conn_exec WaCancel c \<noteq> None \<or> conn_exec WaWriterDone c \<noteq> None \<or> (\<exists>i. conn_exec (WaForwardDone i) c \<noteq> None)"
proof (cases "wc_reader c = RdGone \<and> \<not> wc_writer c")
  case True
  then have "ws_fwd (wc_session c) \<noteq> fmempty" using assms(3) by (simp add: conn_done_def)
  then obtain i where "i \<in> fmdom' (ws_fwd (wc_session c))" by (metis fmap_ext fmdom'_notD fmempty_lookup)
  moreover have "wc_cancelled c" using True assms(1) by (simp add: whole_inv_def)
  ultimately show ?thesis by (auto simp: forwarder_done_def)
next
  case False
  then show ?thesis using assms by (auto simp: whole_inv_def)
qed

text \<open>A subscription that is closed gets nothing more.\<close>

lemma chan_len_closed:
  assumes "hub_inv h" "fmlookup (hub_subs h) i = Some s" "sub_closed s"
  shows "chan_len (fst (hub_publish e h)) i = chan_len h i"
    and "foreign_op (Some i) op \<Longrightarrow> foreign_op None op \<Longrightarrow> chan_len (hub_exec op h) i = chan_len h i"
proof -
  show "chan_len (fst (hub_publish e h)) i = chan_len h i"
    using assms by (simp add: chan_len_def hub_publish_lookup deliver_def)
  show "foreign_op (Some i) op \<Longrightarrow> foreign_op None op \<Longrightarrow> chan_len (hub_exec op h) i = chan_len h i"
    using assms(2) hub_inv_sub[OF assms(1,2)]
    by (cases op) (auto simp: chan_len_def hub_simps hub_recv_simps split: option.splits)
qed

lemma chan_len_recv:
  assumes "hub_recv i h = Some (e, h')"
  shows "chan_len h i = Suc (chan_len h' i)" "j \<noteq> i \<Longrightarrow> chan_len h' j = chan_len h j"
  using assms by (auto simp: chan_len_def hub_recv_simps hub_simps)

lemma conn_work_step:
  assumes "conn_exec a c = Some c'" "whole_inv b c" "wc_reader c = RdLeaving \<or> wc_reader c = RdGone"
  shows "(wc_reader c' = RdLeaving \<or> wc_reader c' = RdGone) \<and> (if own_act a then 1 else 0) + conn_work c' \<le> conn_work c"
proof -
  let ?h = "br_hub (wc_broker c)" and ?F = "fmdom' (ws_fwd (wc_session c))"
  have G: "conn_good c" "hub_inv ?h" using assms(2) unfolding whole_inv_def conn_good_def by blast+
  have F: "i \<in> set (wc_opened c) \<and> (\<exists>s. fmlookup (hub_subs ?h) i = Some s \<and> sub_closed s)" if i: "i \<in> ?F" for i
  proof -
    obtain fw where "fmlookup (ws_fwd (wc_session c)) i = Some fw" using i by (auto simp: fmlookup_dom'_iff)
    then have "i \<in> set (wc_opened c)" using G(1) unfolding conn_good_def conn_holds_def by blast
    then show ?thesis using opened_closed[OF assms(2,3)] by (auto simp: closed_at_def)
  qed
  have same: "conn_work c' = conn_work c" if "wc_reader c' = wc_reader c" "wc_writer c' = wc_writer c" "wc_session c' = wc_session c"
    and "\<And>i. i \<in> ?F \<Longrightarrow> chan_len (br_hub (wc_broker c')) i = chan_len ?h i"
    using that by (auto simp: conn_work_def intro!: sum.cong)
  show ?thesis
  proof (cases a)
    case (WaIngest now rid e src)
    then obtain ot where ot: "publish_check e = Inr ot" "wc_pending c = None"
      using assms(1) by (cases "wc_pending c") (auto split: sum.splits)
    have c': "wc_reader c' = wc_reader c \<and> wc_writer c' = wc_writer c \<and> wc_session c' = wc_session c
        \<and> br_hub (wc_broker c') = ?h"
      using assms(1) WaIngest ot broker_ingest_frame(1)[of now rid ot e "wc_broker c"] by (auto split: sum.splits prod.splits)
    then show ?thesis using same WaIngest assms(3) by auto
  next
    case WaFanout
    then obtain ot src e nx where p: "wc_pending c = Some (ot, src, e, nx)"
      using assms(1) by (auto simp: conn_fanout_def split: option.splits)
    then have c': "c' = c\<lparr>wc_broker := broker_fanout ot src e nx (wc_broker c), wc_pending := None\<rparr>"
      using assms(1,3) WaFanout by (auto simp: conn_fanout_def)
    have "conn_work c' = conn_work c"
      by (rule same) (use F chan_len_closed(1)[OF G(2)] in \<open>auto simp: c'\<close>)
    then show ?thesis using assms(3) WaFanout by (auto simp: c')
  next
    case (WaOther op)
    then have c': "c' = c\<lparr>wc_broker := (wc_broker c)\<lparr>br_hub := hub_exec op ?h\<rparr>\<rparr>"
      and op: "list_all (\<lambda>i. foreign_op (Some i) op) (wc_opened c)" "foreign_op None op"
      using assms(1) by (auto split: if_splits)
    have "conn_work c' = conn_work c"
    proof (rule same)
      show "chan_len (br_hub (wc_broker c')) i = chan_len ?h i" if "i \<in> ?F" for i
        using F[OF that] chan_len_closed(2)[OF G(2)] op unfolding c' by (auto simp: list_all_iff)
    qed (simp_all add: c')
    then show ?thesis using assms(3) WaOther by (auto simp: c')
  next
    case (WaWrite ok)
    then show ?thesis using assms(1,3) by (auto simp: conn_work_def ws_write_def split: if_splits option.splits list.splits)
  next
    case (WaForward j)
    then obtain b1 s1 where f: "ws_forward j (wc_broker c, wc_session c) = Some (b1, s1)"
      and c': "c' = c\<lparr>wc_broker := b1, wc_session := s1\<rparr>" using assms(1) by auto
    from f show ?thesis
    proof (rule ws_forwardE)
      fix fw fw' e h
      assume fw: "fmlookup (ws_fwd (wc_session c)) j = Some fw" "hub_recv j ?h = Some (e, h)" "b1 = (wc_broker c)\<lparr>br_hub := h\<rparr>"
        "ws_fwd s1 = fmupd j fw' (ws_fwd (wc_session c))" "length (ws_out s1) \<le> length (ws_out (wc_session c)) + 2"
      have j: "j \<in> ?F" using fw(1) by (rule fmdom'I)
      then have dom: "fmdom' (ws_fwd s1) = ?F" using fw(4) by auto
      have "(\<Sum>i \<in> ?F. 1 + 3 * chan_len ?h i) = 1 + 3 * chan_len ?h j + (\<Sum>i \<in> ?F - {j}. 1 + 3 * chan_len ?h i)"
        using j by (intro sum.remove) simp_all
      moreover have "(\<Sum>i \<in> ?F. 1 + 3 * chan_len h i) = 1 + 3 * chan_len h j + (\<Sum>i \<in> ?F - {j}. 1 + 3 * chan_len h i)"
        using j by (intro sum.remove) simp_all
      moreover have "(\<Sum>i \<in> ?F - {j}. 1 + 3 * chan_len h i) = (\<Sum>i \<in> ?F - {j}. 1 + 3 * chan_len ?h i)"
        by (rule sum.cong) (simp_all add: chan_len_recv(2)[OF fw(2)])
      ultimately show ?thesis
        using WaForward assms(3) dom fw(3,5) chan_len_recv(1)[OF fw(2)] by (auto simp: conn_work_def c')
    qed
  next
    case (WaForwardDone j)
    then have c': "c' = c\<lparr>wc_session := ws_forward_stop j (wc_session c)\<rparr>" and j: "j \<in> ?F"
      using assms(1) by (auto split: if_splits)
    have "(\<Sum>i \<in> ?F. 1 + 3 * chan_len ?h i) = 1 + 3 * chan_len ?h j + (\<Sum>i \<in> ?F - {j}. 1 + 3 * chan_len ?h i)"
      using j by (intro sum.remove) simp_all
    moreover have "fmdom' (fmdrop j (ws_fwd (wc_session c))) = ?F - {j}" by simp
    ultimately show ?thesis using WaForwardDone assms(3) by (auto simp: conn_work_def c' ws_forward_stop_def)
  qed (use assms(1,3) in \<open>auto simp: conn_work_def split: if_splits\<close>)
qed

text \<open>C8: once the handler has let go of its subscriptions, the goroutines of the connection can take no more
  than \<open>conn_work\<close> further steps, whatever the rest of the server does in between, and until the
  handler, the writer and every forwarder have returned one of them can take a step that ends it:
  none is left waiting.\<close>

theorem conn_goroutines_end:
  assumes "broker_reachable (memory_broker reg ttl) b" "conn_run acts (conn_open b) = Some c"
    and "wc_reader c = RdLeaving \<or> wc_reader c = RdGone" "conn_run acts2 c = Some c'"
  shows "length (filter own_act acts2) + conn_work c' \<le> conn_work c
    \<and> (conn_done c' \<or> conn_exec WaCancel c' \<noteq> None \<or> conn_exec WaWriterDone c' \<noteq> None
        \<or> (\<exists>i. conn_exec (WaForwardDone i) c' \<noteq> None))"
proof -
  have "whole_inv b c' \<and> (wc_reader c' = RdLeaving \<or> wc_reader c' = RdGone) \<and> length (filter own_act acts2) + conn_work c' \<le> conn_work c"
    using whole_inv_reachable[OF assms(1,2)] assms(3,4)
  proof (induction acts2 arbitrary: c)
    case (Cons a as)
    obtain c1 where c1: "conn_exec a c = Some c1" "conn_run as c1 = Some c'" using Cons.prems(3) by (auto split: option.splits)
    note W = whole_inv_step[OF c1(1) Cons.prems(1)] and S = conn_work_step[OF c1(1) Cons.prems(1,2)]
    show ?case using Cons.IH[OF W _ c1(2)] S by (auto split: if_splits)
  qed simp
  then show ?thesis using conn_progress[of b c'] by blast
qed

theorem conn_goroutines_end_witness:
  "\<exists>c c'. conn_run gone_acts (conn_open demo_broker) = Some c \<and> conn_run [WaWriterDone] c = Some c'
    \<and> 1 + conn_work c' \<le> conn_work c"
proof -
  obtain c where c: "conn_run gone_acts (conn_open demo_broker) = Some c" "wc_reader c = RdGone" "wc_writer c" "wc_cancelled c"
    using demo_gone by (elim exE conjE)
  then obtain c' where c': "conn_run [WaWriterDone] c = Some c'" by simp
  have "length (filter own_act [WaWriterDone]) + conn_work c' \<le> conn_work c"
    by (rule conn_goroutines_end[OF demo_broker_reachable c(1) disjI2[OF c(2)] c', THEN conjunct1])
  then show ?thesis using c(1) c' by (intro exI[of _ c] exI[of _ c'] conjI) simp_all
qed

section \<open>Unsubscribing and subscribing again\<close>

lemma subscribe_hub:
  assumes "broker_subscribe t from b = (Inr (i, es, fence), b')"
  shows "br_hub b' = snd (hub_subscribe t (br_hub b))" "i = hub_next (br_hub b) + 1"
  using assms hub_subscribe_simps(1)[of t "br_hub b"]
  by (auto simp: broker_subscribe_def Let_def case_prod_unfold split: option.splits sum.splits)

text \<open>
  An unsubscribe cancels the forwarder without waiting for it. An event it still has buffered goes to
  the client when its \<open>select\<close> takes the event before the cancellation: after the backfill of a new
  subscription that had the event already, so the client reads it twice.
\<close>

lemma conn_resubscribe_repeats:
  assumes idle: "wc_reader c = RdIdle" and hub: "hub_inv (br_hub (wc_broker c))"
    and old: "fmlookup (ws_subs (wc_session c)) t = Some i" "fmlookup (ws_fwd (wc_session c)) i = Some fw" "fw_topic fw = t"
      "fmlookup (hub_subs (br_hub (wc_broker c))) i = Some s" "sub_chan s = e # rest" "fw_fence fw < ev_seq e" "sub_lag s = 0"
    and ops: "im_op m0 = ''unsubscribe''" "im_topic m0 = t" "im_op m = ''subscribe''" "im_topic m = t"
    and sub: "broker_subscribe t (parse_from (im_from m) (im_from_seq m)) (broker_unsubscribe i (wc_broker c)) = (Inr (j, es, fence), b)"
      "ev_seq e \<in> ev_seq ` set es" "ws_out (wc_session c) = []" "length es + 2 \<le> out_buf"
  shows "\<exists>c'. conn_run (WaRead now rid m0 # WaRead now rid m # WaBackfill # replicate (length es + 2) WaSend @ [WaForward i]) c = Some c'
    \<and> events_of t (ws_out (wc_session c')) = es @ [e]"
proof -
  let ?b = "broker_unsubscribe i (wc_broker c)"
  let ?s = "(wc_session c)\<lparr>ws_subs := fmdrop t (ws_subs (wc_session c))\<rparr>"
  let ?c = "c\<lparr>wc_broker := ?b, wc_session := ?s\<rparr>"
  have 1: "conn_exec (WaRead now rid m0) c = Some ?c"
    using idle old(1) ops by (simp add: conn_simps)
  obtain b' s' where h: "ws_handle_subscribe m (wc_broker ?c, wc_session ?c) = (b', s')" by fastforce
  let ?c2 = "?c\<lparr>wc_broker := b', wc_session := s', wc_opened := j # wc_opened c\<rparr>"
  have run: "conn_run (WaRead now rid m # WaBackfill # replicate (length es + 2) WaSend) ?c = Some ?c2"
    using conn_subscribe_atomic[OF _ ops(3) _ _ h, of j es fence b now rid] idle ops sub(1) by simp
  have S: "b' = b" "ws_out s' = map (event_frame t) es @ [ack_frame t fence (im_req_id m)]"
    "ws_fwd s' = fmupd j \<lparr>fw_topic = t, fw_fence = fence, fw_last_lag = 0\<rparr> (ws_fwd (wc_session c))"
    using h sub ops(4) send_all[of "event_frame t" ?s es]
    by (auto simp: ws_handle_subscribe_def Let_def)
  note B = subscribe_hub[OF sub(1)]
  have le: "i \<le> hub_next (br_hub (wc_broker c))" using hub_inv_sub[OF hub old(4)] by simp
  have ji: "i \<noteq> j" using B(2) le by (simp add: hub_simps)
  have "\<exists>s1. fmlookup (hub_subs (br_hub b)) i = Some s1 \<and> sub_chan s1 = e # rest \<and> sub_lag s1 = 0"
    using old(4,5,7) le by (auto simp: B(1) hub_simps)
  then obtain s1 where s1: "fmlookup (hub_subs (br_hub b)) i = Some s1" "sub_chan s1 = e # rest" "sub_lag s1 = 0" by blast
  then have r: "hub_recv i (br_hub b) = Some (e, update_sub i (\<lambda>s. s\<lparr>sub_chan := rest\<rparr>) (br_hub b))"
    by (simp add: hub_recv_simps)
  have forward: "ws_forward i (b, s') = Some (b\<lparr>br_hub := update_sub i (\<lambda>s. s\<lparr>sub_chan := rest\<rparr>) (br_hub b)\<rparr>,
      ws_send (event_frame t e) s')"
    using r s1 S(3) ji old(2,3,6) by (simp add: ws_forward_def Let_def hub_simps)
  let ?c3 = "?c2\<lparr>wc_broker := b\<lparr>br_hub := update_sub i (\<lambda>s. s\<lparr>sub_chan := rest\<rparr>) (br_hub b)\<rparr>,
    wc_session := ws_send (event_frame t e) s'\<rparr>"
  have 3: "conn_exec (WaForward i) ?c2 = Some ?c3"
    using forward by (simp add: S(1))
  have "conn_run (WaRead now rid m0 # (WaRead now rid m # WaBackfill # replicate (length es + 2) WaSend) @ [WaForward i]) c =
      conn_run [WaForward i] ?c2"
    using conn_run_append[of "WaRead now rid m # WaBackfill # replicate (length es + 2) WaSend" "[WaForward i]" ?c]
    unfolding conn_run.simps(2)[of "WaRead now rid m0"] 1 run option.case by (simp only: append_Cons)
  moreover have "events_of t (ws_out (wc_session ?c3)) = es @ [e]"
    using S(2) sub(4) by (simp add: events_of_backfill)
  moreover have "conn_run [WaForward i] ?c2 = Some ?c3" unfolding conn_run.simps 3 option.case ..
  ultimately show ?thesis by (intro exI[of _ ?c3]) simp_all
qed

end
