(* ===== verification/EndToEnd.thy ===== *)
theory EndToEnd
  imports ClientConn ClientServer WsConn
begin

text \<open>
  One connection end to end: the goroutines of the client library (\<open>ClientConn\<close>), those of the server's side
  (\<open>WsConn\<close>) and the rest of the server, taking turns; the frames between them arrive as they were sent
  and in order, and some may be under way. The server reads nothing but what the client wrote.

  The main result: \<open>callbacks_in_order\<close>, what a callback is called with.
\<close>

section \<open>The link\<close>

text \<open>\<open>ln_down\<close>, \<open>ln_up\<close>: how many frames the client and the server have read.\<close>

record link =
  ln_client :: cl_conn
  ln_server :: "mem_store ws_conn"
  ln_down :: nat
  ln_up :: nat

definition link_start :: "cl_conn \<Rightarrow> mem_store broker \<Rightarrow> link" where
  "link_start s b = \<lparr>ln_client = s, ln_server = conn_open b, ln_down = 0, ln_up = 0\<rparr>"

datatype link_act =
    LnClient cl_act
  | LnServer ws_act
  | LnDown
  | LnUp time string

fun client_alone :: "cl_act \<Rightarrow> bool" where
  "client_alone (ClRead f) = False"
| "client_alone (ClDial ok) = False"
| "client_alone _ = True"

fun server_alone :: "ws_act \<Rightarrow> bool" where
  "server_alone (WaRead now rid m) = False"
| "server_alone _ = True"

fun link_exec :: "link_act \<Rightarrow> link \<Rightarrow> link option" where
  "link_exec (LnClient a) l = (if client_alone a then map_option (\<lambda>s. l\<lparr>ln_client := s\<rparr>) (cl_exec a (ln_client l)) else None)"
| "link_exec (LnServer a) l = (if server_alone a then map_option (\<lambda>s. l\<lparr>ln_server := s\<rparr>) (conn_exec a (ln_server l)) else None)"
| "link_exec LnDown l =
     (if ln_down l < length (wc_wire (ln_server l))
      then map_option (\<lambda>s. l\<lparr>ln_client := s, ln_down := ln_down l + 1\<rparr>)
             (cl_exec (ClRead (to_server_frame (wc_wire (ln_server l) ! ln_down l))) (ln_client l))
      else None)"
| "link_exec (LnUp now rid) l =
     (if ln_up l < length (cc_wire (ln_client l))
      then map_option (\<lambda>s. l\<lparr>ln_server := s, ln_up := ln_up l + 1\<rparr>)
             (conn_exec (WaRead now rid (to_in_msg (cc_wire (ln_client l) ! ln_up l))) (ln_server l))
      else None)"

fun link_run :: "link_act list \<Rightarrow> link \<Rightarrow> link option" where
  "link_run [] l = Some l"
| "link_run (a # as) l = (case link_exec a l of None \<Rightarrow> None | Some l1 \<Rightarrow> link_run as l1)"

lemma link_run_inv:
  assumes "link_run acts l = Some l'" "P l" "\<And>a l l'. a \<in> set acts \<Longrightarrow> link_exec a l = Some l' \<Longrightarrow> P l \<Longrightarrow> P l'"
  shows "P l'"
  using assms
proof (induction acts arbitrary: l)
  case (Cons a as)
  then obtain l1 where "link_exec a l = Some l1" "link_run as l1 = Some l'" by (auto split: option.splits)
  then show ?case using Cons.IH[of l1] Cons.prems(2,3) by (meson list.set_intros)
qed simp

section \<open>The frames of the client\<close>

text \<open>All frames the client has under way, on any stage.\<close>

fun pc_frames :: "run_pc \<Rightarrow> client_frame list" where
  "pc_frames (PcResub b fs) = fs"
| "pc_frames _ = []"

definition client_frames_of :: "cl_conn \<Rightarrow> client_frame list" where
  "client_frames_of s = cc_waiting s @ cl_send (cc_client s) @ cc_wire s @ pc_frames (cc_pc s)"

definition stays :: "string \<Rightarrow> client_frame \<Rightarrow> bool" where
  "stays t f \<longleftrightarrow> \<not> (cf_op f = ''unsubscribe'' \<and> cf_topic f = t)"

fun closes_handle :: "string \<Rightarrow> cl_act \<Rightarrow> bool" where
  "closes_handle t (ClUnregister u cid) \<longleftrightarrow> u = t"
| "closes_handle t _ \<longleftrightarrow> False"

lemma resubscribe_stays: "f \<in> set (resubscribe_frames c) \<Longrightarrow> stays t f"
  by (auto simp: resubscribe_frames_def resume_frame_def stays_def)

lemma in_remove_nth: "x \<in> set (remove_nth k xs) \<Longrightarrow> x \<in> set xs"
  by (auto simp: remove_nth_def dest: in_set_takeD in_set_dropD)

lemma frames_step:
  assumes "cl_exec a s = Some s'" "\<not> closes_handle t a" "\<forall>f \<in> set (client_frames_of s). stays t f"
  shows "\<forall>f \<in> set (client_frames_of s'). stays t f"
proof -
  consider "cl_user a s = Some s'" | "cl_loop a s = Some s'" | "cl_worker a s = Some s'"
    using assms(1) by (auto simp: cl_exec_def split: option.splits)
  then show ?thesis
  proof cases
    case 1
    then show ?thesis using assms(2,3)
      by (cases a) (auto simp: client_frames_of_def client_register_def client_unregister_def client_issue_def client_receive_def
        client_cancel_def client_send_def client_close_def stays_def Let_def
        split: if_splits option.splits dest!: in_remove_nth)
  next
    case 2
    then show ?thesis using assms(3) resubscribe_stays
      by (cases a) (auto simp: client_frames_of_def client_send_def split: if_splits option.splits run_pc.splits list.splits)
  next
    case 3
    then show ?thesis using assms(3)
      by (cases a) (auto simp: client_frames_of_def client_dispatch_def Let_def split: if_splits option.splits list.splits)
  qed
qed

section \<open>The calls of a callback\<close>

text \<open>The events that a callback was called with for a topic, in order.\<close>

definition calls_for :: "string \<Rightarrow> nat \<Rightarrow> (string \<times> nat \<times> event) list \<Rightarrow> event list" where
  "calls_for t cb calls = map (\<lambda>(u, k, e). e) (filter (\<lambda>(u, k, e). u = t \<and> k = cb) calls)"

definition callbacks_ok :: "client \<Rightarrow> bool" where
  "callbacks_ok c \<longleftrightarrow> (\<forall>u ts. fmlookup (cl_topics c) u = Some ts \<longrightarrow> distinct (ts_callbacks ts)
     \<and> (\<forall>k \<in> set (ts_callbacks ts). k \<le> cl_next_id c))"

lemma callbacks_ok_step:
  assumes "cl_exec a s = Some s'" "callbacks_ok (cc_client s)"
  shows "callbacks_ok (cc_client s')"
proof -
  consider "cl_user a s = Some s'" | "cl_loop a s = Some s'" | "cl_worker a s = Some s'"
    using assms(1) by (auto simp: cl_exec_def split: option.splits)
  then show ?thesis
  proof cases
    case 1
    have old: "distinct (ts_callbacks ts) \<and> (\<forall>k \<in> set (ts_callbacks ts). k \<le> cl_next_id (cc_client s))"
      if "fmlookup (cl_topics (cc_client s)) u = Some ts" for u ts
      using assms(2) that unfolding callbacks_ok_def by blast
    have new: "Suc (cl_next_id (cc_client s)) \<notin> set (ts_callbacks ts)"
      if "fmlookup (cl_topics (cc_client s)) u = Some ts" for u ts
      using old[OF that] by fastforce
    have later: "k \<le> Suc (cl_next_id (cc_client s))"
      if "fmlookup (cl_topics (cc_client s)) u = Some ts" "k \<in> set (ts_callbacks ts)" for u ts k
      using old[OF that(1)] that(2) by (simp add: le_SucI)
    show ?thesis using 1 old new later
      by (cases a) (auto simp: callbacks_ok_def client_register_def client_unregister_def client_issue_def client_receive_def
        client_cancel_def client_send_def client_close_def distinct_removeAll Let_def
        split: if_splits option.splits)
  next
    case 2
    then show ?thesis using assms(2)
      by (cases a) (auto simp: callbacks_ok_def client_send_def split: if_splits option.splits run_pc.splits list.splits)
  next
    case 3
    then show ?thesis using assms(2)
      by (cases a) (auto simp: callbacks_ok_def client_dispatch_def Let_def split: if_splits option.splits list.splits)
  qed
qed

lemma calls_for_append [simp]: "calls_for t cb (xs @ ys) = calls_for t cb xs @ calls_for t cb ys"
  by (simp add: calls_for_def)

lemma calls_for_map:
  "distinct ks \<Longrightarrow> calls_for t cb (map (\<lambda>k. (u, k, e)) ks) = (if u = t \<and> cb \<in> set ks then [e] else [])"
  by (induction ks) (auto simp: calls_for_def)

definition frame_event :: "string \<Rightarrow> server_frame \<Rightarrow> event list" where
  "frame_event t f = (if sf_type f = ''event'' \<and> sf_topic f = t then (case sf_event f of Some e \<Rightarrow> [e] | None \<Rightarrow> []) else [])"

fun act_event :: "string \<Rightarrow> cl_act \<Rightarrow> event list" where
  "act_event t (ClRead f) = frame_event t f"
| "act_event t _ = []"

text \<open>A frame makes at most one call of a callback.\<close>

lemma cl_exec_calls:
  assumes "cl_exec a s = Some s'" "callbacks_ok (cc_client s)"
  shows "subseq (calls_for t cb (cc_calls s')) (calls_for t cb (cc_calls s) @ act_event t a)"
proof -
  have same: ?thesis if "cc_calls s' = cc_calls s" using that list_emb_append2[of "(=)" "[]" "act_event t a"]
    by (simp add: subseq_rev_drop_many)
  consider "cl_user a s = Some s'" | "cl_loop a s = Some s'" | "cl_worker a s = Some s'"
    using assms(1) by (auto simp: cl_exec_def split: option.splits)
  then show ?thesis
  proof cases
    case 1
    then have "cc_calls s' = cc_calls s" by (cases a) (auto simp: Let_def split: if_splits prod.splits)
    then show ?thesis by (rule same)
  next
    case 2
    then have "cc_calls s' = cc_calls s" by (cases a) (auto split: if_splits run_pc.splits list.splits)
    then show ?thesis by (rule same)
  next
    case 3
    show ?thesis
    proof (cases "\<exists>f. a = ClRead f")
      case True
      then obtain f where f: "a = ClRead f" by blast
      have d: "distinct (ts_callbacks ts)" if "fmlookup (cl_topics (cc_client s)) u = Some ts" for u ts
        using assms(2) that unfolding callbacks_ok_def by blast
      show ?thesis using 3 f
        by (auto simp: client_dispatch_def frame_event_def Let_def comp_def calls_for_map d subseq_append'
            calls_for_def[of _ _ "[]"] split: if_splits option.splits)
    next
      case False
      then have "cc_calls s' = cc_calls s" using 3 by (cases a) (auto simp: Let_def split: if_splits list.splits)
      then show ?thesis by (rule same)
    qed
  qed
qed

section \<open>Both ends\<close>

lemma frame_event_wire: "frame_event t (to_server_frame m) = events_of t [m]"
  by (simp add: frame_event_def to_server_frame_def event_of_def)

lemma conn_wire_grows: "conn_exec a c = Some c' \<Longrightarrow> prefix (wc_wire c) (wc_wire c')"
  using conn_exec_wire[of a c c'] by (auto split: if_splits option.splits)

definition link_inv :: "string \<Rightarrow> link \<Rightarrow> bool" where
  "link_inv t l \<longleftrightarrow> wire_inv t (ln_server l) \<and> callbacks_ok (cc_client (ln_client l))
     \<and> (\<forall>f \<in> set (client_frames_of (ln_client l)). stays t f) \<and> ln_down l \<le> length (wc_wire (ln_server l))
     \<and> (\<forall>cb. subseq (calls_for t cb (cc_calls (ln_client l))) (events_of t (take (ln_down l) (wc_wire (ln_server l)))))"

lemma link_inv_step:
  assumes "link_exec a l = Some l'" "link_inv t l" "\<forall>c. a = LnClient c \<longrightarrow> \<not> closes_handle t c"
  shows "link_inv t l'"
proof -
  have I: "wire_inv t (ln_server l)" "callbacks_ok (cc_client (ln_client l))" "\<forall>f \<in> set (client_frames_of (ln_client l)). stays t f"
    "ln_down l \<le> length (wc_wire (ln_server l))"
    "\<And>cb. subseq (calls_for t cb (cc_calls (ln_client l))) (events_of t (take (ln_down l) (wc_wire (ln_server l))))"
    using assms(2) by (auto simp: link_inv_def)
  have server: "link_inv t (l\<lparr>ln_server := s\<rparr>)" if s: "conn_exec b (ln_server l) = Some s" "\<not> leaves t b" for b s
  proof -
    obtain zs where zs: "wc_wire s = wc_wire (ln_server l) @ zs" using conn_wire_grows[OF s(1)] by (auto simp: prefix_def)
    show ?thesis using I wire_inv_step[OF s(1) I(1) s(2)] by (simp add: link_inv_def zs)
  qed
  have client: "callbacks_ok (cc_client s) \<and> (\<forall>f \<in> set (client_frames_of s). stays t f)
      \<and> subseq (calls_for t cb (cc_calls s)) (calls_for t cb (cc_calls (ln_client l)) @ act_event t b)"
    if s: "cl_exec b (ln_client l) = Some s" "\<not> closes_handle t b" for b s cb
    using callbacks_ok_step[OF s(1) I(2)] frames_step[OF s I(3)] cl_exec_calls[OF s(1) I(2)] by blast
  show ?thesis
  proof (cases a)
    case (LnClient b)
    then obtain s where s: "client_alone b" "cl_exec b (ln_client l) = Some s" "l' = l\<lparr>ln_client := s\<rparr>"
      using assms(1) by (auto split: if_splits)
    have "act_event t b = []" using s(1) by (cases b) auto
    then have c: "callbacks_ok (cc_client s) \<and> (\<forall>f \<in> set (client_frames_of s). stays t f)
        \<and> subseq (calls_for t cb (cc_calls s)) (calls_for t cb (cc_calls (ln_client l)))" for cb
      using client[OF s(2)] assms(3) LnClient by simp
    then have "subseq (calls_for t cb (cc_calls s)) (events_of t (take (ln_down l) (wc_wire (ln_server l))))" for cb
      using I(5) subseq_order.order_trans by blast
    then show ?thesis using I c unfolding link_inv_def s(3) by simp
  next
    case (LnServer b)
    then obtain s where s: "server_alone b" "conn_exec b (ln_server l) = Some s" "l' = l\<lparr>ln_server := s\<rparr>"
      using assms(1) by (auto split: if_splits)
    have "\<not> leaves t b" using s(1) by (cases b) auto
    then show ?thesis using server[OF s(2)] s(3) by simp
  next
    case LnDown
    let ?m = "wc_wire (ln_server l) ! ln_down l"
    obtain s where s: "ln_down l < length (wc_wire (ln_server l))" "cl_exec (ClRead (to_server_frame ?m)) (ln_client l) = Some s"
      "l' = l\<lparr>ln_client := s, ln_down := ln_down l + 1\<rparr>" using assms(1) LnDown by (auto split: if_splits)
    have take: "take (ln_down l + 1) (wc_wire (ln_server l)) = take (ln_down l) (wc_wire (ln_server l)) @ [?m]"
      using s(1) by (simp add: take_Suc_conv_app_nth)
    have "subseq (calls_for t cb (cc_calls s)) (events_of t (take (ln_down l + 1) (wc_wire (ln_server l))))" for cb
    proof -
      have "subseq (calls_for t cb (cc_calls s)) (calls_for t cb (cc_calls (ln_client l)) @ events_of t [?m])"
        using client[OF s(2)] frame_event_wire by simp
      moreover have "subseq (calls_for t cb (cc_calls (ln_client l)) @ events_of t [?m])
          (events_of t (take (ln_down l) (wc_wire (ln_server l))) @ events_of t [?m])"
        by (rule list_emb_append_mono[OF I(5)]) simp
      ultimately show ?thesis unfolding take by (simp only: events_of_simps(3))
    qed
    then show ?thesis using I(1) client[OF s(2)] s(1) unfolding link_inv_def s(3) by simp
  next
    case (LnUp now rid)
    let ?f = "cc_wire (ln_client l) ! ln_up l"
    obtain s where s: "ln_up l < length (cc_wire (ln_client l))" "conn_exec (WaRead now rid (to_in_msg ?f)) (ln_server l) = Some s"
      "l' = l\<lparr>ln_server := s, ln_up := ln_up l + 1\<rparr>" using assms(1) LnUp by (auto split: if_splits)
    have "stays t ?f" using I(3) s(1) by (simp add: client_frames_of_def)
    then have "\<not> leaves t (WaRead now rid (to_in_msg ?f))" by (simp add: stays_def to_in_msg_def)
    then show ?thesis using server[OF s(2)] unfolding s(3) by (simp add: link_inv_def)
  qed
qed


text \<open>A subscription to the demo broker's topic from its first event, up to two calls.\<close>

lemma link_run_append: "link_run (xs @ ys) l = (case link_run xs l of None \<Rightarrow> None | Some l1 \<Rightarrow> link_run ys l1)"
  by (induction xs arbitrary: l) (auto split: option.splits)

lemma link_run_server:
  "list_all server_alone as \<Longrightarrow> conn_run as (ln_server l) = Some s \<Longrightarrow> link_run (map LnServer as) l = Some (l\<lparr>ln_server := s\<rparr>)"
  by (induction as arbitrary: l) (auto split: option.splits)

definition demo_up :: "link_act list" where
  "demo_up = map LnClient [ClCollect, ClStart, ClRegister ''int/hits'' (Seq 1), ClSend 0, ClWrite True]"

definition demo_serve :: "ws_act list" where
  "demo_serve = WaBackfill # replicate 4 WaSend @ [WaWrite True, WaWrite True]"

lemma demo_serve_alone: "list_all server_alone demo_serve"
  by (simp add: demo_serve_def numeral_eq_Suc)

definition demo_link_acts :: "link_act list" where
  "demo_link_acts = demo_up @ (LnUp 20 ''r'' # map LnServer demo_serve) @ [LnDown, LnDown]"

lemma demo_up:
  "\<exists>s ts. link_run demo_up (link_start demo_dial b) = Some ((link_start demo_dial b)\<lparr>ln_client := s\<rparr>)
    \<and> cc_wire s = [subscribe_frame ''int/hits'' (Seq 1) 0] \<and> cc_reader s = Running \<and> cc_open s \<and> cc_calls s = []
    \<and> fmlookup (cl_topics (cc_client s)) ''int/hits'' = Some ts \<and> ts_callbacks ts = [1]"
  using valid_int_hits(1)
  by (simp add: demo_up_def link_start_def demo_dial_def cl_conn_start_def client_new_def cl_exec_def resubscribe_frames_def
      client_register_def client_send_def send_buf_def Let_def)

lemma demo_link:
  "\<exists>l. link_run demo_link_acts (link_start demo_dial demo_broker) = Some l
    \<and> map ev_seq (calls_for ''int/hits'' 1 (cc_calls (ln_client l))) = [1, 2]"
proof -
  let ?e1 = "stamp_event 8 ''a'' 1 incr_event" and ?e2 = "stamp_event 9 ''b'' 2 incr_event"
  let ?c = "conn_open demo_broker" and ?m = "to_in_msg (subscribe_frame ''int/hits'' (Seq 1) 0)"
  obtain s ts where s: "link_run demo_up (link_start demo_dial demo_broker) = Some ((link_start demo_dial demo_broker)\<lparr>ln_client := s\<rparr>)"
    "cc_wire s = [subscribe_frame ''int/hits'' (Seq 1) 0]" "cc_reader s = Running" "cc_open s" "cc_calls s = []"
    "fmlookup (cl_topics (cc_client s)) ''int/hits'' = Some ts" "ts_callbacks ts = [1]"
    using demo_up[of demo_broker] by (elim exE conjE)
  have m: "im_op ?m = ''subscribe''" "im_topic ?m = ''int/hits''" "im_from ?m = []" "im_from_seq ?m = 1" "im_req_id ?m = []"
    by (simp_all add: to_in_msg_def subscribe_frame_def out_frame_def Seq_def)
  have "\<exists>sub b1. broker_subscribe ''int/hits'' (parse_from [] 1) (add_metrics [IncConnected] demo_broker) =
      (Inr (sub, [?e1, ?e2], 2), b1)"
    using demo_subscribe
    by (fastforce simp: broker_subscribe_def case_prod_unfold Let_def split: option.splits sum.splits)
  then obtain i b1 where b1: "broker_subscribe ''int/hits'' (parse_from [] 1) (wc_broker ?c) = (Inr (i, [?e1, ?e2], 2), b1)"
    by (auto simp: conn_open_def)
  obtain b' s' where h: "ws_handle_subscribe ?m (wc_broker ?c, wc_session ?c) = (b', s')" by fastforce
  have o: "ws_out s' = [event_frame ''int/hits'' ?e1, event_frame ''int/hits'' ?e2, ack_frame ''int/hits'' 2 []]"
    using h b1 m by (auto simp: ws_handle_subscribe_def conn_open_def ws_new_def out_buf_def Let_def)
  let ?c2 = "?c\<lparr>wc_broker := b', wc_session := s', wc_opened := i # wc_opened ?c\<rparr>"
  have r: "conn_run (WaRead 20 ''r'' ?m # WaBackfill # replicate (length [?e1, ?e2] + 2) WaSend) ?c = Some ?c2"
    by (rule conn_subscribe_atomic[OF _ m(1) _ _ h]) (use b1 m in \<open>simp_all add: conn_open_def ws_new_def\<close>)
  let ?c3 = "?c2\<lparr>wc_session := s'\<lparr>ws_out := [ack_frame ''int/hits'' 2 []]\<rparr>,
    wc_wire := [event_frame ''int/hits'' ?e1, event_frame ''int/hits'' ?e2]\<rparr>"
  have "conn_run [WaWrite True, WaWrite True] ?c2 = Some ?c3" using o by (simp add: ws_write_def conn_open_def)
  then have "conn_run ((WaRead 20 ''r'' ?m # WaBackfill # replicate (length [?e1, ?e2] + 2) WaSend) @ [WaWrite True, WaWrite True]) ?c = Some ?c3"
    unfolding conn_run_append r by simp
  then have "conn_run (WaRead 20 ''r'' ?m # demo_serve) ?c = Some ?c3" by (simp add: demo_serve_def numeral_eq_Suc)
  then obtain c1 where c1: "conn_exec (WaRead 20 ''r'' ?m) ?c = Some c1" "conn_run demo_serve c1 = Some ?c3"
    by (auto simp del: conn_exec.simps split: option.splits)
  let ?l1 = "(link_start demo_dial demo_broker)\<lparr>ln_client := s\<rparr>"
  let ?l2 = "?l1\<lparr>ln_server := ?c3, ln_up := 1\<rparr>"
  have "link_exec (LnUp 20 ''r'') ?l1 = Some (?l1\<lparr>ln_server := c1, ln_up := 1\<rparr>)"
    using s(2) c1(1) by (simp add: link_start_def)
  then have "link_run (LnUp 20 ''r'' # map LnServer demo_serve) ?l1 = link_run (map LnServer demo_serve) (?l1\<lparr>ln_server := c1, ln_up := 1\<rparr>)"
    by simp
  also have "\<dots> = Some ?l2"
    using link_run_server[OF demo_serve_alone, of "?l1\<lparr>ln_server := c1, ln_up := 1\<rparr>" ?c3] c1(2) by simp
  finally have 2: "link_run (LnUp 20 ''r'' # map LnServer demo_serve) ?l1 = Some ?l2" .
  have "\<exists>l. link_run [LnDown, LnDown] ?l2 = Some l \<and> map ev_seq (calls_for ''int/hits'' 1 (cc_calls (ln_client l))) = [1, 2]"
    using s(3-7) by (simp add: cl_exec_def link_start_def client_dispatch_def to_server_frame_def event_frame_def frame_def calls_for_def Let_def)
  then show ?thesis unfolding demo_link_acts_def link_run_append s(1) option.case 2 .
qed


section \<open>What a resumption may repeat\<close>

text \<open>
  A client that resumes after event \<open>n\<close> asks for \<open>n + 1\<close>. While the publish of \<open>n\<close> is between its halves,
  the client may have read \<open>n\<close> in a backfill already (the first run); the backfill from \<open>n + 1\<close> is then empty, the
  fence of an empty backfill is 0, and the hub half gives the new subscription \<open>n\<close> again (the second).
\<close>

lemma resume_race_repeats:
  fixes e :: event
  assumes "broker_reachable (memory_broker reg ttl) b" "validate_topic (ev_topic e) = None" "ev_type e \<noteq> []"
    and "0 < hub_buf (br_hub b)" "n = Suc (length (mem_log (br_store b) (ev_topic e)))"
  shows "\<exists>d1 d2 es. dreachable (ev_topic e) (Seq 1) b d1 \<and> dy_pending d1 \<noteq> None \<and> dy_read d1 = Some (es, n)
    \<and> dreachable (ev_topic e) (Seq (n + 1)) b d2 \<and> map ev_seq (dy_out d2) = [n]"
proof -
  let ?t = "ev_topic e" and ?src = "''publish''"
  have B: "br_ops b = mem_ops" "mem_inv (br_store b)" "hub_inv (br_hub b)"
    using memory_broker_reachable[OF assms(1)] memory_broker_hub[OF assms(1)] by auto
  obtain ot where ot: "parse_object_type ?t = Inr ot" using validate_parse(1)[OF assms(2)] by blast
  obtain m e' nx b' where g: "broker_ingest 0 [] ot e b = (Inr (m, e', nx), b')" and sp: "m = n" "e' = stamp_event 0 [] m e"
      "mem_inv (br_store b')" "mem_log (br_store b') = (mem_log (br_store b))(?t := mem_log (br_store b) ?t @ [e'])"
    using mem.ingest_spec[OF B(2,1), of 0 "[]" ot e] assms(5) by auto
  have e': "ev_seq e' = n" "ev_topic e' = ?t" using sp(1,2) by (simp_all add: stamp_event_def)
  have F: "br_hub b' = br_hub b" "br_ops b' = mem_ops"
    using broker_ingest_frame(1,2)[of 0 "[]" ot e b] g B(1) by simp_all
  let ?i = "fst (hub_subscribe ?t (br_hub b))" and ?h = "snd (hub_subscribe ?t (br_hub b))"
  let ?da = "(delivery_start b)\<lparr>dy_broker := b', dy_pending := Some (ot, ?src, e', nx)\<rparr>"
  let ?d = "?da\<lparr>dy_broker := b'\<lparr>br_hub := ?h\<rparr>, dy_sub := Some ?i\<rparr>"
  have d0: "dreachable ?t from b ?da" for "from"
    using dr_step[OF dr_start ds_ingest[of "delivery_start b" e ot 0 "[]" m e' nx b' ?t "from" ?src]] assms(2,3) ot g
    by (simp add: delivery_start_def)
  have d: "dreachable ?t from b ?d" for "from"
    using dr_step[OF d0 ds_open[of ?da ?t ?i ?h "from"]] F by (simp add: delivery_start_def)
  have L: "dense_log (mem_log (br_store b') ?t)" using mem_inv_log[OF sp(3)] by blast
  have len: "length (mem_log (br_store b') ?t) = n" and last: "last (mem_log (br_store b') ?t) = e'" "mem_log (br_store b') ?t \<noteq> []"
    using sp(4) assms(5) by simp_all
  have read: "read_backfill mem_ops ?t (Seq k) (br_store b') = Inr (drop (k - 1) (mem_log (br_store b') ?t))" if "1 \<le> k" for k
    using that by (simp add: read_backfill_def Seq_def mem_read_eq[OF sp(3)] dense_log_filter_ge[OF L])
  let ?d1 = "?d\<lparr>dy_read := Some (mem_log (br_store b') ?t, fence_of (mem_log (br_store b') ?t))\<rparr>"
  have "dreachable ?t (Seq 1) b ?d1"
    using dr_step[OF d ds_read[of ?d ?i ?t "Seq 1"]] read[of 1] F by (simp add: delivery_start_def)
  moreover have "fence_of (mem_log (br_store b') ?t) = n" using last e' by (simp add: fence_of_def)
  moreover let ?d2 = "?d\<lparr>dy_read := Some ([], 0)\<rparr>"
  have d2: "dreachable ?t (Seq (n + 1)) b ?d2"
    using dr_step[OF d ds_read[of ?d ?i ?t "Seq (n + 1)"]] read[of "n + 1"] F len by (simp add: delivery_start_def fence_of_def)
  let ?b3 = "broker_fanout ot ?src e' nx (b'\<lparr>br_hub := ?h\<rparr>)"
  let ?d3 = "?d2\<lparr>dy_broker := ?b3, dy_pending := None\<rparr>"
  have d3: "dreachable ?t (Seq (n + 1)) b ?d3"
    using dr_step[OF d2 ds_fanout[of ?d2 ot ?src e' nx]] by simp
  let ?e = "e'\<lparr>ev_state := nx\<rparr>"
  have "fmlookup (hub_subs (br_hub ?b3)) ?i =
      Some \<lparr>sub_topic = ?t, sub_chan = [?e], sub_closed = False, sub_done = False, sub_lag = 0\<rparr>"
    using hub_publish_lookup[OF hub_inv_subscribe[OF B(3), of ?t], of ?e ?i] assms(4) e'(2)
    by (simp add: hub_subscribe_simps deliver_def)
  then have r: "hub_recv ?i (br_hub ?b3) = Some (?e, update_sub ?i (\<lambda>s. s\<lparr>sub_chan := []\<rparr>) (br_hub ?b3))"
    unfolding hub_recv_simps by (intro exI[of _ "\<lparr>sub_topic = ?t, sub_chan = [?e], sub_closed = False, sub_done = False, sub_lag = 0\<rparr>"]) simp
  let ?d4 = "?d3\<lparr>dy_broker := ?b3\<lparr>br_hub := update_sub ?i (\<lambda>s. s\<lparr>sub_chan := []\<rparr>) (br_hub ?b3)\<rparr>,
    dy_recv := dy_recv ?d3 @ [?e], dy_out := dy_out ?d3 @ forward_event 0 ?e\<rparr>"
  have "dreachable ?t (Seq (n + 1)) b ?d4"
    using dr_step[OF d3 ds_forward[of ?d3 ?i "[]" 0 ?e]] r by (simp add: delivery_start_def)
  moreover have "map ev_seq (dy_out ?d4) = [n]"
    using e' assms(5) by (simp add: delivery_start_def forward_event_def)
  ultimately show ?thesis by (intro exI[of _ ?d1] exI[of _ ?d4] exI conjI) simp_all
qed

end
