(* ===== verification/HttpHandlers.thy ===== *)
theory HttpHandlers
  imports Delivery
begin

text \<open>
  The HTTP handlers of \<open>internal/transport\<close> over the broker: publish, the scalar field endpoints
  (\<open>publish.go\<close>, \<open>field.go\<close>) and the read endpoints (\<open>admin.go\<close>); polling is in \<open>PollModel\<close>. Requests come in as their parsed parts (path, query, body as a \<open>raw\<close> message) and
  responses go out as values; the size limit of a body and the response headers are not modelled.
\<close>

section \<open>Responses and query numbers\<close>

datatype 'a response = HttpError nat string | HttpOk 'a

text \<open>\<open>strconv.ParseUint(s, 10, 64)\<close> with the error ignored: 0 for text that is not a number, the
  largest uint64 once the digits overflow it.\<close>

definition max_u64 :: nat where
  "max_u64 = 18446744073709551615"

fun parse_digits :: "nat \<Rightarrow> string \<Rightarrow> nat" where
  "parse_digits n [] = n"
| "parse_digits n (c # cs) =
     (if is_digit c then
        (let n' = 10 * n + digit_val c in if max_u64 < n' then max_u64 else parse_digits n' cs)
      else 0)"

definition parse_uint :: "string \<Rightarrow> nat" where
  "parse_uint s = parse_digits 0 s"

text \<open>\<open>strconv.Atoi\<close> with the error ignored.\<close>

definition atoi :: "string \<Rightarrow> int" where
  "atoi s =
     (case s of
        [] \<Rightarrow> 0
      | c # cs \<Rightarrow>
          if c = CHR ''-'' then max (- (2 ^ 63)) (- int (parse_uint cs))
          else min (2 ^ 63 - 1) (int (parse_uint (if c = CHR ''+'' then cs else s))))"

section \<open>Publish\<close>

record publish_req =
  pq_topic :: string
  pq_type :: string
  pq_actor :: string
  pq_payload :: raw

record publish_resp =
  pr_id :: string
  pr_seq :: nat
  pr_topic :: string

text \<open>A \<open>json.RawMessage\<close> field holds the field's text, \<open>null\<close> included, and is empty without the key.\<close>

definition raw_field :: "json \<Rightarrow> string \<Rightarrow> raw" where
  "raw_field j k =
     (case j of
        JObj o1 \<Rightarrow> (case jget o1 k of Some v \<Rightarrow> RJson v | None \<Rightarrow> RNil)
      | _ \<Rightarrow> RNil)"

definition publish_req_dec :: "json \<Rightarrow> publish_req decoded" where
  "publish_req_dec j = dec_struct (\<lambda>f.
     (let (t, ok1) = dec_string (f ''topic''); (ty, ok2) = dec_string (f ''type'');
          (a, ok3) = dec_string (f ''actor'')
      in (\<lparr>pq_topic = t, pq_type = ty, pq_actor = a, pq_payload = raw_field j ''payload''\<rparr>, ok1 \<and> ok2 \<and> ok3))) j"

text \<open>\<open>json.Unmarshal\<close> of an empty body is an error.\<close>

definition unmarshal :: "(json \<Rightarrow> 'a decoded) \<Rightarrow> raw \<Rightarrow> 'a option" where
  "unmarshal d body = (case body of RJson j \<Rightarrow> if snd (d j) then Some (fst (d j)) else None | _ \<Rightarrow> None)"

definition http_publish ::
    "time \<Rightarrow> string \<Rightarrow> string \<Rightarrow> raw \<Rightarrow> 's broker \<Rightarrow> publish_resp response \<times> 's broker" where
  "http_publish now fresh_id meth body b =
     (if meth \<noteq> ''POST'' then (HttpError 405 ''method not allowed'', b)
      else (case unmarshal publish_req_dec body of
              None \<Rightarrow> (HttpError 400 (err_text unmarshal_error), b)
            | Some req \<Rightarrow>
                (let e = new_event (pq_topic req) (pq_type req) (pq_actor req) (pq_payload req) now
                 in case broker_publish now fresh_id e ''publish'' b of
                      (Inl err, b1) \<Rightarrow> (HttpError 400 (err_text err), b1)
                    | (Inr seq, b1) \<Rightarrow> (HttpOk \<lparr>pr_id = fresh_id, pr_seq = seq, pr_topic = pq_topic req\<rparr>, b1))))"

section \<open>Scalar fields\<close>

text \<open>\<open>readJSONBody\<close>: an empty body is an empty object; anything but an object, or \<open>null\<close>, is an error.\<close>

definition read_json_body :: "raw \<Rightarrow> (string \<times> json) list option" where
  "read_json_body body = (if body = RNil then Some [] else dec_any_map body)"

definition field_event_of :: "time \<Rightarrow> string \<Rightarrow> string \<Rightarrow> raw \<Rightarrow> event" where
  "field_event_of now topic typ payload = new_event topic typ [] payload now"

definition publish_field ::
    "time \<Rightarrow> string \<Rightarrow> string \<Rightarrow> string \<Rightarrow> raw \<Rightarrow> 's broker \<Rightarrow> nat response \<times> 's broker" where
  "publish_field now fresh_id topic typ payload b =
     (case broker_publish now fresh_id (field_event_of now topic typ payload) ''field'' b of
        (Inl err, b1) \<Rightarrow> (HttpError 400 (err_text err), b1)
      | (Inr seq, b1) \<Rightarrow> (HttpOk seq, b1))"

text \<open>The set endpoint marshals the decoded body again; \<open>null\<close> decodes to a nil map.\<close>

definition http_field_set ::
    "time \<Rightarrow> string \<Rightarrow> string \<Rightarrow> raw \<Rightarrow> 's broker \<Rightarrow> nat response \<times> 's broker" where
  "http_field_set now fresh_id topic body b =
     (case parse_object_type topic of
        Inl _ \<Rightarrow> (HttpError 400 ''invalid topic'', b)
      | Inr ot \<Rightarrow>
          (case read_json_body body of
             None \<Rightarrow> (HttpError 400 (err_text unmarshal_error), b)
           | Some o1 \<Rightarrow>
               publish_field now fresh_id topic (ot @ ''_set'')
                 (RJson (if body = RJson JNull then JNull else reencode (JObj o1))) b))"

definition http_field_string_set ::
    "time \<Rightarrow> string \<Rightarrow> string \<Rightarrow> raw \<Rightarrow> 's broker \<Rightarrow> nat response \<times> 's broker" where
  "http_field_string_set now fresh_id topic body b =
     (case read_json_body body of
        None \<Rightarrow> (HttpError 400 (err_text unmarshal_error), b)
      | Some o1 \<Rightarrow>
          publish_field now fresh_id topic ''str_set''
            (RJson (JObj [(''value'', JStr (get_str (jget o1) ''value''))])) b)"

text \<open>\<open>body, _ := readJSONBody(r)\<close>: a body that cannot be read is an empty one.\<close>

definition body_int :: "raw \<Rightarrow> string \<Rightarrow> i64 \<Rightarrow> i64" where
  "body_int body k d =
     (case read_json_body body of
        None \<Rightarrow> d
      | Some o1 \<Rightarrow> (case as_float64 (pget (jget o1) k) of Some f \<Rightarrow> f64_to_i64 f | None \<Rightarrow> d))"

definition http_field_incr :: "time \<Rightarrow> string \<Rightarrow> string \<Rightarrow> raw \<Rightarrow> 's broker \<Rightarrow> nat response \<times> 's broker" where
  "http_field_incr now fresh_id topic body b =
     publish_field now fresh_id topic ''int_incr'' (RJson (JObj [(''delta'', enc_i64 (body_int body ''delta'' 1))])) b"

definition http_field_decr :: "time \<Rightarrow> string \<Rightarrow> string \<Rightarrow> raw \<Rightarrow> 's broker \<Rightarrow> nat response \<times> 's broker" where
  "http_field_decr now fresh_id topic body b =
     publish_field now fresh_id topic ''int_decr'' (RJson (JObj [(''delta'', enc_i64 (body_int body ''delta'' 1))])) b"

definition http_field_delete :: "time \<Rightarrow> string \<Rightarrow> string \<Rightarrow> 's broker \<Rightarrow> nat response \<times> 's broker" where
  "http_field_delete now fresh_id topic b =
     (case parse_object_type topic of
        Inl _ \<Rightarrow> (HttpError 400 ''invalid topic'', b)
      | Inr ot \<Rightarrow> publish_field now fresh_id topic (ot @ ''_delete'') (RJson JNull) b)"

definition http_field_time_now :: "time \<Rightarrow> string \<Rightarrow> string \<Rightarrow> 's broker \<Rightarrow> nat response \<times> 's broker" where
  "http_field_time_now now fresh_id topic b = publish_field now fresh_id topic ''time_now'' (RJson JNull) b"

definition http_field_time_add :: "time \<Rightarrow> string \<Rightarrow> string \<Rightarrow> raw \<Rightarrow> 's broker \<Rightarrow> nat response \<times> 's broker" where
  "http_field_time_add now fresh_id topic body b =
     publish_field now fresh_id topic ''time_add'' (RJson (JObj [(''seconds'', enc_i64 (body_int body ''seconds'' 0))])) b"

section \<open>Reads\<close>

definition http_state :: "string \<Rightarrow> 's broker \<Rightarrow> raw response" where
  "http_state topic b =
     (case broker_get_state topic b of
        Inl err \<Rightarrow> HttpError 404 (err_text err)
      | Inr r \<Rightarrow> HttpOk (if r = RNil then RJson JNull else r))"

definition http_events :: "string \<Rightarrow> string \<Rightarrow> string \<Rightarrow> 's broker \<Rightarrow> event list response" where
  "http_events topic from_q limit_q b =
     (case broker_events topic (parse_uint from_q) (atoi limit_q) b of
        Inl err \<Rightarrow> HttpError 400 (err_text err)
      | Inr es \<Rightarrow> HttpOk es)"

definition http_topics :: "string \<Rightarrow> string \<Rightarrow> 's broker \<Rightarrow> string list response" where
  "http_topics pre limit_q b =
     (case broker_list_topics pre (atoi limit_q) b of
        Inl err \<Rightarrow> HttpError 500 (err_text err)
      | Inr ts \<Rightarrow> HttpOk ts)"

section \<open>Query numbers\<close>

lemma digits_val_step: "n \<le> foldl (\<lambda>n c. 10 * n + digit_val c) n ds"
proof (induction ds arbitrary: n)
  case (Cons c ds)
  have "n \<le> 10 * n + digit_val c" by simp
  then show ?case using Cons[of "10 * n + digit_val c"] by simp
qed simp

lemma parse_digits_all:
  "list_all is_digit ds \<Longrightarrow> n \<le> max_u64 \<Longrightarrow>
   parse_digits n ds = min max_u64 (foldl (\<lambda>n c. 10 * n + digit_val c) n ds)"
proof (induction ds arbitrary: n)
  case (Cons c ds)
  show ?case
  proof (cases "max_u64 < 10 * n + digit_val c")
    case True
    then show ?thesis using Cons.prems(1) digits_val_step[of "10 * n + digit_val c" ds] by (simp add: Let_def)
  next
    case False
    then show ?thesis using Cons by (simp add: Let_def)
  qed
qed simp

lemma parse_uint_digits: "list_all is_digit ds \<Longrightarrow> parse_uint ds = min max_u64 (digits_val ds)"
  using parse_digits_all[of ds 0] by (simp add: parse_uint_def digits_val_def)

section \<open>Properties\<close>

text \<open>The increment endpoint publishes an \<open>int_incr\<close> whose delta, once reduced, is the \<open>delta\<close> of
  the request's body, for deltas of at most 53 bits; without one, and also when the body is not
  JSON at all, it is 1.\<close>

lemma field_incr_delta:
  assumes "broker_reachable (memory_broker reg ttl) b" "validate_topic t = None"
    and "body = RJson (JObj [(''delta'', JNum n 0)]) \<and> \<bar>n\<bar> \<le> 2 ^ 53 \<or> body \<in> {RNil, RBad} \<and> n = 1"
  shows "\<exists>seq e b'. http_field_incr now rid t body b = (HttpOk seq, b')
    \<and> mem_log (br_store b') t = mem_log (br_store b) t @ [e] \<and> ev_seq e = seq
    \<and> ev_type e = ''int_incr'' \<and> int_change e = word_of_int n"
proof -
  have n: "\<bar>n\<bar> \<le> 2 ^ 53" using assms(3) by auto
  have num: "number_as_int64 (JNum n 0) = Some (word_of_int n)"
    using f64_i64_roundtrip[OF n] by (simp add: number_as_int64_def)
  then have f: "f64_of_num n 0 \<noteq> None" by (auto simp: number_as_int64_def)
  have bi: "body_int body ''delta'' 1 = word_of_int n"
    using assms(3) f num
    by (auto simp: body_int_def read_json_body_def dec_any_map_def pget_def number_as_int64_def)
  let ?e = "field_event_of now t ''int_incr'' (RJson (JObj [(''delta'', enc_i64 (word_of_int n))]))"
  have e: "ev_topic ?e = t" "ev_type ?e \<noteq> []" by (simp_all add: field_event_of_def new_event_def)
  obtain seq b' where p: "broker_publish now rid ?e ''field'' b = (Inr seq, b')"
      "mem_log (br_store b') = (mem_log (br_store b))(t := mem_log (br_store b) t @ [stamp_event now rid seq ?e])"
    using broker_publish_ok[OF assms(1), of ?e now rid "''field''"] assms(2) e by auto
  have "sint (word_of_int n :: i64) = n" using in_i64_small[OF n] by (rule sint_i64_of_int)
  then have "int_change (stamp_event now rid seq ?e) = word_of_int n"
    using num by (simp add: int_change_def int_delta_def field_event_of_def new_event_def pget_def enc_i64_def)
  then show ?thesis
    using p bi by (simp add: http_field_incr_def publish_field_def field_event_of_def new_event_def)
qed

lemma field_incr_delta_example:
  "\<exists>seq b'. http_field_incr 5 ''id'' ''int/hits'' RBad demo_broker = (HttpOk seq, b')"
  using field_incr_delta[OF demo_broker_reachable valid_int_hits(1), of RBad 1 5 "''id''"] by auto

end
