(* ===== verification/PollModel.thy ===== *)
theory PollModel
  imports HttpHandlers
begin

text \<open>
  The poll endpoint, \<open>internal/transport/poll.go\<close>: the synchronous fetch, and the long poll with its
  subscriptions, one forwarder per subscription, the channel that merges them and the batch window.
  What the rest of the server does meanwhile, and when the goroutines run and the timers fire, is a
  schedule of steps, which the handler is a function of. A publish is one step of the schedule: its
  two halves, taken apart in \<open>Delivery\<close>, differ only in the hub, which the store half leaves alone.

  The main results: \<open>poll_immediate\<close> (events already there are all returned), \<open>poll_long_exact\<close> (a long
  poll of one topic returns, in order and without a gap, the events published since it subscribed,
  and its cursor continues right after them), \<open>poll_releases\<close> (no subscription is left behind), and
  \<open>poll_cursor_skips\<close> and \<open>poll_gap\<close>, what one cursor for all topics and the time between fetch and
  subscribe lose.
\<close>

section \<open>Fetch and subscriptions\<close>

record poll_resp =
  po_events :: "event list"
  po_last_seq :: nat

fun max_seq :: "event list \<Rightarrow> nat" where
  "max_seq [] = 0"
| "max_seq (e # es) = max (ev_seq e) (max_seq es)"

definition poll_wait :: "string \<Rightarrow> int" where
  "poll_wait q = (let w = atoi q; w1 = (if w < 0 then 0 else w) in if 60000 < w1 then 60000 else w1)"

text \<open>The synchronous fetch of every topic; the first error ends it.\<close>

fun poll_fetch :: "string list \<Rightarrow> nat \<Rightarrow> 's broker \<Rightarrow> gerr + event list" where
  "poll_fetch [] k b = Inr []"
| "poll_fetch (t # ts) k b =
     (case broker_events t k 0 b of
        Inl err \<Rightarrow> Inl err
      | Inr es \<Rightarrow> (case poll_fetch ts k b of Inl err \<Rightarrow> Inl err | Inr es' \<Rightarrow> Inr (es @ es')))"

text \<open>The subscriptions of the long-poll path: those opened, and the error that stopped it.\<close>

fun poll_subscribe :: "string list \<Rightarrow> 's broker \<Rightarrow> (gerr option \<times> nat list) \<times> 's broker" where
  "poll_subscribe [] b = ((None, []), b)"
| "poll_subscribe (t # ts) b =
     (case broker_subscribe t Latest b of
        (Inl err, b1) \<Rightarrow> ((Some err, []), b1)
      | (Inr (i, _, _), b1) \<Rightarrow>
          (let ((err, is), b2) = poll_subscribe ts b1 in ((err, i # is), b2)))"

definition poll_unsubscribe :: "nat list \<Rightarrow> 's broker \<Rightarrow> 's broker" where
  "poll_unsubscribe is b = foldl (\<lambda>b i. broker_unsubscribe i b) b is"

section \<open>The wait\<close>

text \<open>
  \<open>pl_held\<close>: the event a forwarder has taken from its subscription and not yet put on the merging
  channel; \<open>pl_merged\<close>: that channel; \<open>pl_got\<close>: the events of the response. The handler first waits
  for one event, then batches, then is done.
\<close>

datatype poll_phase = PollFirst | PollBatch | PollDone

record 's poll_run =
  pl_broker :: "'s broker"
  pl_subs :: "nat list"
  pl_held :: "(nat, event) fmap"
  pl_merged :: "event list"
  pl_got :: "event list"
  pl_phase :: poll_phase

definition merged_buf :: nat where
  "merged_buf = 128"

definition poll_start :: "nat list \<Rightarrow> 's broker \<Rightarrow> 's poll_run" where
  "poll_start subs b = \<lparr>pl_broker = b, pl_subs = subs, pl_held = fmempty, pl_merged = [], pl_got = [],
     pl_phase = PollFirst\<rparr>"

text \<open>
  The steps: a publish or another hub operation of somebody else; the forwarder of a subscription
  receives, or passes on what it received; the handler takes an event; a timer fires, which ends
  the wait or the batch. A step that is not enabled changes nothing.
\<close>

datatype poll_act =
    PaPublish time string event string
  | PaOther hub_op
  | PaRecv nat
  | PaMerge nat
  | PaTake
  | PaExpire

fun poll_exec :: "poll_act \<Rightarrow> 's poll_run \<Rightarrow> 's poll_run" where
  "poll_exec (PaPublish now rid e source) r = r\<lparr>pl_broker := snd (broker_publish now rid e source (pl_broker r))\<rparr>"
| "poll_exec (PaOther op) r =
     (if list_all (\<lambda>i. foreign_op (Some i) op) (pl_subs r) \<and> foreign_op None op
      then r\<lparr>pl_broker := (pl_broker r)\<lparr>br_hub := hub_exec op (br_hub (pl_broker r))\<rparr>\<rparr> else r)"
| "poll_exec (PaRecv i) r =
     (if pl_phase r \<noteq> PollDone \<and> i \<in> set (pl_subs r) \<and> fmlookup (pl_held r) i = None then
        (case hub_recv i (br_hub (pl_broker r)) of
           None \<Rightarrow> r
         | Some (e, h) \<Rightarrow> r\<lparr>pl_broker := (pl_broker r)\<lparr>br_hub := h\<rparr>, pl_held := fmupd i e (pl_held r)\<rparr>)
      else r)"
| "poll_exec (PaMerge i) r =
     (if pl_phase r \<noteq> PollDone \<and> length (pl_merged r) < merged_buf then
        (case fmlookup (pl_held r) i of
           None \<Rightarrow> r
         | Some e \<Rightarrow> r\<lparr>pl_held := fmdrop i (pl_held r), pl_merged := pl_merged r @ [e]\<rparr>)
      else r)"
| "poll_exec PaTake r =
     (case pl_merged r of
        [] \<Rightarrow> r
      | e # es \<Rightarrow>
          if pl_phase r \<noteq> PollDone then r\<lparr>pl_merged := es, pl_got := pl_got r @ [e], pl_phase := PollBatch\<rparr> else r)"
| "poll_exec PaExpire r = r\<lparr>pl_phase := PollDone\<rparr>"

definition poll_run :: "poll_act list \<Rightarrow> 's poll_run \<Rightarrow> 's poll_run" where
  "poll_run acts r = foldl (\<lambda>r a. poll_exec a r) r acts"

text \<open>What the others do before the subscriptions are there.\<close>

definition poll_others :: "poll_act list \<Rightarrow> 's broker \<Rightarrow> 's broker" where
  "poll_others before b = pl_broker (poll_run before (poll_start [] b))"

section \<open>The handler\<close>

text \<open>
  \<open>before\<close> is what happens between the fetch and the subscriptions, \<open>acts\<close> what happens until the
  deadline: the wait ends by then, whatever the schedule does.
\<close>

definition http_poll ::
    "string list \<Rightarrow> string \<Rightarrow> string \<Rightarrow> poll_act list \<Rightarrow> poll_act list \<Rightarrow> 's broker
     \<Rightarrow> poll_resp response \<times> 's broker" where
  "http_poll topics from_q wait_q before acts b =
     (if topics = [] then (HttpError 400 ''at least one topic= required'', b)
      else (case poll_fetch topics (parse_uint from_q) b of
              Inl err \<Rightarrow> (HttpError 400 (err_text err), b)
            | Inr es \<Rightarrow>
                if es \<noteq> [] \<or> poll_wait wait_q = 0
                then (HttpOk \<lparr>po_events = es, po_last_seq = max_seq es\<rparr>, b)
                else (case poll_subscribe topics (poll_others before b) of
                        ((Some err, is), b1) \<Rightarrow> (HttpError 400 (err_text err), poll_unsubscribe is b1)
                      | ((None, is), b1) \<Rightarrow>
                          (let r = poll_run acts (poll_start is b1)
                           in (HttpOk \<lparr>po_events = pl_got r, po_last_seq = max_seq (pl_got r)\<rparr>,
                               poll_unsubscribe is (pl_broker r))))))"

lemma max_seq_ge: "e \<in> set es \<Longrightarrow> ev_seq e \<le> max_seq es"
  by (induction es) auto

lemma max_seq_append [simp]: "max_seq (xs @ ys) = max (max_seq xs) (max_seq ys)"
  by (induction xs) auto

lemma max_seq_dense: "dense_log es \<Longrightarrow> max_seq es = length es"
  by (induction es rule: rev_induct) (auto simp: dense_log_snoc)

section \<open>Polling\<close>

lemma poll_fetch_mem:
  assumes "br_ops b = mem_ops" "mem_inv (br_store b)"
  shows "poll_fetch ts k b = Inr (concat (map (\<lambda>t. drop (k - 1) (mem_log (br_store b) t)) ts))"
proof (induction ts)
  case (Cons t ts)
  have "dense_log (mem_log (br_store b) t)" using mem_inv_log[OF assms(2)] by blast
  then show ?case
    using Cons by (simp add: broker_events_def assms(1) mem_read_eq[OF assms(2)] dense_log_filter_ge)
qed simp

lemma poll_unsubscribe_hub:
  "br_hub (poll_unsubscribe is b) = foldl (\<lambda>h i. hub_close i h) (br_hub b) is"
  unfolding poll_unsubscribe_def by (induction "is" arbitrary: b) simp_all

lemma poll_subscribe_hub:
  assumes "hub_inv (br_hub b)" "poll_subscribe ts b = ((err, is), b')"
  shows "hub_inv (br_hub b') \<and> br_store b' = br_store b"
  using assms
proof (induction ts arbitrary: b b' err "is")
  case (Cons t ts)
  obtain r b1 where s: "broker_subscribe t Latest b = (r, b1)" by fastforce
  have h: "hub_inv (br_hub b1)" "br_store b1 = br_store b"
    using broker_subscribe_hub[of t Latest b] broker_subscribe_store(1)[of t Latest b] s
      hub_inv_subscribe[OF Cons.prems(1)] hub_inv_close Cons.prems(1) by auto
  show ?case
  proof (cases r)
    case (Inl e)
    then show ?thesis using Cons.prems(2) s h by auto
  next
    case (Inr x)
    obtain i bf f where x: "x = (i, bf, f)" by (cases x)
    obtain err' is' b2 where p: "poll_subscribe ts b1 = ((err', is'), b2)" by (metis prod.exhaust)
    then show ?thesis using Cons.IH[OF h(1) p] Cons.prems(2) s Inr x h by auto
  qed
qed auto

section \<open>A long poll of one topic\<close>

text \<open>A publish on a broker with the memory store does nothing, or logs the event and fans it out.\<close>

lemma publish_memory_cases:
  assumes "br_ops b = mem_ops" "mem_inv (br_store b)"
  obtains (refused) "snd (broker_publish now rid e source b) = b"
  | (accepted) y nx b' where "broker_publish now rid e source b = (Inr (ev_seq y), b')"
      "ev_seq y = Suc (length (mem_log (br_store b) (ev_topic e)))" "y = stamp_event now rid (ev_seq y) e"
      "mem_log (br_store b') = (mem_log (br_store b))(ev_topic e := mem_log (br_store b) (ev_topic e) @ [y])"
      "br_hub b' = hub_exec (OpPublish (y\<lparr>ev_state := nx\<rparr>)) (br_hub b)" "mem_inv (br_store b')" "br_ops b' = mem_ops"
proof (cases "validate_topic (ev_topic e) = None \<and> ev_type e \<noteq> []")
  case False
  then show ?thesis using refused by (auto simp: broker_publish_def split: option.splits)
next
  case True
  then obtain ot where ot: "parse_object_type (ev_topic e) = Inr ot" using validate_parse by blast
  obtain n e' nx b1 where i: "broker_ingest now rid ot e b = (Inr (n, e', nx), b1)"
    and n: "n = Suc (length (mem_log (br_store b) (ev_topic e)))" "e' = stamp_event now rid n e"
    and b1: "mem_inv (br_store b1)"
      "mem_log (br_store b1) = (mem_log (br_store b))(ev_topic e := mem_log (br_store b) (ev_topic e) @ [e'])"
    using mem.ingest_spec[OF assms(2,1), of now rid ot e] by metis
  have fr: "br_hub b1 = br_hub b" "br_ops b1 = br_ops b"
    using broker_ingest_frame[of now rid ot e b] i by simp_all
  show ?thesis
    by (rule accepted[of e' "broker_fanout ot source e' nx b1" nx])
       (use True ot i n b1 fr assms(1) in \<open>simp_all add: broker_publish_def\<close>)
qed

definition poll_taken :: "nat \<Rightarrow> 's poll_run \<Rightarrow> event list" where
  "poll_taken i r = pl_got r @ pl_merged r @ (case fmlookup (pl_held r) i of None \<Rightarrow> [] | Some e \<Rightarrow> [e])"

definition poll_inv :: "string \<Rightarrow> nat \<Rightarrow> nat \<Rightarrow> mem_store poll_run \<Rightarrow> bool" where
  "poll_inv t m i r \<longleftrightarrow>
     br_ops (pl_broker r) = mem_ops \<and> mem_inv (br_store (pl_broker r)) \<and> hub_inv (br_hub (pl_broker r))
     \<and> pl_subs r = [i] \<and> fmdom' (pl_held r) \<subseteq> {i}
     \<and> (\<exists>s. fmlookup (hub_subs (br_hub (pl_broker r))) i = Some s
          \<and> sub_view t m (length (mem_log (br_store (pl_broker r)) t)) (mem_log (br_store (pl_broker r)) t)
               (poll_taken i r) s)"

lemma poll_inv_hub_op:
  assumes "poll_inv t m i r" "op \<noteq> OpClose i"
    and l: "mem_inv st" "mem_log st t = mem_log (br_store (pl_broker r)) t @ l'"
    and pub: "map ev_seq (op_published t op) = map ev_seq l'"
      "\<And>e. e \<in> set (op_published t op) \<Longrightarrow> \<exists>r'. e = (mem_log st t ! (ev_seq e - 1))\<lparr>ev_state := r'\<rparr>"
    and r': "pl_broker r' = (pl_broker r)\<lparr>br_store := st, br_hub := hub_exec op (br_hub (pl_broker r)), br_metrics := ms\<rparr>"
      "pl_subs r' = pl_subs r" "fmdom' (pl_held r') \<subseteq> {i}"
      "poll_taken i r' = poll_taken i r @ op_received i op (br_hub (pl_broker r))"
  shows "poll_inv t m i r'"
proof -
  let ?h = "br_hub (pl_broker r)" and ?l = "mem_log (br_store (pl_broker r)) t"
  obtain s where s: "hub_inv ?h" "fmlookup (hub_subs ?h) i = Some s" "sub_view t m (length ?l) ?l (poll_taken i r) s"
    using assms(1) by (auto simp: poll_inv_def)
  have st: "sub_topic s = t" "\<not> sub_closed s" using s(3) by (simp_all add: sub_view_def)
  have d: "dense_log (mem_log st t)" using mem_inv_log[OF l(1)] by blast
  have seqs: "map ev_seq l' = [Suc (length ?l) ..< Suc (length (mem_log st t))]"
  proof (rule nth_equalityI)
    fix k assume "k < length (map ev_seq l')"
    then show "map ev_seq l' ! k = [Suc (length ?l) ..< Suc (length (mem_log st t))] ! k"
      using dense_log_nth[OF d, of "length ?l + k"] l(2) by (simp add: nth_append del: upt_Suc)
  qed (simp add: l(2) del: upt_Suc)
  obtain s' where s': "fmlookup (hub_subs (hub_exec op ?h)) i = Some s'" "\<not> sub_closed s'" "sub_topic s' = sub_topic s"
    "subseq (op_received i op ?h @ sub_chan s') (sub_chan s @ op_published t op)"
    "length (op_received i op ?h @ sub_chan s') + sub_lag s' = length (sub_chan s @ op_published t op) + sub_lag s"
    using hub_exec_sub[OF s(1,2) st(2) assms(2)] st(1) by auto
  have v: "sub_view t m (length ?l) (mem_log st t) (poll_taken i r) s"
    using sub_view_grow[OF s(3)] l(2) by simp
  have "sub_view t m (length (mem_log st t)) (mem_log st t) (poll_taken i r @ op_received i op ?h) s'"
    by (rule sub_view_step[OF v s'(2-5)]) (use pub seqs l(2) in auto)
  then show ?thesis
    using assms(1) l(1) r' s'(1) hub_exec_inv[OF s(1), of op] by (auto simp: poll_inv_def)
qed

lemma poll_inv_exec:
  assumes "poll_inv t m i r"
  shows "poll_inv t m i (poll_exec a r)"
proof (cases a)
  case (PaPublish now rid e source)
  let ?b = "pl_broker r"
  have R: "br_ops ?b = mem_ops" "mem_inv (br_store ?b)" using assms by (simp_all add: poll_inv_def)
  have stamp: "y = stamp_event now rid n e \<Longrightarrow> ev_topic y = ev_topic e" for y n by simp
  show ?thesis
  proof (cases rule: publish_memory_cases[OF R, of now rid e source])
    case 1
    then show ?thesis using assms PaPublish by simp
  next
    case (2 y nx b')
    have b': "b' = ?b\<lparr>br_store := br_store b', br_hub := hub_exec (OpPublish (y\<lparr>ev_state := nx\<rparr>)) (br_hub ?b),
        br_metrics := br_metrics b'\<rparr>"
      using 2(1,5,7) R(1) broker_publish_frame[of now rid e source ?b] broker_publish_ttl[of now rid e source ?b]
      by simp
    show ?thesis
      by (rule poll_inv_hub_op[OF assms, of "OpPublish (y\<lparr>ev_state := nx\<rparr>)" "br_store b'"
             "if ev_topic e = t then [y] else []" _ "br_metrics b'"])
         (use 2(1,2,4-) stamp[OF 2(3)] b' PaPublish assms in \<open>auto simp: poll_inv_def poll_taken_def nth_append intro: exI[of _ nx]\<close>)
  qed
next
  case (PaOther op)
  then show ?thesis
  proof (cases "foreign_op (Some i) op \<and> foreign_op None op")
    case True
    then have op: "op \<noteq> OpClose i" "op_published t op = []" "op_received i op h = []" for h by (cases op; auto)+
    show ?thesis
      by (rule poll_inv_hub_op[OF assms op(1), of "br_store (pl_broker r)" "[]" _ "br_metrics (pl_broker r)"])
         (use True op PaOther assms in \<open>auto simp: poll_inv_def poll_taken_def\<close>)
  qed (use assms in \<open>auto simp: poll_inv_def\<close>)
next
  case (PaRecv j)
  show ?thesis
  proof (cases "pl_phase r \<noteq> PollDone \<and> j = i \<and> fmlookup (pl_held r) j = None")
    case True
    show ?thesis
    proof (cases "hub_recv i (br_hub (pl_broker r))")
      case (Some p)
      obtain e h where p: "p = (e, h)" by fastforce
      show ?thesis
        by (rule poll_inv_hub_op[OF assms, of "OpRecv i" "br_store (pl_broker r)" "[]" _ "br_metrics (pl_broker r)"])
           (use True Some p PaRecv assms in \<open>auto simp: poll_inv_def poll_taken_def\<close>)
    qed (use assms PaRecv True in simp)
  qed (use assms PaRecv in \<open>auto simp: poll_inv_def\<close>)
next
  case (PaMerge j)
  moreover have "fmlookup (pl_held r) j = Some e \<Longrightarrow> j = i" for e
    using assms by (auto simp: poll_inv_def dest: fmdom'I)
  ultimately show ?thesis
    using assms by (auto simp: poll_inv_def poll_taken_def split: option.splits)
next
  case PaTake
  then show ?thesis using assms by (auto simp: poll_inv_def poll_taken_def split: list.splits)
next
  case PaExpire
  then show ?thesis using assms by (simp add: poll_inv_def poll_taken_def)
qed

lemma poll_inv_run: "poll_inv t m i r \<Longrightarrow> poll_inv t m i (poll_run acts r)"
  unfolding poll_run_def by (induction acts arbitrary: r) (simp_all add: poll_inv_exec)

text \<open>What every schedule keeps of a broker with the memory store.\<close>

definition memory_ok :: "mem_store broker \<Rightarrow> bool" where
  "memory_ok b \<longleftrightarrow> br_ops b = mem_ops \<and> mem_inv (br_store b) \<and> hub_inv (br_hub b)"

lemma memory_ok_reachable: "broker_reachable (memory_broker reg ttl) b \<Longrightarrow> memory_ok b"
  using memory_broker_reachable memory_broker_hub by (auto simp: memory_ok_def)

lemma memory_ok_publish:
  assumes "memory_ok b"
  shows "memory_ok (snd (broker_publish now rid e source b))"
proof -
  have R: "br_ops b = mem_ops" "mem_inv (br_store b)" using assms by (simp_all add: memory_ok_def)
  show ?thesis
  proof (cases rule: publish_memory_cases[OF R, of now rid e source])
    case (2 y nx b')
    then show ?thesis
      using assms hub_exec_inv[of "br_hub b" "OpPublish (y\<lparr>ev_state := nx\<rparr>)"] by (simp add: memory_ok_def)
  qed (use assms in simp)
qed

lemma memory_ok_hub: "memory_ok b \<Longrightarrow> hub_inv h \<Longrightarrow> memory_ok (b\<lparr>br_hub := h\<rparr>)" "memory_ok b \<Longrightarrow> hub_inv (br_hub b)"
  by (simp_all add: memory_ok_def)

lemma memory_ok_exec: "memory_ok (pl_broker r) \<Longrightarrow> memory_ok (pl_broker (poll_exec a r))"
  by (cases a) (auto intro!: memory_ok_publish memory_ok_hub(1) hub_exec_inv intro: memory_ok_hub(2)
      dest: hub_inv_recv[OF memory_ok_hub(2)] split: option.splits list.splits)

lemma memory_ok_run: "memory_ok (pl_broker r) \<Longrightarrow> memory_ok (pl_broker (poll_run acts r))"
  unfolding poll_run_def by (induction acts arbitrary: r) (simp_all add: memory_ok_exec)

lemma poll_subscribe_ops: "poll_subscribe ts b = (x, b1) \<Longrightarrow> br_ops b1 = br_ops b"
proof (induction ts arbitrary: b x)
  case (Cons t ts)
  then show ?case
    using broker_subscribe_store(2)[of t Latest b] by (auto split: sum.splits prod.splits)
qed simp

lemma poll_subscribe_ok: "memory_ok b \<Longrightarrow> poll_subscribe ts b = ((err, is), b1) \<Longrightarrow> memory_ok b1"
  using poll_subscribe_hub[of b ts err "is" b1] poll_subscribe_ops[of ts b "(err, is)" b1] by (simp add: memory_ok_def)

text \<open>The single subscription of a long poll, as it starts.\<close>

lemma poll_inv_start:
  assumes "memory_ok b" "validate_topic t = None"
  obtains i b1 where "poll_subscribe [t] b = ((None, [i]), b1)" "memory_ok b1"
    "poll_inv t (length (mem_log (br_store b1) t)) i (poll_start [i] b1)"
proof -
  define i where "i = fst (hub_subscribe t (br_hub b))"
  obtain b1 where s: "broker_subscribe t Latest b = (Inr (i, [], 0), b1)"
      "br_hub b1 = snd (hub_subscribe t (br_hub b))"
    using assms(2)
    by (auto simp: broker_subscribe_def Let_def case_prod_unfold read_backfill_def Latest_def fence_of_def i_def)
  then have p: "poll_subscribe [t] b = ((None, [i]), b1)" by simp
  have m: "memory_ok b1" by (rule poll_subscribe_ok[OF assms(1) p])
  have "poll_inv t (length (mem_log (br_store b1) t)) i (poll_start [i] b1)"
    using m s(2)
    by (auto simp: poll_inv_def memory_ok_def poll_start_def poll_taken_def sub_view_def hub_simps i_def)
  with p m show ?thesis by (rule that)
qed

lemma max_seq_run: "map ev_seq es = [Suc m ..< Suc (m + length es)] \<Longrightarrow> es \<noteq> [] \<Longrightarrow> max_seq es = m + length es"
proof (induction es rule: rev_induct)
  case (snoc e es)
  then have "map ev_seq es = [Suc m ..< Suc (m + length es)]" "ev_seq e = m + length (es @ [e])" by simp_all
  then show ?case using snoc.IH by (cases "es = []") auto
qed simp

definition poll_lag :: "nat \<Rightarrow> 's poll_run \<Rightarrow> nat" where
  "poll_lag i r = (case fmlookup (hub_subs (br_hub (pl_broker r))) i of Some s \<Rightarrow> sub_lag s | None \<Rightarrow> 0)"

section \<open>Properties\<close>

text \<open>On the memory store a poll that finds events answers at once with, topic by topic, every event
  from the requested number on, and the greatest of their numbers; it opens no subscription and
  leaves the broker as it was.\<close>

lemma poll_immediate:
  assumes "broker_reachable (memory_broker reg ttl) b" "topics \<noteq> []"
    and "t \<in> set topics" "k = parse_uint from_q" "k \<le> length (mem_log (br_store b) t)" "mem_log (br_store b) t \<noteq> []"
  shows "\<exists>es. http_poll topics from_q wait_q before acts b = (HttpOk \<lparr>po_events = es, po_last_seq = max_seq es\<rparr>, b)
    \<and> es = concat (map (\<lambda>t. drop (k - 1) (mem_log (br_store b) t)) topics)
    \<and> (\<forall>e \<in> set es. ev_seq e \<le> max_seq es)"
proof -
  have R: "br_ops b = mem_ops" "mem_inv (br_store b)" using memory_broker_reachable[OF assms(1)] by auto
  have "k - 1 < length (mem_log (br_store b) t)" using assms(5,6) by (cases k) auto
  then have ne: "concat (map (\<lambda>t. drop (k - 1) (mem_log (br_store b) t)) topics) \<noteq> []" using assms(3) by fastforce
  then show ?thesis
    using poll_fetch_mem[OF R, of topics k] assms(2,4) max_seq_ge by (auto simp: http_poll_def simp del: concat_eq_Nil_conv)
qed

lemma poll_immediate_example:
  "\<exists>es. http_poll [''int/hits''] ''2'' ''500'' [] [] demo_broker =
      (HttpOk \<lparr>po_events = es, po_last_seq = max_seq es\<rparr>, demo_broker) \<and> length es = 1"
proof -
  have "parse_uint ''2'' = 2" by (simp add: parse_uint_def max_u64_def is_digit_def digit_val_def)
  then show ?thesis
    using poll_immediate[OF demo_broker_reachable _ _ refl, of "[''int/hits'']" "''int/hits''" "''2''" "''500''" "[]" "[]"]
      demo_broker_log by auto
qed


text \<open>A poll of an empty topic, an event of which is published while it waits.\<close>

definition poll_demo_acts :: "poll_act list" where
  "poll_demo_acts = [PaPublish 5 ''p'' (incr_event\<lparr>ev_topic := ''int/x''\<rparr>) ''ws'', PaRecv 1, PaMerge 1, PaTake, PaExpire]"

definition poll_demo_opened :: "mem_store broker" where
  "poll_demo_opened = snd (poll_subscribe [''int/x''] (memory_broker fmempty 0))"

lemma poll_demo_facts:
  "poll_fetch [''int/x''] (parse_uint ''1'') (memory_broker fmempty 0) = Inr []"
  "poll_wait ''500'' \<noteq> 0" "validate_topic ''int/x'' = None"
proof -
  show "poll_fetch [''int/x''] (parse_uint ''1'') (memory_broker fmempty 0) = Inr []"
    using poll_fetch_mem[of "memory_broker fmempty 0" "[''int/x'']"] memory_broker_reachable[OF broker_start, of fmempty 0]
    by (simp add: memory_broker_def broker_new_def mem_new_def mem_log_def del: poll_fetch.simps)
  show "poll_wait ''500'' \<noteq> 0"
    by (simp add: poll_wait_def atoi_def parse_uint_def max_u64_def is_digit_def digit_val_def)
qed code_simp

lemma poll_demo_sub:
  "poll_subscribe [''int/x''] (poll_others [] (memory_broker fmempty 0)) = ((None, [1]), poll_demo_opened)"
proof -
  have "poll_others [] (memory_broker fmempty 0) = memory_broker fmempty 0"
    by (simp add: poll_others_def poll_run_def poll_start_def)
  moreover have "fst (poll_subscribe [''int/x''] (memory_broker fmempty 0)) = (None, [1])" by code_simp
  ultimately show ?thesis by (simp add: poll_demo_opened_def prod_eq_iff del: poll_subscribe.simps)
qed


text \<open>What is published between the fetch and the subscription is not in the response, and polling
  from the cursor does not bring it back: here event 1 of two.\<close>

lemma poll_gap:
  "\<exists>p b. http_poll [''int/x''] ''1'' ''500'' [PaPublish 4 ''q'' (incr_event\<lparr>ev_topic := ''int/x''\<rparr>) ''ws'']
       poll_demo_acts (memory_broker fmempty 0) = (HttpOk p, b)
     \<and> map ev_seq (po_events p) = [2] \<and> po_last_seq p = 2 \<and> map ev_seq (mem_log (br_store b) ''int/x'') = [1, 2]"
proof -
  let ?b = "poll_others [PaPublish 4 ''q'' (incr_event\<lparr>ev_topic := ''int/x''\<rparr>) ''ws''] (memory_broker fmempty 0)"
  let ?r = "poll_run poll_demo_acts (poll_start [1] (snd (poll_subscribe [''int/x''] ?b)))"
  have "fst (poll_subscribe [''int/x''] ?b) = (None, [1])" by code_simp
  moreover have g: "map ev_seq (pl_got ?r) = [2]" by code_simp
  moreover have "map ev_seq (mem_log (br_store (pl_broker ?r)) ''int/x'') = [1, 2]" by code_simp
  moreover have "max_seq (pl_got ?r) = 2" using g by (auto simp: Cons_eq_map_conv)
  moreover have "br_store (poll_unsubscribe is c) = br_store c" for "is" and c :: "mem_store broker"
    unfolding poll_unsubscribe_def by (induction "is" arbitrary: c) simp_all
  ultimately show ?thesis
    using poll_demo_facts(1,2)
    by (cases "poll_subscribe [''int/x''] ?b") (simp add: http_poll_def Let_def del: poll_fetch.simps poll_subscribe.simps)
qed

text \<open>A poll leaves no subscription behind: whatever happens while it waits, those it opened are
  out of the registry when it answers, on the error path too.\<close>

lemma poll_releases:
  assumes "broker_reachable (memory_broker reg ttl) b"
    and "topics \<noteq> []" "poll_fetch topics (parse_uint from_q) b = Inr []" "poll_wait wait_q \<noteq> 0"
    and "poll_subscribe topics (poll_others before b) = ((err, is), b1)" "i \<in> set is"
    and "http_poll topics from_q wait_q before acts b = (resp, b')"
  shows "i \<notin> set (registered (br_hub b') t)"
proof -
  have "memory_ok (pl_broker (poll_start [] b))" using memory_ok_reachable[OF assms(1)] by (simp add: poll_start_def)
  then have "memory_ok (poll_others before b)" unfolding poll_others_def by (rule memory_ok_run)
  then have b1: "memory_ok b1" by (rule poll_subscribe_ok[OF _ assms(5)])
  then have "memory_ok (pl_broker (poll_run acts (poll_start is b1)))"
    by (intro memory_ok_run) (simp add: poll_start_def)
  with b1 have "hub_inv (br_hub b1)" "hub_inv (br_hub (pl_broker (poll_run acts (poll_start is b1))))"
    by (simp_all add: memory_ok_def)
  moreover have "b' = poll_unsubscribe is (if err = None then pl_broker (poll_run acts (poll_start is b1)) else b1)"
    using assms(2-5,7) by (auto simp: http_poll_def Let_def split: option.splits)
  ultimately show ?thesis using close_all_registered[OF _ assms(6)] by (simp add: poll_unsubscribe_hub)
qed

lemma poll_releases_example:
  "1 \<notin> set (registered (br_hub (snd (http_poll [''int/x''] ''1'' ''500'' [] poll_demo_acts
      (memory_broker fmempty 0)))) ''int/x'')"
proof -
  obtain resp b' where p: "http_poll [''int/x''] ''1'' ''500'' [] poll_demo_acts (memory_broker fmempty 0) = (resp, b')"
    by fastforce
  show ?thesis
    using poll_releases[OF broker_start _ poll_demo_facts(1,2) poll_demo_sub _ p, of 1] p by simp
qed

text \<open>The cursor a poll of several topics returns is one number for all of them, the greatest: from
  the next number on, new events of a topic that was behind are not returned.\<close>

lemma poll_cursor_skips:
  assumes "broker_reachable (memory_broker reg ttl) b"
    and "ev_topic e = t2" "t1 \<noteq> t2" "validate_topic t2 = None" "ev_type e \<noteq> []"
    and "length (mem_log (br_store b) t2) < length (mem_log (br_store b) t1)"
  shows "\<exists>es n b'. poll_fetch [t1, t2] 0 b = Inr es \<and> broker_publish now rid e source b = (Inr n, b')
    \<and> mem_log (br_store b') t2 = mem_log (br_store b) t2 @ [stamp_event now rid n e]
    \<and> poll_fetch [t1, t2] (Suc (max_seq es)) b' = Inr []"
proof -
  have R: "br_ops b = mem_ops" "mem_inv (br_store b)" using memory_broker_reachable[OF assms(1)] by auto
  define es where "es = mem_log (br_store b) t1 @ mem_log (br_store b) t2"
  have "max_seq es = max (length (mem_log (br_store b) t1)) (length (mem_log (br_store b) t2))"
    using mem_inv_log[OF R(2)] by (simp add: es_def max_seq_dense)
  then have k: "max_seq es = length (mem_log (br_store b) t1)" using assms(6) by simp
  have f: "poll_fetch [t1, t2] 0 b = Inr es" using poll_fetch_mem[OF R, of "[t1, t2]" 0] by (simp add: es_def)
  obtain n b' where p: "broker_publish now rid e source b = (Inr n, b')"
    "n = Suc (length (mem_log (br_store b) t2))"
    "mem_log (br_store b') = (mem_log (br_store b))(t2 := mem_log (br_store b) t2 @ [stamp_event now rid n e])"
    using broker_publish_ok[OF assms(1), of e now rid source] assms(2,4,5) by auto
  have r': "broker_reachable (memory_broker reg ttl) b'"
    using broker_reachable_publish[OF assms(1), of now rid e source] p(1) by simp
  have R': "br_ops b' = mem_ops" "mem_inv (br_store b')" using memory_broker_reachable[OF r'] by auto
  have "poll_fetch [t1, t2] (Suc (max_seq es)) b' = Inr []"
    using poll_fetch_mem[OF R', of "[t1, t2]" "Suc (max_seq es)"] p(3) k assms(3,6) by simp
  with f p show ?thesis by auto
qed

lemma poll_cursor_skips_example:
  "\<exists>es n b'. poll_fetch [''int/hits'', ''int/x''] 0 demo_broker = Inr es
    \<and> broker_publish 9 ''z'' (incr_event\<lparr>ev_topic := ''int/x''\<rparr>) ''publish'' demo_broker = (Inr n, b')
    \<and> poll_fetch [''int/hits'', ''int/x''] (Suc (max_seq es)) b' = Inr []"
proof -
  have v: "validate_topic ''int/x'' = None" by code_simp
  have "mem_log (br_store demo_broker) ''int/x'' = []" using demo_broker_other by simp
  then show ?thesis
    using poll_cursor_skips[OF demo_broker_reachable, of "incr_event\<lparr>ev_topic := ''int/x''\<rparr>" "''int/x''" "''int/hits''"
        9 "''z''" "''publish''"] v demo_broker_log
    by (auto simp: incr_event_def new_event_def)
qed

end
