(* ===== verification/Webhooks.thy ===== *)
theory Webhooks
  imports GithubPlugin HttpHandlers
begin

text \<open>
  The webhook endpoint: the plugin registry (\<open>internal/webhook/plugin.go\<close>) and the handler that
  verifies, translates and publishes (\<open>NewWebhookHandler\<close> in \<open>internal/transport/publish.go\<close>).
\<close>

record 'r plugin =
  pl_verify :: "'r \<Rightarrow> gerr option"
  pl_transform :: "'r \<Rightarrow> gerr + event list"

type_synonym 'r plugins = "(string, 'r plugin) fmap"

definition plugins_register :: "string \<Rightarrow> 'r plugin \<Rightarrow> 'r plugins \<Rightarrow> 'r plugins" where
  "plugins_register name p r = fmupd name p r"

definition plugins_get :: "'r plugins \<Rightarrow> string \<Rightarrow> 'r plugin option" where
  "plugins_get r name = fmlookup r name"

text \<open>The names in the order of the map's range, which Go does not fix; here sorted.\<close>

definition plugins_names :: "'r plugins \<Rightarrow> string list" where
  "plugins_names r = map fst (fm_items r)"

definition github_plugin :: "string \<Rightarrow> gh_request plugin" where
  "github_plugin secret = \<lparr>pl_verify = gh_verify secret, pl_transform = gh_transform\<rparr>"

text \<open>The publish loop: the first error stops it, after the events before it were published.\<close>

fun publish_all :: "time \<Rightarrow> (nat \<Rightarrow> string) \<Rightarrow> event list \<Rightarrow> 's broker \<Rightarrow> gerr option \<times> 's broker" where
  "publish_all now ids [] b = (None, b)"
| "publish_all now ids (e # es) b =
     (let e1 = (if is_zero_time (ev_at e) then e\<lparr>ev_at := now\<rparr> else e)
      in case broker_publish now (ids (length es)) e1 ''webhook'' b of
           (Inl err, b1) \<Rightarrow> (Some err, b1)
         | (Inr _, b1) \<Rightarrow> publish_all now ids es b1)"

definition http_webhook ::
    "time \<Rightarrow> (nat \<Rightarrow> string) \<Rightarrow> 'r plugins \<Rightarrow> string \<Rightarrow> string \<Rightarrow> 'r \<Rightarrow> 's broker \<Rightarrow> unit response \<times> 's broker" where
  "http_webhook now ids reg meth name r b =
     (if meth \<noteq> ''POST'' then (HttpError 405 ''method not allowed'', b)
      else (case plugins_get reg name of
              None \<Rightarrow> (HttpError 404 ''unknown plugin'', b)
            | Some p \<Rightarrow>
                (case pl_verify p r of
                   Some _ \<Rightarrow> (HttpError 401 ''signature invalid'', b)
                 | None \<Rightarrow>
                     (case pl_transform p r of
                        Inl err \<Rightarrow> (HttpError 400 (err_text err), b)
                      | Inr es \<Rightarrow>
                          (case publish_all now ids es b of
                             (Some err, b1) \<Rightarrow> (HttpError 400 (err_text err), b1)
                           | (None, b1) \<Rightarrow> (HttpOk (), b1))))))"

section \<open>What a delivery publishes\<close>

definition stamp_webhook :: "time \<Rightarrow> event \<Rightarrow> event" where
  "stamp_webhook now e = (if is_zero_time (ev_at e) then e\<lparr>ev_at := now\<rparr> else e)"

lemma stamp_webhook_simps [simp]:
  "ev_topic (stamp_webhook now e) = ev_topic e" "ev_type (stamp_webhook now e) = ev_type e"
  "ev_payload (stamp_webhook now e) = ev_payload e" "ev_actor (stamp_webhook now e) = ev_actor e"
  by (simp_all add: stamp_webhook_def)

text \<open>Valid events are all published, in order: each topic's log grows by its own events.\<close>

lemma publish_all_ok:
  assumes "broker_reachable (memory_broker reg ttl) b"
    and "\<forall>e \<in> set es. validate_topic (ev_topic e) = None \<and> ev_type e \<noteq> []"
  shows "\<exists>b'. publish_all now ids es b = (None, b') \<and> broker_reachable (memory_broker reg ttl) b'
    \<and> (\<forall>t. map ev_type (mem_log (br_store b') t) =
         map ev_type (mem_log (br_store b) t) @ map ev_type (filter (\<lambda>e. ev_topic e = t) es))
    \<and> (\<forall>t. map ev_payload (mem_log (br_store b') t) =
         map ev_payload (mem_log (br_store b) t) @ map ev_payload (filter (\<lambda>e. ev_topic e = t) es))"
  using assms
proof (induction es arbitrary: b)
  case (Cons e es)
  let ?e = "stamp_webhook now e"
  obtain n b1 where p: "broker_publish now (ids (length es)) ?e ''webhook'' b = (Inr n, b1)"
    "mem_log (br_store b1) = (mem_log (br_store b))(ev_topic e := mem_log (br_store b) (ev_topic e)
        @ [stamp_event now (ids (length es)) n ?e])"
    using broker_publish_ok[OF Cons.prems(1), of ?e now "ids (length es)" "''webhook''"] Cons.prems(2) by auto
  have r: "broker_reachable (memory_broker reg ttl) b1"
    using broker_reachable_publish[OF Cons.prems(1), of now "ids (length es)" ?e "''webhook''"] p(1) by simp
  obtain b' where b': "publish_all now ids es b1 = (None, b')" "broker_reachable (memory_broker reg ttl) b'"
    "\<forall>t. map ev_type (mem_log (br_store b') t) =
         map ev_type (mem_log (br_store b1) t) @ map ev_type (filter (\<lambda>e. ev_topic e = t) es)"
    "\<forall>t. map ev_payload (mem_log (br_store b') t) =
         map ev_payload (mem_log (br_store b1) t) @ map ev_payload (filter (\<lambda>e. ev_topic e = t) es)"
    using Cons.IH[OF r] Cons.prems(2) by auto
  have "publish_all now ids (e # es) b = (None, b')"
    using p(1) b'(1) by (simp add: stamp_webhook_def[symmetric] Let_def)
  with b' p(2) show ?case by auto
qed auto

section \<open>Properties\<close>

text \<open>With a secret configured a GitHub delivery whose signature is not the HMAC of its body
  is refused and publishes nothing.\<close>

lemma webhook_unsigned_refused:
  assumes "plugins_get reg ''github'' = Some (github_plugin secret)" "secret \<noteq> []"
    and "gh_signature r \<noteq> ''sha256='' @ hmac_sha256_hex secret (gh_body_bytes r)"
  shows "http_webhook now ids reg ''POST'' ''github'' r b = (HttpError 401 ''signature invalid'', b)"
proof -
  have "gh_verify secret r \<noteq> None"
    using assms(2,3) by (auto simp: gh_verify_def Let_def)
  then show ?thesis using assms(1) by (auto simp: http_webhook_def github_plugin_def)
qed

text \<open>C35: an accepted GitHub delivery for a repository whose owner and name are valid topic segments
  publishes exactly the events it is translated to, in order, each at the end of its topic's log.\<close>

theorem webhook_publishes:
  assumes "broker_reachable (memory_broker reg ttl) b"
    and "plugins_get plugins ''github'' = Some (github_plugin secret)" "gh_verify secret r = None"
    and "gh_transform r = Inr es" "dec_any_map (gh_body r) = Some o1" "repo_from (jget o1) = (owner, repo)"
    and "segment owner" "segment repo" "length owner + length repo \<le> 400"
  shows "\<exists>b'. http_webhook now ids plugins ''POST'' ''github'' r b = (HttpOk (), b')
    \<and> (\<forall>t. map ev_type (mem_log (br_store b') t) =
         map ev_type (mem_log (br_store b) t) @ map ev_type (filter (\<lambda>e. ev_topic e = t) es))
    \<and> (\<forall>t. map ev_payload (mem_log (br_store b') t) =
         map ev_payload (mem_log (br_store b) t) @ map ev_payload (filter (\<lambda>e. ev_topic e = t) es))"
proof -
  have wf: "gh_well_formed owner repo e" if "e \<in> set es" for e
    using assms(4-6) that
    by (auto simp: gh_transform_def Let_def intro: gh_pr_event_well_formed gh_other_well_formed split: if_splits)
  have ok: "validate_topic (ev_topic e) = None \<and> ev_type e \<noteq> []" if es: "e \<in> set es" for e
  proof -
    obtain num where t: "ev_topic e = topic_for owner repo num" "ev_type e \<in> gh_types"
      using wf[OF es] by (auto simp: gh_well_formed_def)
    have "length (topic_for owner repo num) \<le> 512"
      using assms(9) length_show_i64[of num] by (simp add: topic_for_def)
    then show ?thesis using topic_for_valid(1)[OF assms(7-9)] t by (auto simp: gh_types_def)
  qed
  obtain b' where "publish_all now ids es b = (None, b')"
    "\<forall>t. map ev_type (mem_log (br_store b') t) =
         map ev_type (mem_log (br_store b) t) @ map ev_type (filter (\<lambda>e. ev_topic e = t) es)"
    "\<forall>t. map ev_payload (mem_log (br_store b') t) =
         map ev_payload (mem_log (br_store b) t) @ map ev_payload (filter (\<lambda>e. ev_topic e = t) es)"
    using publish_all_ok[OF assms(1), of es now ids] ok by blast
  then show ?thesis using assms(2-4) by (simp add: http_webhook_def github_plugin_def)
qed

theorem webhook_publishes_witness:
  "\<exists>b'. http_webhook 5 (\<lambda>n. ''id'') (plugins_register ''github'' (github_plugin []) fmempty) ''POST'' ''github'' demo_push demo_broker
       = (HttpOk (), b')
     \<and> map ev_type (mem_log (br_store b') ''pr/octo/hello/7'') = [''pr_merged'']"
proof -
  obtain o1 where o1: "dec_any_map (gh_body demo_push) = Some o1" "gh_body demo_push = RJson (JObj o1)"
    using demo_push_body by blast
  note r = demo_push_repo[OF o1(2)]
  have t: "topic_for ''octo'' ''hello'' 7 = ''pr/octo/hello/7''"
    by (simp add: topic_for_def show_int_def show_nat.simps digit_char_def char_of_def bit_0)
  have v: "gh_verify [] demo_push = None" by (simp add: gh_verify_def)
  have p: "plugins_get (plugins_register ''github'' (github_plugin []) fmempty) ''github'' = Some (github_plugin [])"
    by (simp add: plugins_register_def plugins_get_def)
  obtain b' where "http_webhook 5 (\<lambda>n. ''id'') (plugins_register ''github'' (github_plugin []) fmempty) ''POST'' ''github''
       demo_push demo_broker = (HttpOk (), b')"
    "map ev_type (mem_log (br_store b') ''pr/octo/hello/7'') =
       map ev_type (mem_log (br_store demo_broker) ''pr/octo/hello/7'') @
       map ev_type (filter (\<lambda>e. ev_topic e = ''pr/octo/hello/7'') [gh_event (topic_for ''octo'' ''hello'' 7) ''pr_merged'' [] RNil])"
    using webhook_publishes[OF demo_broker_reachable p v demo_push_transform o1(1) r, of 5 "\<lambda>n. ''id''"]
    by (auto simp: segment_def topic_char_def)
  then show ?thesis using demo_broker_other[of "''pr/octo/hello/7''"] t by (auto simp: gh_event_def new_event_def)
qed

end
