(* ===== verification/AuthModel.thy ===== *)
theory AuthModel
  imports HttpHandlers
begin

text \<open>
  Authentication, \<open>internal/auth\<close>: the no-op and the bearer-token authenticator and the middleware
  that guards the handlers. A request is the \<open>Authorization\<close> header and the \<open>access_token\<close> query
  parameter. Main result: \<open>bearer_accepts\<close>, which requests a bearer token lets through, and
  \<open>middleware_guards\<close>, that nobody else reaches a guarded handler.
\<close>

record auth_request =
  aq_authorization :: string
  aq_access_token :: string

record principal =
  pn_id :: string
  pn_scopes :: "string list"

definition anonymous :: principal where
  "anonymous = \<lparr>pn_id = ''anonymous'', pn_scopes = []\<rparr>"

type_synonym authenticator = "auth_request \<Rightarrow> principal \<times> gerr option"

definition noop_authenticate :: authenticator where
  "noop_authenticate r = (anonymous, None)"

definition bearer_authenticate :: "string \<Rightarrow> authenticator" where
  "bearer_authenticate token r =
     (if token = [] then (anonymous, Some ErrUnauthenticated)
      else
        (let h = aq_authorization r;
             tok0 = (if h \<noteq> [] then (case cut_prefix h ''Bearer '' of Some v \<Rightarrow> v | None \<Rightarrow> []) else []);
             tok = (if tok0 = [] then aq_access_token r else tok0)
         in if tok = [] then (anonymous, Some ErrUnauthenticated)
            else if tok \<noteq> token then (anonymous, Some ErrUnauthenticated)
            else (\<lparr>pn_id = ''bearer'', pn_scopes = [''read'', ''write'']\<rparr>, None)))"

text \<open>The principal of a request's context, anonymous when the middleware put none there.\<close>

definition principal_from :: "principal option \<Rightarrow> principal" where
  "principal_from ctx = (case ctx of Some p \<Rightarrow> p | None \<Rightarrow> anonymous)"

text \<open>\<open>Middleware\<close>: the handler gets the request with its principal and may change the state \<open>'s\<close>.\<close>

definition middleware ::
    "authenticator \<Rightarrow> (principal option \<Rightarrow> 's \<Rightarrow> 'r response \<times> 's) \<Rightarrow> auth_request \<Rightarrow> 's \<Rightarrow> 'r response \<times> 's" where
  "middleware a handler r s =
     (case a r of
        (_, Some _) \<Rightarrow> (HttpError 401 ''unauthorized'', s)
      | (p, None) \<Rightarrow> handler (Some p) s)"

section \<open>Properties\<close>

lemma cut_prefix_Some: "cut_prefix s p = Some v \<longleftrightarrow> s = p @ v"
  by (auto simp: cut_prefix_def prefix_def)

text \<open>A bearer authenticator lets a request through exactly when a token is configured and the
  request carries it after \<open>Bearer\<close> in its \<open>Authorization\<close> header or, when that header holds no
  bearer token, as \<open>access_token\<close>.\<close>

lemma bearer_accepts:
  "snd (bearer_authenticate token r) = None \<longleftrightarrow>
     token \<noteq> [] \<and>
     (aq_authorization r = ''Bearer '' @ token
      \<or> (aq_access_token r = token \<and> (\<forall>v. aq_authorization r = ''Bearer '' @ v \<longrightarrow> v = [])))"
proof (cases "cut_prefix (aq_authorization r) ''Bearer ''")
  case None
  then have "aq_authorization r \<noteq> ''Bearer '' @ v" for v using cut_prefix_Some by (metis option.distinct(1))
  with None show ?thesis by (auto simp: bearer_authenticate_def Let_def)
next
  case (Some v)
  then have "aq_authorization r = ''Bearer '' @ v" by (simp add: cut_prefix_Some)
  with Some show ?thesis by (auto simp: bearer_authenticate_def Let_def)
qed

lemma bearer_accepts_example:
  "snd (bearer_authenticate ''s3cr3t'' \<lparr>aq_authorization = ''Bearer s3cr3t'', aq_access_token = []\<rparr>) = None"
  using bearer_accepts[of "''s3cr3t''" "\<lparr>aq_authorization = ''Bearer s3cr3t'', aq_access_token = []\<rparr>"] by simp

text \<open>Behind the middleware a request without the token gets 401 and the handler does not run, so
  the state is unchanged; with it the handler runs with the bearer's principal.\<close>

lemma middleware_guards:
  "middleware (bearer_authenticate token) handler r s =
     (if snd (bearer_authenticate token r) = None
      then handler (Some \<lparr>pn_id = ''bearer'', pn_scopes = [''read'', ''write'']\<rparr>) s
      else (HttpError 401 ''unauthorized'', s))"
  by (auto simp: middleware_def bearer_authenticate_def Let_def split: option.splits)

end
