(* ===== verification/ServerModel.thy ===== *)
theory ServerModel
  imports Webhooks AuthModel Archiver RedisStore ObjTypes Metrics
begin

text \<open>
  The composition of the server, \<open>internal/server\<close>: the configuration (\<open>config.go\<close>), the choice of
  store and authenticator, the routes and which of them the middleware guards (\<open>server.go\<close>), and the
  handler of the web UI (\<open>web/embed.go\<close>). A path is its decoded text; the redirects of \<open>http.ServeMux\<close> to a cleaned
  path are not modelled. Where a request is served, the handlers of a connection that stays open (\<open>/ws\<close>, \<open>/poll\<close>),
  of the Prometheus text and of the web UI are an argument.

  The main results: \<open>route_topic\<close> (an endpoint with a topic in its path gets exactly that topic) and
  \<open>server_guard\<close> (without the token nothing but a verified webhook delivery changes the broker).
\<close>

section \<open>Configuration\<close>

record server_config =
  cfg_addr :: string
  cfg_store :: string
  cfg_redis_addr :: string
  cfg_redis_password :: string
  cfg_redis_db :: int
  cfg_auth :: string
  cfg_auth_token :: string
  cfg_default_ttl :: i64
  cfg_archive_interval :: i64
  cfg_github_secret :: string

definition env_default :: "(string \<Rightarrow> string) \<Rightarrow> string \<Rightarrow> string \<Rightarrow> string" where
  "env_default env k d = (if env k \<noteq> [] then env k else d)"

text \<open>\<open>LoadConfig\<close> before the flags given on the command line override it.\<close>

definition config_defaults :: "(string \<Rightarrow> string) \<Rightarrow> server_config" where
  "config_defaults env = \<lparr>cfg_addr = env_default env ''EW_ADDR'' '':8080'',
     cfg_store = env_default env ''EW_STORE'' ''memory'',
     cfg_redis_addr = env_default env ''EW_REDIS_ADDR'' ''localhost:6379'',
     cfg_redis_password = env_default env ''EW_REDIS_PASSWORD'' [], cfg_redis_db = 0,
     cfg_auth = env_default env ''EW_AUTH'' [], cfg_auth_token = env_default env ''EW_AUTH_TOKEN'' [],
     cfg_default_ttl = hours 168, cfg_archive_interval = word_of_int (5 * 60 * 1000000000),
     cfg_github_secret = env_default env ''EW_GITHUB_SECRET'' []\<rparr>"

datatype store_kind = MemoryStore | RedisStore

text \<open>\<open>ping\<close> is the error of \<open>redisstore.New\<close>, if any. Of a formatted error only the fixed text is kept.\<close>

definition choose_store :: "server_config \<Rightarrow> gerr option \<Rightarrow> gerr + store_kind" where
  "choose_store cfg ping =
     (if cfg_store cfg = ''memory'' then Inr MemoryStore
      else if cfg_store cfg = ''redis'' then
        (case ping of Some err \<Rightarrow> Inl (ErrMsg (''redis store: '' @ err_text err)) | None \<Rightarrow> Inr RedisStore)
      else Inl (ErrMsg ''unknown store''))"

definition choose_auth :: "server_config \<Rightarrow> gerr + authenticator" where
  "choose_auth cfg =
     (if cfg_auth cfg = [] \<or> cfg_auth cfg = ''none'' then Inr noop_authenticate
      else if cfg_auth cfg = ''bearer'' then
        (if cfg_auth_token cfg = [] then Inl (ErrMsg ''--auth=bearer requires --auth-token'')
         else Inr (bearer_authenticate (cfg_auth_token cfg)))
      else Inl (ErrMsg ''unknown auth mode''))"

definition server_setup :: "server_config \<Rightarrow> gerr option \<Rightarrow> gerr + store_kind \<times> authenticator" where
  "server_setup cfg ping =
     (case choose_store cfg ping of
        Inl err \<Rightarrow> Inl err
      | Inr st \<Rightarrow> (case choose_auth cfg of Inl err \<Rightarrow> Inl err | Inr a \<Rightarrow> Inr (st, a)))"

text \<open>What \<open>Run\<close> builds on the chosen store: the broker on a new hub, and the webhook plugins.\<close>

definition server_broker :: "'s store_ops \<Rightarrow> 's \<Rightarrow> server_config \<Rightarrow> 's broker" where
  "server_broker ops s cfg = broker_new ops s hub_new standard_reducers (cfg_default_ttl cfg)"

definition server_plugins :: "server_config \<Rightarrow> gh_request plugins" where
  "server_plugins cfg = plugins_register ''github'' (github_plugin (cfg_github_secret cfg)) fmempty"

section \<open>Routes\<close>

datatype endpoint =
    EpWs | EpPublish | EpWebhook string | EpPoll | EpState string | EpEvents string | EpTopics
  | EpFieldSet string | EpFieldIncr string | EpFieldDecr string | EpFieldDelete string
  | EpFieldTimeNow string | EpFieldTimeAdd string | EpMetricsJson | EpMetrics | EpWeb
  | EpRedirect | EpNotAllowed

text \<open>The last part of a pattern: none, \<open>{name}\<close> for one segment, \<open>{name...}\<close> for all that follow.\<close>

datatype pattern =
    Exact string "string list" endpoint
  | OneOf string "string list" "string \<Rightarrow> endpoint"
  | RestOf string "string list" "string \<Rightarrow> endpoint"

definition server_routes :: "pattern list" where
  "server_routes =
     [Exact ''GET'' [''ws''] EpWs,
      Exact ''POST'' [''publish''] EpPublish,
      OneOf ''POST'' [''webhook''] EpWebhook,
      Exact ''GET'' [''poll''] EpPoll,
      RestOf ''GET'' [''state''] EpState,
      RestOf ''GET'' [''events''] EpEvents,
      Exact ''GET'' [''topics''] EpTopics,
      RestOf ''POST'' [''field'', ''set''] EpFieldSet,
      RestOf ''POST'' [''field'', ''incr''] EpFieldIncr,
      RestOf ''POST'' [''field'', ''decr''] EpFieldDecr,
      RestOf ''POST'' [''field'', ''delete''] EpFieldDelete,
      RestOf ''POST'' [''field'', ''time-now''] EpFieldTimeNow,
      RestOf ''POST'' [''field'', ''time-add''] EpFieldTimeAdd,
      Exact ''GET'' [''admin'', ''metrics.json''] EpMetricsJson,
      Exact ''GET'' [''metrics''] EpMetrics]"

text \<open>A pattern for \<open>GET\<close> takes \<open>HEAD\<close> as well.\<close>

definition method_matches :: "string \<Rightarrow> string \<Rightarrow> bool" where
  "method_matches pat meth \<longleftrightarrow> meth = pat \<or> (pat = ''GET'' \<and> meth = ''HEAD'')"

fun pattern_match :: "string \<Rightarrow> string list \<Rightarrow> pattern \<Rightarrow> endpoint option" where
  "pattern_match meth segs (Exact pm pre ep) = (if method_matches pm meth \<and> segs = pre then Some ep else None)"
| "pattern_match meth segs (OneOf pm pre ep) =
     (if method_matches pm meth \<and> segs \<noteq> [] \<and> butlast segs = pre \<and> last segs \<noteq> [] then Some (ep (last segs)) else None)"
| "pattern_match meth segs (RestOf pm pre ep) =
     (if method_matches pm meth \<and> take (length pre) segs = pre then
        (if length pre < length segs then Some (ep (join_segments (drop (length pre) segs))) else Some EpRedirect)
      else None)"

text \<open>
  No path matches two of the patterns but for \<open>GET /\<close>, which matches every path and is the least
  specific; a path that only it matches is not allowed with another method.
\<close>

definition path_segments :: "string \<Rightarrow> string list" where
  "path_segments path = split_on (CHR ''/'') (drop 1 path)"

definition server_route :: "string \<Rightarrow> string \<Rightarrow> endpoint" where
  "server_route meth path =
     (case List.map_filter (pattern_match meth (path_segments path)) server_routes of
        ep # _ \<Rightarrow> ep
      | [] \<Rightarrow> if method_matches ''GET'' meth then EpWeb else EpNotAllowed)"

text \<open>The routes wrapped in \<open>protect\<close>.\<close>

fun guarded :: "endpoint \<Rightarrow> bool" where
  "guarded (EpWebhook _) = False"
| "guarded EpMetricsJson = False"
| "guarded EpMetrics = False"
| "guarded EpWeb = False"
| "guarded EpRedirect = False"
| "guarded EpNotAllowed = False"
| "guarded _ = True"

text \<open>
  The web UI (\<open>web/embed.go\<close>): \<open>sub\<close> is \<open>fs.Sub\<close> of the embedded files, whose error is a panic (\<open>None\<close>), \<open>serve\<close> the file server
  of \<open>net/http\<close> on a directory. The pages are at the root, the static files under \<open>/static/\<close>.
\<close>

definition web_handler :: "(string \<Rightarrow> gerr + 'd) \<Rightarrow> ('d \<Rightarrow> string \<Rightarrow> 'r) \<Rightarrow> (string \<Rightarrow> 'r) option" where
  "web_handler sub serve =
     (case (sub ''static'', sub ''templates'') of
        (Inr static, Inr tmpl) \<Rightarrow>
          Some (\<lambda>path. if prefix ''/static/'' path then serve static (drop (length ''/static/'') path) else serve tmpl path)
      | _ \<Rightarrow> None)"

section \<open>Serving a request\<close>

text \<open>A request in its parsed parts; \<open>hq_hook\<close> is what the webhook plugins see of it.\<close>

record 'h http_request =
  hq_method :: string
  hq_path :: string
  hq_auth :: auth_request
  hq_query :: "string \<Rightarrow> string"
  hq_body :: raw
  hq_hook :: 'h

datatype http_result =
    ResPublish publish_resp | ResSeq nat | ResRaw raw | ResEvents "event list" | ResTopics "string list"
  | ResMetrics "int snapshot" | ResNone

text \<open>The dashboard's snapshot; \<open>gather\<close> is the Prometheus library's.\<close>

definition http_metrics :: "(metric_op list \<Rightarrow> gerr + int family list) \<Rightarrow> 's broker \<Rightarrow> int snapshot response" where
  "http_metrics gather b = HttpOk (metrics_read (gather (br_metrics b)))"

text \<open>\<open>others\<close>: the sessions, the polls, the Prometheus text format and the static content.\<close>

definition serve_endpoint ::
    "time \<Rightarrow> (nat \<Rightarrow> string) \<Rightarrow> 'h plugins \<Rightarrow> (metric_op list \<Rightarrow> gerr + int family list)
     \<Rightarrow> (endpoint \<Rightarrow> 'h http_request \<Rightarrow> 's broker \<Rightarrow> http_result response \<times> 's broker)
     \<Rightarrow> endpoint \<Rightarrow> 'h http_request \<Rightarrow> 's broker \<Rightarrow> http_result response \<times> 's broker" where
  "serve_endpoint now ids plugins gather others ep q b =
     (case ep of
        EpPublish \<Rightarrow> apfst (map_response ResPublish) (http_publish now (ids 0) (hq_method q) (hq_body q) b)
      | EpWebhook name \<Rightarrow> apfst (map_response (\<lambda>_. ResNone)) (http_webhook now ids plugins (hq_method q) name (hq_hook q) b)
      | EpState topic \<Rightarrow> (map_response ResRaw (http_state topic b), b)
      | EpEvents topic \<Rightarrow> (map_response ResEvents (http_events topic (hq_query q ''from'') (hq_query q ''limit'') b), b)
      | EpTopics \<Rightarrow> (map_response ResTopics (http_topics (hq_query q ''prefix'') (hq_query q ''limit'') b), b)
      | EpFieldSet topic \<Rightarrow> apfst (map_response ResSeq) (http_field_set now (ids 0) topic (hq_body q) b)
      | EpFieldIncr topic \<Rightarrow> apfst (map_response ResSeq) (http_field_incr now (ids 0) topic (hq_body q) b)
      | EpFieldDecr topic \<Rightarrow> apfst (map_response ResSeq) (http_field_decr now (ids 0) topic (hq_body q) b)
      | EpFieldDelete topic \<Rightarrow> apfst (map_response ResSeq) (http_field_delete now (ids 0) topic b)
      | EpFieldTimeNow topic \<Rightarrow> apfst (map_response ResSeq) (http_field_time_now now (ids 0) topic b)
      | EpFieldTimeAdd topic \<Rightarrow> apfst (map_response ResSeq) (http_field_time_add now (ids 0) topic (hq_body q) b)
      | EpMetricsJson \<Rightarrow> (map_response ResMetrics (http_metrics gather b), b)
      | EpRedirect \<Rightarrow> (HttpError 301 [], b)
      | EpNotAllowed \<Rightarrow> (HttpError 405 ''Method Not Allowed'', b)
      | _ \<Rightarrow> others ep q b)"

definition server_serve ::
    "authenticator \<Rightarrow> time \<Rightarrow> (nat \<Rightarrow> string) \<Rightarrow> 'h plugins \<Rightarrow> (metric_op list \<Rightarrow> gerr + int family list)
     \<Rightarrow> (endpoint \<Rightarrow> 'h http_request \<Rightarrow> 's broker \<Rightarrow> http_result response \<times> 's broker)
     \<Rightarrow> 'h http_request \<Rightarrow> 's broker \<Rightarrow> http_result response \<times> 's broker" where
  "server_serve a now ids plugins gather others q b =
     (let ep = server_route (hq_method q) (hq_path q)
      in if guarded ep then middleware a (\<lambda>_. serve_endpoint now ids plugins gather others ep q) (hq_auth q) b
         else serve_endpoint now ids plugins gather others ep q b)"

section \<open>Paths\<close>

lemma path_segments_append: "CHR ''/'' \<notin> set p \<Longrightarrow> path_segments (CHR ''/'' # p @ CHR ''/'' # t) = p # split_on (CHR ''/'') t"
  by (simp add: path_segments_def split_on_append)

lemma path_one: "path_segments (''/state/'' @ t) = ''state'' # split_on (CHR ''/'') t"
  "path_segments (''/events/'' @ t) = ''events'' # split_on (CHR ''/'') t"
  "path_segments (''/field/'' @ t) = ''field'' # split_on (CHR ''/'') t"
  using path_segments_append[of "''state''" t] path_segments_append[of "''events''" t] path_segments_append[of "''field''" t]
  by simp_all

lemma path_field:
  "path_segments (''/field/set/'' @ t) = ''field'' # ''set'' # split_on (CHR ''/'') t"
  "path_segments (''/field/incr/'' @ t) = ''field'' # ''incr'' # split_on (CHR ''/'') t"
  "path_segments (''/field/decr/'' @ t) = ''field'' # ''decr'' # split_on (CHR ''/'') t"
  "path_segments (''/field/delete/'' @ t) = ''field'' # ''delete'' # split_on (CHR ''/'') t"
  "path_segments (''/field/time-now/'' @ t) = ''field'' # ''time-now'' # split_on (CHR ''/'') t"
  "path_segments (''/field/time-add/'' @ t) = ''field'' # ''time-add'' # split_on (CHR ''/'') t"
  by (simp_all add: path_segments_def)

section \<open>Properties\<close>

text \<open>An endpoint with a topic in its path is reached for exactly that topic, slashes and all, and
  by its method: nothing of the path is lost or added.\<close>

lemma route_topic:
  "server_route ''GET'' (''/state/'' @ t) = EpState t
   \<and> server_route ''GET'' (''/events/'' @ t) = EpEvents t
   \<and> server_route ''POST'' (''/field/set/'' @ t) = EpFieldSet t
   \<and> server_route ''POST'' (''/field/incr/'' @ t) = EpFieldIncr t
   \<and> server_route ''POST'' (''/field/decr/'' @ t) = EpFieldDecr t
   \<and> server_route ''POST'' (''/field/delete/'' @ t) = EpFieldDelete t
   \<and> server_route ''POST'' (''/field/time-now/'' @ t) = EpFieldTimeNow t
   \<and> server_route ''POST'' (''/field/time-add/'' @ t) = EpFieldTimeAdd t
   \<and> server_route ''GET'' (''/field/set/'' @ t) = EpWeb"
  by (simp add: server_route_def path_one path_field del: append.simps append_Cons)
    (simp add: server_routes_def List.map_filter_def method_matches_def join_split)

lemma webhook_refused:
  "(\<forall>p. plugins_get plugins name = Some p \<longrightarrow> pl_verify p r \<noteq> None) \<Longrightarrow> snd (http_webhook now ids plugins meth name r b) = b"
  by (auto simp: http_webhook_def split: option.splits)

lemma server_plugins_get:
  "plugins_get (server_plugins cfg) name = (if name = ''github'' then Some (github_plugin (cfg_github_secret cfg)) else None)"
  by (simp add: server_plugins_def plugins_get_def plugins_register_def)

text \<open>C23: when the server is set up for bearer tokens, a request that carries the token neither in its
  \<open>Authorization\<close> header nor as \<open>access_token\<close> gets 401 from every guarded route, and nothing but a
  GitHub delivery whose signature verifies under the configured secret changes the broker.\<close>

theorem server_guard:
  assumes "server_setup cfg ping = Inr (st, a)" "cfg_auth cfg = ''bearer''"
    and "aq_authorization (hq_auth q) \<noteq> ''Bearer '' @ cfg_auth_token cfg" "aq_access_token (hq_auth q) \<noteq> cfg_auth_token cfg"
    and "\<forall>ep. \<not> guarded ep \<longrightarrow> snd (others ep q b) = b"
  shows "if guarded (server_route (hq_method q) (hq_path q))
    then server_serve a now ids (server_plugins cfg) gather others q b = (HttpError 401 ''unauthorized'', b)
    else snd (server_serve a now ids (server_plugins cfg) gather others q b) = b
      \<or> (server_route (hq_method q) (hq_path q) = EpWebhook ''github''
          \<and> gh_verify (cfg_github_secret cfg) (hq_hook q) = None)"
proof -
  let ?ep = "server_route (hq_method q) (hq_path q)"
  let ?serve = "serve_endpoint now ids (server_plugins cfg) gather others"
  have a: "a = bearer_authenticate (cfg_auth_token cfg)"
    using assms(1,2) by (auto simp: server_setup_def choose_auth_def split: sum.splits if_splits)
  have "snd (a (hq_auth q)) \<noteq> None"
    using assms(3,4) unfolding a
    by (auto simp: bearer_authenticate_def Let_def cut_prefix_Some split: option.splits if_splits)
  then have "middleware a h (hq_auth q) b = (HttpError 401 ''unauthorized'', b)" for h :: "principal option \<Rightarrow> _ \<Rightarrow> http_result response \<times> _"
    unfolding a by (auto simp: middleware_guards)
  moreover have "snd (?serve ?ep q b) = b \<or> (\<exists>name p. ?ep = EpWebhook name
      \<and> plugins_get (server_plugins cfg) name = Some p \<and> pl_verify p (hq_hook q) = None)" if "\<not> guarded ?ep"
    using that assms(5) webhook_refused[of "server_plugins cfg" _ "hq_hook q" now ids "hq_method q" b]
    by (cases ?ep) (fastforce simp: serve_endpoint_def apfst_def map_prod_def split: prod.splits)+
  ultimately show ?thesis
    by (auto simp: server_serve_def Let_def server_plugins_get github_plugin_def split: if_splits)
qed

definition locked_config :: server_config where
  "locked_config = (config_defaults (\<lambda>k. []))\<lparr>cfg_auth := ''bearer'', cfg_auth_token := ''s3cr3t''\<rparr>"

definition guess_request :: "gh_request http_request" where
  "guess_request = \<lparr>hq_method = ''POST'', hq_path = ''/publish'', hq_auth = \<lparr>aq_authorization = ''Bearer guess'', aq_access_token = []\<rparr>,
     hq_query = \<lambda>k. [], hq_body = RNil, hq_hook = demo_push\<rparr>"

theorem server_guard_witness:
  "server_serve (bearer_authenticate ''s3cr3t'') 9 (\<lambda>n. ''id'') (server_plugins locked_config) ref_gather (\<lambda>ep q b. (HttpOk ResNone, b))
     guess_request demo_broker
   = (HttpError 401 ''unauthorized'', demo_broker)"
proof -
  have "server_setup locked_config None = Inr (MemoryStore, bearer_authenticate ''s3cr3t'')"
    by (simp add: server_setup_def choose_store_def choose_auth_def locked_config_def config_defaults_def env_default_def)
  moreover have "cfg_auth locked_config = ''bearer''" "cfg_auth_token locked_config = ''s3cr3t''"
    by (simp_all add: locked_config_def)
  moreover have "server_route ''POST'' ''/publish'' = EpPublish" by code_simp
  ultimately show ?thesis
    using server_guard[of locked_config None MemoryStore "bearer_authenticate ''s3cr3t''" guess_request
        "\<lambda>ep q b. (HttpOk ResNone, b)" demo_broker 9 "\<lambda>n. ''id''"]
    by (simp add: guess_request_def)
qed

end
