(* ===== verification/GoFlags.thy ===== *)
theory GoFlags
  imports GoPrelude
begin

text \<open>
  What the programs use of the \<open>flag\<close> package: the command line against a set of declared flags. The texts of
  numbers and durations are read by arguments: \<open>ints\<close> is \<open>strconv.ParseInt\<close> to the base the text shows, \<open>durations\<close>
  is \<open>time.ParseDuration\<close>.
\<close>

datatype flag_value = FvString string | FvInt int | FvDuration i64

type_synonym flag_reader = "string \<Rightarrow> (string \<Rightarrow> flag_value option) option"

text \<open>The reader of a flag goes by the type of its default.\<close>

definition typed_reader ::
    "(string \<Rightarrow> int option) \<Rightarrow> (string \<Rightarrow> i64 option) \<Rightarrow> (string \<Rightarrow> flag_value option) \<Rightarrow> flag_reader" where
  "typed_reader ints durations defaults name =
     map_option (\<lambda>d v. case d of FvString _ \<Rightarrow> Some (FvString v) | FvInt _ \<Rightarrow> map_option FvInt (ints v)
       | FvDuration _ \<Rightarrow> map_option FvDuration (durations v)) (defaults name)"

text \<open>A flag is \<open>-name\<close> or \<open>--name\<close>, with \<open>=value\<close> or the next argument as its value; the first argument that is
  not a flag, or \<open>--\<close>, ends them. Of an error only the fixed text is kept.\<close>

definition strip_dashes :: "string \<Rightarrow> string" where
  "strip_dashes s = (if take 2 s = ''--'' then drop 2 s else drop 1 s)"

definition flag_name :: "string \<Rightarrow> string" where
  "flag_name s = takeWhile (\<lambda>c. c \<noteq> CHR ''='') s"

definition help_requested :: gerr where
  "help_requested = ErrMsg ''flag: help requested''"

fun parse_flags :: "flag_reader \<Rightarrow> (string \<Rightarrow> flag_value \<Rightarrow> 'c \<Rightarrow> 'c) \<Rightarrow> string list \<Rightarrow> 'c \<Rightarrow> gerr + 'c" where
  "parse_flags reader set_flag [] c = Inr c"
| "parse_flags reader set_flag (s # args) c =
     (let body = strip_dashes s; name = flag_name body
      in if length s < 2 \<or> hd s \<noteq> CHR ''-'' \<or> s = ''--'' then Inr c
         else if body = [] \<or> hd body = CHR ''-'' \<or> hd body = CHR ''='' then Inl (ErrMsg ''bad flag syntax'')
         else (case reader name of
           None \<Rightarrow> Inl (if name \<in> {''help'', ''h''} then help_requested else ErrMsg ''flag provided but not defined'')
         | Some rd \<Rightarrow>
             if CHR ''='' \<in> set body then
               (case rd (drop (length name + 1) body) of
                  None \<Rightarrow> Inl (ErrMsg ''invalid value'')
                | Some v \<Rightarrow> parse_flags reader set_flag args (set_flag name v c))
             else
               (case args of
                  [] \<Rightarrow> Inl (ErrMsg ''flag needs an argument'')
                | a # args' \<Rightarrow>
                    (case rd a of
                       None \<Rightarrow> Inl (ErrMsg ''invalid value'')
                     | Some v \<Rightarrow> parse_flags reader set_flag args' (set_flag name v c)))))"

text \<open>A flag that is given overrides what was there; the last one given counts.\<close>

lemma parse_flag_next:
  assumes "reader name = Some rd" "rd v = Some x" "name \<noteq> []" "hd name \<noteq> CHR ''-''" "CHR ''='' \<notin> set name"
  shows "parse_flags reader set_flag ((CHR ''-'' # CHR ''-'' # name) # v # args) c = parse_flags reader set_flag args (set_flag name x c)"
    "parse_flags reader set_flag ((CHR ''-'' # name @ CHR ''='' # v) # args) c = parse_flags reader set_flag args (set_flag name x c)"
proof -
  have "takeWhile (\<lambda>c. c \<noteq> CHR ''='') (name @ CHR ''='' # v) = name"
    using assms(5) by (subst takeWhile_append2) auto
  then have n: "flag_name name = name" "flag_name (name @ CHR ''='' # v) = name"
    using assms(5) by (auto simp: flag_name_def takeWhile_eq_all_conv)
  have h: "hd name \<noteq> CHR ''=''" using assms(3,5) hd_in_set by metis
  have s: "strip_dashes (CHR ''-'' # name @ CHR ''='' # v) = name @ CHR ''='' # v"
    using assms(3,4) by (cases name) (auto simp: strip_dashes_def)
  show "parse_flags reader set_flag ((CHR ''-'' # CHR ''-'' # name) # v # args) c = parse_flags reader set_flag args (set_flag name x c)"
    using assms n(1) h by (simp add: strip_dashes_def Let_def)
  show "parse_flags reader set_flag ((CHR ''-'' # name @ CHR ''='' # v) # args) c = parse_flags reader set_flag args (set_flag name x c)"
    using assms n(2) h s by (cases name) (auto simp: Let_def)
qed

end
