(* ===== verification/ServerRun.thy ===== *)
theory ServerRun
  imports Dashboard GoFlags
begin

text \<open>
  The life of the server, \<open>server.Run\<close> (\<open>internal/server/server.go\<close>): the configuration with the command line's
  flags (\<open>config.go\<close>), the start, and the goroutines \<open>Run\<close> starts and waits for, as steps: the main one with its
  \<open>select\<close>, its shutdown and its deferred calls, the HTTP server's, the archiver's with each call of its sweep a step
  (\<open>archiver.go\<close>), and the loop of the topic gauge. The handlers that run beside them are any functions on the
  broker. The main results: \<open>server_lifecycle\<close> (the store is closed when \<open>Run\<close> returns, once, and not before) and
  \<open>server_stops\<close> (after a signal every goroutine can end, and nothing stops it); \<open>archiver_sweeps\<close> ties the archiver's
  steps to \<open>sweep\<close>, and \<open>sweep_race_loses_event\<close> shows what another goroutine can do between them.
\<close>

section \<open>The command line\<close>

fun set_flag :: "string \<Rightarrow> flag_value \<Rightarrow> server_config \<Rightarrow> server_config" where
  "set_flag name (FvString v) c =
     (if name = ''addr'' then c\<lparr>cfg_addr := v\<rparr>
      else if name = ''store'' then c\<lparr>cfg_store := v\<rparr>
      else if name = ''redis-addr'' then c\<lparr>cfg_redis_addr := v\<rparr>
      else if name = ''redis-password'' then c\<lparr>cfg_redis_password := v\<rparr>
      else if name = ''auth'' then c\<lparr>cfg_auth := v\<rparr>
      else if name = ''auth-token'' then c\<lparr>cfg_auth_token := v\<rparr>
      else if name = ''github-secret'' then c\<lparr>cfg_github_secret := v\<rparr>
      else c)"
| "set_flag name (FvInt v) c = (if name = ''redis-db'' then c\<lparr>cfg_redis_db := v\<rparr> else c)"
| "set_flag name (FvDuration v) c =
     (if name = ''default-ttl'' then c\<lparr>cfg_default_ttl := v\<rparr>
      else if name = ''archive-interval'' then c\<lparr>cfg_archive_interval := v\<rparr>
      else c)"

text \<open>The flags that are declared, each with how its text is read.\<close>

definition server_flags :: "(string \<Rightarrow> int option) \<Rightarrow> (string \<Rightarrow> i64 option) \<Rightarrow> flag_reader" where
  "server_flags ints durations name =
     (if name \<in> {''addr'', ''store'', ''redis-addr'', ''redis-password'', ''auth'', ''auth-token'', ''github-secret''}
      then Some (\<lambda>v. Some (FvString v))
      else if name = ''redis-db'' then Some (\<lambda>v. map_option FvInt (ints v))
      else if name \<in> {''default-ttl'', ''archive-interval''} then Some (\<lambda>v. map_option FvDuration (durations v))
      else None)"

definition load_config ::
    "(string \<Rightarrow> int option) \<Rightarrow> (string \<Rightarrow> i64 option) \<Rightarrow> (string \<Rightarrow> string) \<Rightarrow> string list \<Rightarrow> gerr + server_config" where
  "load_config ints durations env args = parse_flags (server_flags ints durations) set_flag args (config_defaults env)"

text \<open>Flags take precedence over the environment, and the environment over the defaults.\<close>

lemma config_precedence:
  "load_config ints durations env [] = Inr (config_defaults env)"
  "load_config ints durations env [''--store'', v] = Inr ((config_defaults env)\<lparr>cfg_store := v\<rparr>)"
  "load_config ints durations env [''-auth-token='' @ v] = Inr ((config_defaults env)\<lparr>cfg_auth_token := v\<rparr>)"
  "load_config ints durations env [''--storage'', v] = Inl (ErrMsg ''flag provided but not defined'')"
  by (simp_all add: load_config_def Let_def strip_dashes_def flag_name_def server_flags_def)

section \<open>State\<close>

text \<open>\<open>redisstore.New\<close>: \<open>client\<close> is \<open>redis.NewClient\<close>, \<open>ping\<close> its \<open>Ping\<close>. A client that does not answer is closed.\<close>

record redis_options =
  ro_addr :: string
  ro_password :: string
  ro_db :: int

definition redis_new :: "(redis_options \<Rightarrow> 'c) \<Rightarrow> ('c \<Rightarrow> gerr option) \<Rightarrow> redis_options \<Rightarrow> gerr + 'c" where
  "redis_new client ping opt = (let c = client opt in case ping c of Some err \<Rightarrow> Inl err | None \<Rightarrow> Inr c)"

definition redis_options_of :: "server_config \<Rightarrow> redis_options" where
  "redis_options_of cfg = \<lparr>ro_addr = cfg_redis_addr cfg, ro_password = cfg_redis_password cfg, ro_db = cfg_redis_db cfg\<rparr>"

text \<open>Where the goroutines are: the main one in its \<open>select\<close>, in \<open>Shutdown\<close> or returned; the archiver waiting for
  its ticker, before the next topic of a sweep, before a \<open>DeleteTopic\<close>, or returned.\<close>

datatype main_pc = MpSelect | MpShutdown | MpReturned "gerr option"

datatype arch_pc = ArWait | ArTopics time "string list" | ArDelete string time "string list" | ArGone

record 's server_run =
  sr_broker :: "'s broker"
  sr_archiver :: archiver
  sr_auth :: authenticator
  sr_done :: bool
  sr_main :: main_pc
  sr_http :: bool
  sr_err :: "gerr option"
  sr_arch :: arch_pc
  sr_arch_cancelled :: bool
  sr_gauge :: bool
  sr_closes :: nat

text \<open>\<open>Run\<close> up to its \<open>select\<close>, on the chosen store. An error comes with how often the store has been closed: an
  unknown authentication mode is found when the store is open already. \<open>http.ErrServerClosed\<close> is the error
  \<open>server_closed\<close>.\<close>

definition server_closed :: gerr where
  "server_closed = ErrMsg ''http: Server closed''"

definition server_start ::
    "(store_kind \<Rightarrow> 's store_ops \<times> 's) \<Rightarrow> gerr option \<Rightarrow> server_config \<Rightarrow> (gerr \<times> nat) + 's server_run" where
  "server_start store ping cfg =
     (case choose_store cfg ping of
        Inl err \<Rightarrow> Inl (err, 0)
      | Inr st \<Rightarrow>
          (case choose_auth cfg of
             Inl err \<Rightarrow> Inl (err, 1)
           | Inr a \<Rightarrow>
               Inr \<lparr>sr_broker = (let (ops, s) = store st in server_broker ops s cfg),
                    sr_archiver = archiver_new (cfg_archive_interval cfg), sr_auth = a, sr_done = False, sr_main = MpSelect,
                    sr_http = True, sr_err = None, sr_arch = ArWait, sr_arch_cancelled = False, sr_gauge = True, sr_closes = 0\<rparr>))"

section \<open>Steps\<close>

datatype 's server_act =
    SaSignal
  | SaServe "'s broker \<Rightarrow> 's broker"
  | SaHttpFails gerr
  | SaHttpClosed
  | SaMainDone
  | SaMainErr
  | SaShutdownEnds
  | SaArchTick time
  | SaArchMeta
  | SaArchDelete
  | SaArchStop
  | SaGaugeTick
  | SaGaugeStop

text \<open>The deferred calls: the archiver's context is cancelled, then the store is closed.\<close>

definition run_returns :: "gerr option \<Rightarrow> 's server_run \<Rightarrow> 's server_run" where
  "run_returns err s = s\<lparr>sr_main := MpReturned err, sr_arch_cancelled := True, sr_closes := sr_closes s + 1\<rparr>"

definition set_store :: "'s \<Rightarrow> 's server_run \<Rightarrow> 's server_run" where
  "set_store st s = s\<lparr>sr_broker := (sr_broker s)\<lparr>br_store := st\<rparr>\<rparr>"

text \<open>\<open>SaServe\<close> is a handler at work, or a session or a poll: \<open>Shutdown\<close> waits at most five seconds for handlers and not
  at all for sessions, so they may be at work to the end. \<open>SaHttpFails\<close> is \<open>ListenAndServe\<close> failing by itself,
  \<open>SaHttpClosed\<close> its return once \<open>Shutdown\<close> has been called.\<close>

fun server_exec :: "'s server_act \<Rightarrow> 's server_run \<Rightarrow> 's server_run option" where
  "server_exec SaSignal s = Some (s\<lparr>sr_done := True\<rparr>)"
| "server_exec (SaServe f) s = Some (s\<lparr>sr_broker := f (sr_broker s)\<rparr>)"
| "server_exec (SaHttpFails err) s =
     (if sr_http s \<and> err \<noteq> server_closed then Some (s\<lparr>sr_http := False, sr_err := Some err\<rparr>) else None)"
| "server_exec SaHttpClosed s =
     (if sr_http s \<and> sr_main s \<noteq> MpSelect then Some (s\<lparr>sr_http := False, sr_err := Some server_closed\<rparr>) else None)"
| "server_exec SaMainDone s = (if sr_main s = MpSelect \<and> sr_done s then Some (s\<lparr>sr_main := MpShutdown\<rparr>) else None)"
| "server_exec SaMainErr s =
     (case sr_err s of
        None \<Rightarrow> None
      | Some err \<Rightarrow>
          if sr_main s = MpSelect then Some (run_returns (if err = server_closed then None else Some err) (s\<lparr>sr_err := None\<rparr>))
          else None)"
| "server_exec SaShutdownEnds s = (if sr_main s = MpShutdown then Some (run_returns None s) else None)"
| "server_exec (SaArchTick now) s =
     (if sr_arch s = ArWait \<and> 0 < sint (ar_interval (sr_archiver s)) then
        (case so_list_topics (br_ops (sr_broker s)) [] 0 (br_store (sr_broker s)) of
           Inl _ \<Rightarrow> Some s
         | Inr ts \<Rightarrow> Some (s\<lparr>sr_arch := ArTopics now ts\<rparr>))
      else None)"
| "server_exec SaArchMeta s =
     (case sr_arch s of
        ArTopics now (t # ts) \<Rightarrow>
          (case so_get_meta (br_ops (sr_broker s)) t (br_store (sr_broker s)) of
             Inl _ \<Rightarrow> Some (s\<lparr>sr_arch := ArTopics now ts\<rparr>)
           | Inr meta \<Rightarrow> Some (s\<lparr>sr_arch := (if ttl_passed (sr_archiver s) now meta then ArDelete t now ts else ArTopics now ts)\<rparr>))
      | ArTopics now [] \<Rightarrow> Some (s\<lparr>sr_arch := ArWait\<rparr>)
      | _ \<Rightarrow> None)"
| "server_exec SaArchDelete s =
     (case sr_arch s of
        ArDelete t now ts \<Rightarrow>
          Some (set_store (snd (so_delete_topic (br_ops (sr_broker s)) t (br_store (sr_broker s)))) (s\<lparr>sr_arch := ArTopics now ts\<rparr>))
      | _ \<Rightarrow> None)"
| "server_exec SaArchStop s =
     (if sr_arch s = ArWait \<and> (sr_done s \<or> sr_arch_cancelled s \<or> sint (ar_interval (sr_archiver s)) \<le> 0)
      then Some (s\<lparr>sr_arch := ArGone\<rparr>) else None)"
| "server_exec SaGaugeTick s =
     (if sr_gauge s then
        Some (case topic_gauge_tick (br_ops (sr_broker s)) (br_store (sr_broker s)) of
          None \<Rightarrow> s
        | Some n \<Rightarrow> s\<lparr>sr_broker := add_metrics [SetTopics n] (sr_broker s)\<rparr>)
      else None)"
| "server_exec SaGaugeStop s = (if sr_gauge s \<and> sr_done s then Some (s\<lparr>sr_gauge := False\<rparr>) else None)"

fun server_exec_all :: "'s server_act list \<Rightarrow> 's server_run \<Rightarrow> 's server_run option" where
  "server_exec_all [] s = Some s"
| "server_exec_all (a # as) s = (case server_exec a s of None \<Rightarrow> None | Some s1 \<Rightarrow> server_exec_all as s1)"

lemma server_exec_all_append:
  "server_exec_all (as @ bs) s = (case server_exec_all as s of None \<Rightarrow> None | Some s1 \<Rightarrow> server_exec_all bs s1)"
  by (induction as arbitrary: s) (simp_all split: option.split)

section \<open>The life of a run\<close>

text \<open>\<open>E\<close>: the errors the HTTP server can fail with.\<close>

definition run_inv :: "gerr set \<Rightarrow> 's server_run \<Rightarrow> bool" where
  "run_inv E s \<longleftrightarrow>
     sr_closes s = (case sr_main s of MpReturned _ \<Rightarrow> 1 | _ \<Rightarrow> 0)
     \<and> (sr_http s \<longrightarrow> sr_err s = None)
     \<and> (\<forall>e. sr_err s = Some e \<longrightarrow> (if e = server_closed then sr_main s \<noteq> MpSelect else e \<in> E))
     \<and> (\<forall>e. sr_main s = MpReturned (Some e) \<longrightarrow> e \<in> E \<and> e \<noteq> server_closed \<and> \<not> sr_http s)
     \<and> (sr_main s = MpReturned None \<or> sr_main s = MpShutdown \<longrightarrow> sr_done s)
     \<and> (\<forall>r. sr_main s = MpReturned r \<longrightarrow> sr_arch_cancelled s)
     \<and> (\<not> sr_gauge s \<longrightarrow> sr_done s)"

text \<open>What is left of a sweep, and then of the archiver.\<close>

definition arch_work :: "arch_pc \<Rightarrow> nat" where
  "arch_work pc = (case pc of ArGone \<Rightarrow> 0 | ArWait \<Rightarrow> 1 | ArTopics now ts \<Rightarrow> 2 + 2 * length ts | ArDelete t now ts \<Rightarrow> 3 + 2 * length ts)"

text \<open>A step of the archiver or of the gauge's ticker leaves the rest alone.\<close>

lemma arch_meta_cases:
  assumes "server_exec SaArchMeta s = Some s'"
  obtains pc where "s' = s\<lparr>sr_arch := pc\<rparr>" "arch_work pc < arch_work (sr_arch s)"
proof (cases "sr_arch s")
  case (ArTopics now ts)
  show thesis
  proof (cases ts)
    case Nil
    then show thesis using assms ArTopics that[of ArWait] by (simp add: arch_work_def)
  next
    case (Cons t us)
    have "s' = s\<lparr>sr_arch := ArTopics now us\<rparr> \<or> s' = s\<lparr>sr_arch := ArDelete t now us\<rparr>"
      using assms ArTopics Cons by (cases "so_get_meta (br_ops (sr_broker s)) t (br_store (sr_broker s))") (simp_all split: if_splits)
    then show thesis using that ArTopics Cons by (auto simp: arch_work_def)
  qed
qed (use assms in simp_all)

lemma arch_delete_cases:
  assumes "server_exec SaArchDelete s = Some s'"
  obtains pc b where "s' = s\<lparr>sr_arch := pc, sr_broker := b\<rparr>" "arch_work pc < arch_work (sr_arch s)"
  using assms by (cases "sr_arch s") (auto simp: set_store_def arch_work_def)

lemma run_inv_step:
  assumes "run_inv E s" "server_exec a s = Some s'" "\<And>e. a = SaHttpFails e \<Longrightarrow> e \<in> E"
  shows "run_inv E s'"
proof (cases a)
  case (SaHttpFails e)
  then show ?thesis using assms by (auto simp: run_inv_def split: if_splits main_pc.splits)
next
  case SaMainErr
  then show ?thesis
    using assms(1,2) by (auto simp: run_inv_def run_returns_def split: option.splits if_splits)
next
  case (SaArchTick now)
  then show ?thesis using assms(1,2) by (auto simp: run_inv_def split: if_splits sum.splits)
next
  case SaArchMeta
  then obtain pc where "s' = s\<lparr>sr_arch := pc\<rparr>" using assms(2) arch_meta_cases by blast
  then show ?thesis using assms(1) by (simp add: run_inv_def)
next
  case SaArchDelete
  then obtain pc b where "s' = s\<lparr>sr_arch := pc, sr_broker := b\<rparr>" using assms(2) arch_delete_cases by blast
  then show ?thesis using assms(1) by (simp add: run_inv_def)
next
  case SaGaugeTick
  then show ?thesis using assms(1,2) by (auto simp: run_inv_def split: if_splits option.splits)
next
  case SaHttpClosed
  then have "s' = s\<lparr>sr_http := False, sr_err := Some server_closed\<rparr>" "sr_http s" "sr_main s \<noteq> MpSelect"
    using assms(2) by (simp_all split: if_splits)
  then show ?thesis using assms(1) by (auto simp: run_inv_def)
next
  case SaShutdownEnds
  then have "s' = run_returns None s" "sr_main s = MpShutdown" using assms(2) by (simp_all split: if_splits)
  then show ?thesis using assms(1) by (auto simp: run_inv_def run_returns_def)
next
  case SaMainDone
  then have "s' = s\<lparr>sr_main := MpShutdown\<rparr>" "sr_main s = MpSelect" "sr_done s" using assms(2) by (simp_all split: if_splits)
  then show ?thesis using assms(1) by (auto simp: run_inv_def)
next
  case SaSignal
  then have "s' = s\<lparr>sr_done := True\<rparr>" using assms(2) by simp
  then show ?thesis using assms(1) by (simp add: run_inv_def)
next
  case (SaServe f)
  then have "s' = s\<lparr>sr_broker := f (sr_broker s)\<rparr>" using assms(2) by simp
  then show ?thesis using assms(1) by (simp add: run_inv_def)
next
  case SaArchStop
  then have "s' = s\<lparr>sr_arch := ArGone\<rparr>" using assms(2) by (simp split: if_splits)
  then show ?thesis using assms(1) by (simp add: run_inv_def)
next
  case SaGaugeStop
  then have "s' = s\<lparr>sr_gauge := False\<rparr>" "sr_done s" using assms(2) by (simp_all split: if_splits)
  then show ?thesis using assms(1) by (simp add: run_inv_def)
qed

lemma run_inv_all:
  assumes "run_inv E s" "server_exec_all acts s = Some s'" "\<And>e. SaHttpFails e \<in> set acts \<Longrightarrow> e \<in> E"
  shows "run_inv E s'"
  using assms
proof (induction acts arbitrary: s)
  case (Cons a as)
  obtain s1 where s1: "server_exec a s = Some s1" "server_exec_all as s1 = Some s'"
    using Cons.prems(2) by (auto split: option.splits)
  show ?case using Cons.IH[OF run_inv_step[OF Cons.prems(1) s1(1)] s1(2)] Cons.prems(3) by simp
qed simp

lemma run_inv_start: "server_start store ping cfg = Inr s \<Longrightarrow> run_inv E s"
  by (auto simp: server_start_def run_inv_def split: sum.splits)


definition memory_kind :: "store_kind \<Rightarrow> mem_store store_ops \<times> mem_store" where
  "memory_kind k = (mem_ops, mem_new)"

lemma locked_start:
  "\<exists>s. server_start memory_kind None locked_config = Inr s \<and> sr_main s = MpSelect \<and> sr_http s \<and> sr_gauge s \<and> sr_arch s = ArWait
    \<and> sr_closes s = 0 \<and> \<not> sr_done s \<and> sr_err s = None
    \<and> sr_broker s = server_broker mem_ops mem_new locked_config"
  by (simp add: server_start_def choose_store_def choose_auth_def locked_config_def config_defaults_def env_default_def memory_kind_def)


section \<open>Stopping\<close>

fun stops :: "'s server_act \<Rightarrow> bool" where
  "stops (SaHttpFails _) = True"
| "stops SaHttpClosed = True"
| "stops SaMainDone = True"
| "stops SaMainErr = True"
| "stops SaShutdownEnds = True"
| "stops SaArchMeta = True"
| "stops SaArchDelete = True"
| "stops SaArchStop = True"
| "stops SaGaugeStop = True"
| "stops _ = False"

definition main_work :: "main_pc \<Rightarrow> nat" where
  "main_work pc = (case pc of MpSelect \<Rightarrow> 2 | MpShutdown \<Rightarrow> 1 | MpReturned _ \<Rightarrow> 0)"

definition stop_work :: "'s server_run \<Rightarrow> nat" where
  "stop_work s = main_work (sr_main s) + arch_work (sr_arch s) + (if sr_http s then 1 else 0) + (if sr_gauge s then 1 else 0)"

lemma stop_work_step:
  assumes "server_exec a s = Some s'" "\<And>now. a \<noteq> SaArchTick now"
  shows "(if stops a then 1 else 0) + stop_work s' \<le> stop_work s \<and> (sr_done s \<longrightarrow> sr_done s')"
proof (cases a)
  case SaArchMeta
  then obtain pc where "s' = s\<lparr>sr_arch := pc\<rparr>" "arch_work pc < arch_work (sr_arch s)" using assms(1) arch_meta_cases by blast
  then show ?thesis using SaArchMeta by (simp add: stop_work_def)
next
  case SaArchDelete
  then obtain pc b where "s' = s\<lparr>sr_arch := pc, sr_broker := b\<rparr>" "arch_work pc < arch_work (sr_arch s)"
    using assms(1) arch_delete_cases by blast
  then show ?thesis using SaArchDelete by (simp add: stop_work_def)
next
  case SaMainErr
  then show ?thesis
    using assms(1) by (auto simp: stop_work_def main_work_def run_returns_def split: if_splits option.splits)
next
  case SaGaugeTick
  then show ?thesis using assms(1) by (auto simp: stop_work_def split: if_splits option.splits)
qed (use assms in \<open>auto simp: stop_work_def main_work_def arch_work_def run_returns_def split: if_splits\<close>)

text \<open>C25: after a signal the server stops: its goroutines can take no more than \<open>stop_work\<close> further steps until the
  archiver's ticker fires again, whatever the handlers do; and until all of them have ended, each can take a step
  that brings it nearer, the HTTP server's as soon as the main one has left its \<open>select\<close>: none waits for another
  that waits.\<close>

theorem server_stops:
  assumes "server_start store ping cfg = Inr s0" "server_exec_all acts s0 = Some s" "sr_done s"
    and "server_exec_all acts2 s = Some s'" "\<forall>now. SaArchTick now \<notin> set acts2"
  shows "length (filter stops acts2) + stop_work s' \<le> stop_work s
    \<and> ((\<exists>r. sr_main s' = MpReturned r) \<or> server_exec SaMainDone s' \<noteq> None \<or> server_exec SaShutdownEnds s' \<noteq> None)
    \<and> (sr_http s' \<longrightarrow> sr_main s' = MpSelect \<or> server_exec SaHttpClosed s' \<noteq> None)
    \<and> (sr_gauge s' \<longrightarrow> server_exec SaGaugeStop s' \<noteq> None)
    \<and> (sr_arch s' \<noteq> ArGone \<longrightarrow>
        server_exec SaArchMeta s' \<noteq> None \<or> server_exec SaArchDelete s' \<noteq> None \<or> server_exec SaArchStop s' \<noteq> None)"
proof -
  have "length (filter stops acts2) + stop_work s' \<le> stop_work s \<and> sr_done s'"
    using assms(3-5)
  proof (induction acts2 arbitrary: s)
    case (Cons a as)
    obtain s1 where s1: "server_exec a s = Some s1" "server_exec_all as s1 = Some s'"
      using Cons.prems(2) by (auto split: option.splits)
    have "(if stops a then 1 else 0) + stop_work s1 \<le> stop_work s \<and> (sr_done s \<longrightarrow> sr_done s1)"
      using Cons.prems(3) by (intro stop_work_step[OF s1(1)]) auto
    then show ?case using Cons.IH[OF _ s1(2)] Cons.prems(1,3) by (auto split: if_splits)
  qed simp
  then show ?thesis
    by (cases "sr_main s'"; cases "sr_arch s'") (auto split: list.splits sum.splits)
qed

theorem server_stops_witness:
  "\<exists>(s :: mem_store server_run) s'. server_exec_all [SaMainDone, SaHttpClosed, SaGaugeStop, SaShutdownEnds, SaArchStop] s = Some s'
    \<and> 5 + stop_work s' \<le> stop_work s \<and> sr_main s' = MpReturned None \<and> \<not> sr_http s' \<and> \<not> sr_gauge s' \<and> sr_arch s' = ArGone"
proof -
  obtain s0 where s0: "server_start memory_kind None locked_config = Inr s0" "sr_main s0 = MpSelect" "sr_http s0" "sr_gauge s0" "sr_arch s0 = ArWait"
    using locked_start by (elim exE conjE)
  let ?acts = "[SaMainDone, SaHttpClosed, SaGaugeStop, SaShutdownEnds, SaArchStop]"
  obtain s where s: "server_exec_all [SaSignal] s0 = Some s" "sr_done s" "sr_main s = MpSelect" "sr_http s" "sr_gauge s" "sr_arch s = ArWait"
    using s0 by simp
  obtain s' where s': "server_exec_all ?acts s = Some s'" "sr_main s' = MpReturned None" "\<not> sr_http s'" "\<not> sr_gauge s'" "sr_arch s' = ArGone"
    using s by (simp add: run_returns_def)
  have "length (filter stops ?acts) + stop_work s' \<le> stop_work s"
    using server_stops[OF s0(1) s(1,2) s'(1)] by simp
  then show ?thesis using s' by (intro exI[of _ s] exI[of _ s']) simp
qed

section \<open>The archiver's steps\<close>

lemma archiver_topics:
  "\<exists>acts. set acts \<subseteq> {SaArchMeta, SaArchDelete}
    \<and> server_exec_all acts (s\<lparr>sr_arch := ArTopics now ts\<rparr>) =
        Some (set_store (fst (foldl (sweep_topic (sr_archiver s) (br_ops (sr_broker s)) now) (br_store (sr_broker s), n) ts))
          (s\<lparr>sr_arch := ArWait\<rparr>))"
proof (induction ts arbitrary: s n)
  case Nil
  show ?case by (intro exI[of _ "[SaArchMeta]"]) (simp add: set_store_def)
next
  case (Cons t ts)
  let ?ops = "br_ops (sr_broker s)" and ?st = "br_store (sr_broker s)"
  obtain st1 n1 where r: "sweep_topic (sr_archiver s) ?ops now (?st, n) t = (st1, n1)" by fastforce
  have one: "\<exists>acts. set acts \<subseteq> {SaArchMeta, SaArchDelete}
      \<and> server_exec_all acts (s\<lparr>sr_arch := ArTopics now (t # ts)\<rparr>) = Some (set_store st1 s\<lparr>sr_arch := ArTopics now ts\<rparr>)"
  proof (cases "so_get_meta ?ops t ?st")
    case (Inl e)
    then show ?thesis using r by (intro exI[of _ "[SaArchMeta]"]) (simp add: sweep_topic_def set_store_def)
  next
    case (Inr m)
    show ?thesis
    proof (cases "ttl_passed (sr_archiver s) now m")
      case True
      obtain e st' where d: "so_delete_topic ?ops t ?st = (e, st')" by fastforce
      then show ?thesis
        using Inr True r by (intro exI[of _ "[SaArchMeta, SaArchDelete]"]) (cases e; simp add: sweep_topic_def set_store_def)
    next
      case False
      then show ?thesis using Inr r by (intro exI[of _ "[SaArchMeta]"]) (simp add: sweep_topic_def set_store_def)
    qed
  qed
  then obtain acts1 where a1: "set acts1 \<subseteq> {SaArchMeta, SaArchDelete}"
      "server_exec_all acts1 (s\<lparr>sr_arch := ArTopics now (t # ts)\<rparr>) = Some (set_store st1 s\<lparr>sr_arch := ArTopics now ts\<rparr>)"
    by blast
  obtain acts2 where a2: "set acts2 \<subseteq> {SaArchMeta, SaArchDelete}"
      "server_exec_all acts2 (set_store st1 s\<lparr>sr_arch := ArTopics now ts\<rparr>) =
        Some (set_store (fst (foldl (sweep_topic (sr_archiver s) ?ops now) (st1, n1) ts)) (s\<lparr>sr_arch := ArWait\<rparr>))"
    using Cons.IH[of "set_store st1 s" n1] by (auto simp: set_store_def)
  show ?case using a1 a2 r by (intro exI[of _ "acts1 @ acts2"]) (simp add: server_exec_all_append)
qed

text \<open>Left alone between a tick and the next, the archiver's steps do to the store what \<open>sweep\<close> does, and come
  back to wait for the ticker.\<close>

lemma archiver_sweeps:
  assumes "sr_arch s = ArWait" "0 < sint (ar_interval (sr_archiver s))"
  shows "\<exists>acts. set acts \<subseteq> {SaArchMeta, SaArchDelete}
    \<and> server_exec_all (SaArchTick now # acts) s =
        Some (set_store (fst (sweep (sr_archiver s) (br_ops (sr_broker s)) now (br_store (sr_broker s)))) s)"
proof (cases "so_list_topics (br_ops (sr_broker s)) [] 0 (br_store (sr_broker s))")
  case (Inl e)
  then show ?thesis using assms by (intro exI[of _ "[]"]) (simp add: sweep_def set_store_def)
next
  case (Inr ts)
  have e: "s\<lparr>sr_arch := ArWait\<rparr> = s" using assms(1) by simp
  show ?thesis
    using archiver_topics[where s = s and now = now and ts = ts and n = 0, unfolded e] assms Inr by (auto simp: sweep_def)
qed

text \<open>Between reading a topic's meta and deleting the topic the sweep holds no lock: what is published to the topic in
  between is accepted, numbered, handed out, and then deleted although it is not old.\<close>

lemma sweep_race_loses_event:
  assumes "broker_reachable (memory_broker reg ttl) (sr_broker s)" "sr_arch s = ArTopics now (t # ts)"
    and "mem_get_meta t (br_store (sr_broker s)) = Inr m" "ttl_passed (sr_archiver s) now m"
    and "ev_topic e = t" "validate_topic t = None" "ev_type e \<noteq> []"
  shows "\<exists>s' n. server_exec_all [SaArchMeta, SaServe (\<lambda>b. snd (broker_publish now2 rid e src b)), SaArchDelete] s = Some s'
    \<and> fst (broker_publish now2 rid e src (sr_broker s)) = Inr n \<and> mem_log (br_store (sr_broker s')) t = []"
proof -
  have ops: "br_ops (sr_broker s) = mem_ops" using memory_broker_reachable[OF assms(1)] by blast
  obtain n b' where p: "broker_publish now2 rid e src (sr_broker s) = (Inr n, b')"
    using broker_publish_ok[OF assms(1), of e now2 rid src] assms(5-7) by auto
  have ops': "br_ops b' = mem_ops" using broker_publish_frame(1)[of now2 rid e src "sr_broker s"] p ops by simp
  show ?thesis
    using assms(2-4) ops ops' p by (simp add: set_store_def mem_delete_topic_def mem_log_def)
qed

end
