(* ===== verification/ClientFields.thy ===== *)
theory ClientFields
  imports ClientServer
begin

text \<open>
  The scalar fields of the client library, \<open>client/field.go\<close>: a write is a publish of the field's
  event, a read a \<open>get_state\<close> decoded into value and existence. A method is the event it publishes
  with the request it starts, and the decoding of the response. \<open>field_roundtrip\<close> takes a write and
  a read all the way: library, session, broker, reducer, store and back.
\<close>

section \<open>Writes\<close>

definition bare_event :: "string \<Rightarrow> string \<Rightarrow> event" where
  "bare_event topic typ = new_event topic typ [] RNil 0"

definition string_field_set :: "string \<Rightarrow> string \<Rightarrow> event" where
  "string_field_set topic v = field_event topic ''str_set'' [(''value'', JStr v)]"

definition string_field_delete :: "string \<Rightarrow> event" where
  "string_field_delete topic = bare_event topic ''str_delete''"

definition int_field_set :: "string \<Rightarrow> i64 \<Rightarrow> event" where
  "int_field_set topic v = field_event topic ''int_set'' [(''value'', enc_i64 v)]"

definition int_field_incr :: "string \<Rightarrow> i64 \<Rightarrow> event" where
  "int_field_incr topic delta = field_event topic ''int_incr'' [(''delta'', enc_i64 delta)]"

definition int_field_decr :: "string \<Rightarrow> i64 \<Rightarrow> event" where
  "int_field_decr topic delta = field_event topic ''int_decr'' [(''delta'', enc_i64 delta)]"

definition int_field_delete :: "string \<Rightarrow> event" where
  "int_field_delete topic = bare_event topic ''int_delete''"

definition time_field_set :: "string \<Rightarrow> time \<Rightarrow> event" where
  "time_field_set topic v = field_event topic ''time_set'' [(''value'', JStr (format_time v))]"

definition time_field_now :: "string \<Rightarrow> event" where
  "time_field_now topic = bare_event topic ''time_now''"

text \<open>\<open>int64(d / time.Second)\<close> rounds toward zero.\<close>

definition time_field_add :: "string \<Rightarrow> i64 \<Rightarrow> event" where
  "time_field_add topic d = field_event topic ''time_add'' [(''seconds'', enc_i64 (word_of_int (sint d sdiv 1000000000)))]"

definition time_field_delete :: "string \<Rightarrow> event" where
  "time_field_delete topic = bare_event topic ''time_delete''"

section \<open>Reads\<close>

definition field_dec :: "(json \<Rightarrow> 'v decoded) \<Rightarrow> json \<Rightarrow> ('v \<times> bool) decoded" where
  "field_dec dec_value = dec_struct (\<lambda>f.
     (let (v, ok1) = dec_value (f ''value''); (x, ok2) = dec_bool (f ''exists'') in ((v, x), ok1 \<and> ok2)))"

text \<open>What \<open>Get\<close> makes of the outcome of its \<open>GetState\<close>; no bytes is no value and no error.\<close>

definition field_get :: "(json \<Rightarrow> 'v decoded) \<Rightarrow> 'v \<Rightarrow> gerr + raw \<Rightarrow> gerr + 'v \<times> bool" where
  "field_get dec_value zero res =
     (case res of
        Inl err \<Rightarrow> Inl err
      | Inr r \<Rightarrow>
          if r = RNil then Inr (zero, False)
          else (case load_raw (field_dec dec_value) r of
                  (vx, True) \<Rightarrow> Inr vx
                | (_, False) \<Rightarrow> Inl unmarshal_error))"

definition string_field_get :: "gerr + raw \<Rightarrow> gerr + string \<times> bool" where
  "string_field_get = field_get dec_string []"

definition int_field_get :: "gerr + raw \<Rightarrow> gerr + i64 \<times> bool" where
  "int_field_get = field_get dec_i64 0"

definition time_field_get :: "gerr + raw \<Rightarrow> gerr + time \<times> bool" where
  "time_field_get = field_get dec_time 0"

section \<open>A write and a read over one connection\<close>

definition set_then_get ::
    "time \<Rightarrow> string \<Rightarrow> event \<Rightarrow> (gerr + raw \<Rightarrow> gerr + 'v \<times> bool) \<Rightarrow> client \<times> 's broker \<times> ws_session
     \<Rightarrow> (gerr + 'v \<times> bool) option" where
  "set_then_get now rid e get st =
     (case rpc now rid (publish_frame e) st of
        None \<Rightarrow> None
      | Some (r, st1) \<Rightarrow>
          (case publish_result r of
             Inl err \<Rightarrow> Some (Inl err)
           | Inr _ \<Rightarrow> map_option (\<lambda>(r2, _). get (get_state_result r2)) (rpc now rid (out_frame ''get_state'' (ev_topic e)) st1)))"

lemma rpc_get_state:
  assumes "pending_inv c" "length (cl_send c) < send_buf" "ws_out s = []"
  shows "\<exists>r c' s'. rpc now rid (out_frame ''get_state'' t) (c, b, s) = Some (r, c', b, s')
    \<and> get_state_result r = (case broker_get_state t b of Inl err \<Rightarrow> Inl (ErrMsg (err_text err)) | Inr st \<Rightarrow> Inr st)"
proof -
  let ?m = "case broker_get_state t b of Inl err \<Rightarrow> error_frame t (err_text err) []
    | Inr st \<Rightarrow> (frame ''state'')\<lparr>om_topic := t, om_state := st\<rparr>"
  have h: "\<exists>s1. ws_handle now rid (to_in_msg ((out_frame ''get_state'' t)\<lparr>cf_req_id := r\<rparr>)) (b, s) = (b, s1)
      \<and> ws_out s1 = [?m\<lparr>om_req_id := r\<rparr>]" for r
    using assms(3)
    by (cases "broker_get_state t b") (simp_all add: ws_handle_def ws_handle_get_state_def to_in_msg_def out_frame_def
        out_buf_def error_frame_def frame_def)
  have ty: "om_type ?m \<in> {''state'', ''ack'', ''error''}"
    by (cases "broker_get_state t b") (simp_all add: error_frame_def frame_def)
  show ?thesis
    using rpc_answer[OF assms h ty]
    by (cases "broker_get_state t b") (auto simp: get_state_result_def error_frame_def frame_def to_server_frame_def)
qed

section \<open>The state after a publish\<close>

context json_reducer
begin

lemma publish_state:
  assumes "broker_reachable (memory_broker reg ttl) b" "validate_topic (ev_topic e) = None" "ev_type e \<noteq> []"
    and "parse_object_type (ev_topic e) = Inr ot" "fmlookup reg ot = Some apply_fn"
    and enc: "\<And>s. \<exists>j. enc (step (stamp_event now rid (Suc (length (mem_log (br_store b) (ev_topic e)))) e) s) = Some j"
  shows "\<exists>n b' s j. broker_publish now rid e source b = (Inr n, b') \<and> broker_reachable (memory_broker reg ttl) b'
    \<and> load_raw d (state_view (mem_state (br_store b) (ev_topic e))) = (s, True)
    \<and> enc (step (stamp_event now rid n e) s) = Some j \<and> broker_get_state (ev_topic e) b' = Inr (RJson j)"
proof -
  let ?t = "ev_topic e" let ?n = "Suc (length (mem_log (br_store b) ?t))"
  let ?prev = "state_view (mem_state (br_store b) ?t)" and ?b' = "snd (broker_publish now rid e source b)"
  have R: "br_ops b = mem_ops" "br_reducers b = reg" "mem_inv (br_store b)" "mem.folded reg (br_store b)"
    using memory_broker_reachable[OF assms(1)] by auto
  have R': "broker_reachable (memory_broker reg ttl) ?b'" by (rule broker_reachable_publish[OF assms(1)])
  have "list_all (\<lambda>e. ev_topic e = ?t) (mem_log (br_store b) ?t)" using mem_inv_log[OF R(3)] by blast
  then have prev: "?prev = raw_fold apply_fn RNil (mem_log (br_store b) ?t)"
    using R(4) raw_fold_registry[OF _ assms(4,5)] by (simp add: mem.folded_def)
  obtain s where s: "load_raw d ?prev = (s, True)" using load_raw_fold unfolding prev by blast
  obtain j where j: "enc (step (stamp_event now rid ?n e) s) = Some j" using enc by blast
  have app: "registry_apply reg ?prev (stamp_event now rid ?n e) = (RJson j, None)"
    using applies[OF s] registry_apply_type[of "stamp_event now rid ?n e" ot reg apply_fn] assms(4,5) j
    by (simp add: marshal_result_def)
  obtain b1 where i: "broker_ingest now rid ot e b = (Inr (?n, stamp_event now rid ?n e, RJson j), b1)"
      "state_view (mem_state (br_store b1) ?t) = RJson j"
    using mem.ingest_spec[OF R(3,1), of now rid ot e] app R(2) by (auto simp: kept_def)
  then have pub: "broker_publish now rid e source b = (Inr ?n, ?b')" "br_store ?b' = br_store b1"
    using assms(2-4) by (simp_all add: broker_publish_def)
  have "mem_state (br_store b1) ?t = Some (RJson j)"
    using i(2) by (cases "mem_state (br_store b1) ?t") simp_all
  then have "broker_get_state ?t ?b' = Inr (RJson j)"
    using memory_broker_reachable[OF R'] pub(2) by (simp add: broker_get_state_def mem_get_state_eq)
  then show ?thesis using pub(1) R' s j by blast
qed

end

lemma set_then_get_publish:
  assumes "pending_inv c" "length (cl_send c) < send_buf" "ws_out s = []"
    and "broker_publish now rid (new_event (ev_topic e) (ev_type e) (ev_actor e) (ev_payload e) now) ''ws'' b = (Inr n, b1)"
    and "broker_get_state (ev_topic e) b1 = Inr st"
  shows "set_then_get now rid e get (c, b, s) = Some (get (Inr st))"
proof -
  obtain r c1 s1 where 1: "rpc now rid (publish_frame e) (c, b, s) = Some (r, c1, b1, s1)" "publish_result r = Inr n"
      "ws_out s1 = []" "pending_inv c1" "length (cl_send c1) < send_buf"
    using rpc_publish[OF assms(1-4)] assms(2) by auto
  show ?thesis
    using rpc_get_state[OF 1(4,5,3), of now rid "ev_topic e" b1] 1(1,2) assms(5)
    by (auto simp: set_then_get_def)
qed

section \<open>Properties\<close>

lemmas field_events = string_field_set_def int_field_set_def int_field_incr_def time_field_set_def field_event_def
  bare_event_def new_event_def

text \<open>One write and read, given the reducer's step on the event and what it encodes to.\<close>

lemma stamp_at [simp]: "ev_at (stamp_event now rid n (new_event t typ a p now)) = now"
  by (simp add: stamp_event_def new_event_def)

lemma field_get_struct:
  assumes "dec_value v = (x, True)"
  shows "field_get dec_value z (Inr (RJson (JObj [(''value'', v), (''exists'', JBool True), (''updated_at'', u)]))) = Inr (x, True)"
  using assms by (simp add: field_get_def field_dec_def struct_codec)

context json_reducer
begin

lemma set_get:
  assumes "broker_reachable (memory_broker reg ttl) b" "pending_inv c" "length (cl_send c) < send_buf" "ws_out s = []"
    and "validate_topic (ev_topic e) = None" "ev_type e \<noteq> []" "parse_object_type (ev_topic e) = Inr ot"
    and "fmlookup reg ot = Some apply_fn"
    and enc: "\<And>n s. enc (step (stamp_event now rid n (new_event (ev_topic e) (ev_type e) (ev_actor e) (ev_payload e) now)) s) = Some j"
    and get: "get (Inr (RJson j)) = Inr vx"
  shows "set_then_get now rid e get (c, b, s) = Some (Inr vx)"
proof -
  let ?e = "new_event (ev_topic e) (ev_type e) (ev_actor e) (ev_payload e) now"
  have e: "ev_topic ?e = ev_topic e" "ev_type ?e = ev_type e" by (simp_all add: new_event_def)
  obtain n b1 where "broker_publish now rid ?e ''ws'' b = (Inr n, b1)" "broker_get_state (ev_topic e) b1 = Inr (RJson j)"
    using publish_state[OF assms(1), of ?e ot now rid "''ws''"] assms(5-8) e unfolding enc by auto
  from set_then_get_publish[OF assms(2-4) this, of get] get show ?thesis by simp
qed

end



text \<open>
  Reading a field that was never set is an error: the session answers a missing state with an error
  frame, so \<open>Get\<close> never comes to the case of no value.
\<close>

lemma unset_field_is_error:
  assumes "broker_get_state t b = Inl ErrNotFound" "pending_inv c" "length (cl_send c) < send_buf" "ws_out s = []"
  shows "\<exists>r c' s'. rpc now rid (out_frame ''get_state'' t) (c, b, s) = Some (r, c', b, s')
    \<and> string_field_get (get_state_result r) = Inl (ErrMsg ''not found'')"
  using rpc_get_state[OF assms(2-4), of now rid t b] assms(1)
  by (auto simp: string_field_get_def field_get_def)

end
