(* ===== verification/AppModel.thy ===== *)
theory AppModel
  imports ClientFields "HOL-Library.Sublist"
begin

text \<open>
  The desktop client's bindings, \<open>wails-client/eventwatch-desktop/app.go\<close>: a client of the library, one
  handle per subscribed topic, and the calls the frontend makes of them. Dialling gives a client or an
  error and is an argument; the events emitted to the frontend are the calls of the callbacks; logging
  and the transfer over HTTP are not modelled. An operation that blocks in the library is \<open>None\<close>.

  The main result is \<open>app_delivers_once\<close>: as long as the frontend makes one call at a time, an event
  of a topic is emitted once when the topic is subscribed and not at all when it is not. Two calls at
  once break it (\<open>app_subscribe_race\<close>).
\<close>

section \<open>Parsing\<close>

definition app_parse_from :: "string \<Rightarrow> from_spec" where
  "app_parse_from s =
     (if s = [] \<or> s = ''latest'' then Latest
      else if prefix ''last:'' s then LastN (sscanf_d (drop 5 s))
      else if prefix ''seq:'' s then Seq (sscanf_d (drop 4 s))
      else Latest)"

definition trim_suffix :: "string \<Rightarrow> string \<Rightarrow> string" where
  "trim_suffix s x = (if suffix x s then take (length s - length x) s else s)"

definition ws_to_http :: "string \<Rightarrow> string" where
  "ws_to_http u0 =
     (let u = trim_suffix u0 ''/ws''
      in if prefix ''ws://'' u then ''http://'' @ drop 5 u
         else if prefix ''wss://'' u then ''https://'' @ drop 6 u
         else u)"

definition lower_char :: "char \<Rightarrow> char" where
  "lower_char c = (if 65 \<le> (of_char c :: nat) \<and> (of_char c :: nat) \<le> 90 then char_of ((of_char c :: nat) + 32) else c)"

section \<open>State and connection\<close>

record app =
  ap_client :: "client option"
  ap_subs :: "(string, nat) fmap"
  ap_base :: string
  ap_token :: string

definition app_new :: app where
  "app_new = \<lparr>ap_client = None, ap_subs = fmempty, ap_base = [], ap_token = []\<rparr>"

fun close_handles :: "(string \<times> nat) list \<Rightarrow> client \<Rightarrow> client option" where
  "close_handles [] c = Some c"
| "close_handles ((topic, cid) # hs) c =
     (case client_remove_callback topic cid c of None \<Rightarrow> None | Some c1 \<Rightarrow> close_handles hs c1)"

definition app_disconnect :: "app \<Rightarrow> app option" where
  "app_disconnect a =
     (case ap_client a of
        None \<Rightarrow> Some (a\<lparr>ap_subs := fmempty\<rparr>)
      | Some c \<Rightarrow> map_option (\<lambda>_. a\<lparr>ap_client := None, ap_subs := fmempty\<rparr>) (close_handles (fm_items (ap_subs a)) c))"

definition app_connect :: "string \<Rightarrow> string \<Rightarrow> gerr + client \<Rightarrow> app \<Rightarrow> (gerr option \<times> app) option" where
  "app_connect url token dialled a =
     (case (if ap_client a = None then Some a else app_disconnect a) of
        None \<Rightarrow> None
      | Some a1 \<Rightarrow>
          (case dialled of
             Inl err \<Rightarrow> Some (Some err, a1)
           | Inr c \<Rightarrow> Some (None, a1\<lparr>ap_client := Some c, ap_token := token, ap_base := ws_to_http url\<rparr>)))"

section \<open>Subscriptions\<close>

definition not_connected :: gerr where
  "not_connected = ErrMsg ''not connected''"

text \<open>\<open>Subscribe\<close>: the check under the mutex, and what follows it without the mutex.\<close>

definition app_check :: "string \<Rightarrow> app \<Rightarrow> gerr option" where
  "app_check topic a =
     (if fmlookup (ap_subs a) topic \<noteq> None then Some (ErrMsg (''already subscribed to '' @ topic))
      else if ap_client a = None then Some not_connected
      else None)"

definition app_attach :: "string \<Rightarrow> string \<Rightarrow> app \<Rightarrow> (gerr option \<times> app) option" where
  "app_attach topic from a =
     (case ap_client a of
        None \<Rightarrow> Some (Some not_connected, a)
      | Some c \<Rightarrow>
          (case client_subscribe topic (app_parse_from from) c of
             None \<Rightarrow> None
           | Some (Inl err, c1) \<Rightarrow> Some (Some err, a\<lparr>ap_client := Some c1\<rparr>)
           | Some (Inr cid, c1) \<Rightarrow> Some (None, a\<lparr>ap_client := Some c1, ap_subs := fmupd topic cid (ap_subs a)\<rparr>)))"

definition app_subscribe :: "string \<Rightarrow> string \<Rightarrow> app \<Rightarrow> (gerr option \<times> app) option" where
  "app_subscribe topic from a =
     (case app_check topic a of Some err \<Rightarrow> Some (Some err, a) | None \<Rightarrow> app_attach topic from a)"

definition app_unsubscribe :: "string \<Rightarrow> app \<Rightarrow> app option" where
  "app_unsubscribe topic a =
     (case (fmlookup (ap_subs a) topic, ap_client a) of
        (Some cid, Some c) \<Rightarrow>
          map_option (\<lambda>c1. a\<lparr>ap_client := Some c1, ap_subs := fmdrop topic (ap_subs a)\<rparr>) (client_remove_callback topic cid c)
      | _ \<Rightarrow> Some (a\<lparr>ap_subs := fmdrop topic (ap_subs a)\<rparr>))"

section \<open>Requests\<close>

text \<open>A call that makes a request: an error at once, or the number of the request.\<close>

definition app_request :: "(client \<Rightarrow> (nat \<times> client) option) \<Rightarrow> app \<Rightarrow> ((gerr + nat) \<times> app) option" where
  "app_request start a =
     (case ap_client a of
        None \<Rightarrow> Some (Inl not_connected, a)
      | Some c \<Rightarrow> map_option (\<lambda>(n, c1). (Inr n, a\<lparr>ap_client := Some c1\<rparr>)) (start c))"

definition app_publish :: "string \<Rightarrow> string \<Rightarrow> raw \<Rightarrow> app \<Rightarrow> ((gerr + nat) \<times> app) option" where
  "app_publish topic typ payload = app_request (client_publish (new_event topic typ [] payload 0))"

definition app_get_state :: "string \<Rightarrow> app \<Rightarrow> ((gerr + nat) \<times> app) option" where
  "app_get_state topic = app_request (client_get_state topic)"

text \<open>What \<open>GetState\<close> makes of the outcome: "not found" is no error, and no state.\<close>

definition app_state_result :: "gerr + raw \<Rightarrow> gerr + raw" where
  "app_state_result res =
     (case res of
        Inr st \<Rightarrow> Inr st
      | Inl err \<Rightarrow> if sublist ''not found'' (map lower_char (err_text err)) then Inr RNil else Inl err)"

text \<open>A nil map is marshalled as \<open>null\<close>.\<close>

definition app_publish_field :: "string \<Rightarrow> string \<Rightarrow> (string \<times> json) list option \<Rightarrow> app \<Rightarrow> ((gerr + nat) \<times> app) option" where
  "app_publish_field topic typ payload =
     app_request (client_publish (new_event topic typ [] (RJson (case payload of None \<Rightarrow> JNull | Some o1 \<Rightarrow> JObj o1)) 0))"

definition app_set_string :: "string \<Rightarrow> string \<Rightarrow> app \<Rightarrow> ((gerr + nat) \<times> app) option" where
  "app_set_string topic v = app_publish_field topic ''str_set'' (Some [(''value'', JStr v)])"

definition app_set_int :: "string \<Rightarrow> i64 \<Rightarrow> app \<Rightarrow> ((gerr + nat) \<times> app) option" where
  "app_set_int topic v = app_publish_field topic ''int_set'' (Some [(''value'', enc_i64 v)])"

definition app_incr_int :: "string \<Rightarrow> i64 \<Rightarrow> app \<Rightarrow> ((gerr + nat) \<times> app) option" where
  "app_incr_int topic d = app_publish_field topic ''int_incr'' (Some [(''delta'', enc_i64 d)])"

definition app_decr_int :: "string \<Rightarrow> i64 \<Rightarrow> app \<Rightarrow> ((gerr + nat) \<times> app) option" where
  "app_decr_int topic d = app_publish_field topic ''int_decr'' (Some [(''delta'', enc_i64 d)])"

definition app_time_now :: "string \<Rightarrow> app \<Rightarrow> ((gerr + nat) \<times> app) option" where
  "app_time_now topic = app_publish_field topic ''time_now'' None"

definition app_delete_field :: "string \<Rightarrow> app \<Rightarrow> ((gerr + nat) \<times> app) option" where
  "app_delete_field topic a =
     (case index_byte topic (CHR ''/'') of
        None \<Rightarrow> Some (Inl (ErrMsg ''invalid topic''), a)
      | Some i \<Rightarrow>
          if i = 0 then Some (Inl (ErrMsg ''invalid topic''), a)
          else
            (let ot = take i topic
             in if ot \<in> {''str'', ''int'', ''time''} then app_publish_field topic (ot @ ''_delete'') None a
                else Some (Inl (ErrMsg ''delete not supported for object type''), a)))"

text \<open>The request \<open>httpGET\<close> makes: its URL, and its \<open>Authorization\<close> header when there is a token.\<close>

definition app_http_get :: "string \<Rightarrow> app \<Rightarrow> gerr + string \<times> string option" where
  "app_http_get path a =
     (if ap_base a = [] then Inl not_connected
      else Inr (ap_base a @ path, if ap_token a = [] then None else Some (''Bearer '' @ ap_token a)))"

section \<open>Calls one at a time\<close>

text \<open>What the library's goroutines do to the client between calls leaves its callbacks as they are.\<close>

inductive app_step :: "app \<Rightarrow> app \<Rightarrow> bool" where
  as_connect: "app_connect url token (Inr (with_reconnect i m client_new)) a = Some (r, a') \<Longrightarrow> app_step a a'"
| as_connect_err: "app_connect url token (Inl err) a = Some (r, a') \<Longrightarrow> app_step a a'"
| as_disconnect: "app_disconnect a = Some a' \<Longrightarrow> app_step a a'"
| as_subscribe: "app_subscribe topic from a = Some (r, a') \<Longrightarrow> app_step a a'"
| as_unsubscribe: "app_unsubscribe topic a = Some a' \<Longrightarrow> app_step a a'"
| as_publish: "app_publish topic typ payload a = Some (r, a') \<Longrightarrow> app_step a a'"
| as_get_state: "app_get_state topic a = Some (r, a') \<Longrightarrow> app_step a a'"
| as_publish_field: "app_publish_field topic typ o1 a = Some (r, a') \<Longrightarrow> app_step a a'"
| as_dispatch: "ap_client a = Some c \<Longrightarrow> app_step a (a\<lparr>ap_client := Some (snd (client_dispatch f c))\<rparr>)"
| as_receive: "ap_client a = Some c \<Longrightarrow> client_receive n c = Some (r, c') \<Longrightarrow> app_step a (a\<lparr>ap_client := Some c'\<rparr>)"
| as_run: "ap_client a = Some c \<Longrightarrow> client_run_step ev (r, c) = Some (r', c') \<Longrightarrow> app_step a (a\<lparr>ap_client := Some c'\<rparr>)"

inductive app_reachable :: "app \<Rightarrow> bool" where
  app_start: "app_reachable app_new"
| app_next: "app_reachable a \<Longrightarrow> app_step a a' \<Longrightarrow> app_reachable a'"

definition app_inv :: "app \<Rightarrow> bool" where
  "app_inv a \<longleftrightarrow>
     (case ap_client a of
        None \<Rightarrow> ap_subs a = fmempty
      | Some c \<Rightarrow> \<forall>t. callbacks_of c t = map_option (\<lambda>cid. [cid]) (fmlookup (ap_subs a) t))"

lemma app_inv_client:
  "app_inv a \<Longrightarrow> ap_client a = Some c \<Longrightarrow> callbacks_of c' = callbacks_of c \<Longrightarrow> app_inv (a\<lparr>ap_client := Some c'\<rparr>)"
  by (simp add: app_inv_def)

lemma app_inv_request:
  assumes "app_inv a" "app_request start a = Some (r, a')"
    and "\<And>c n c'. start c = Some (n, c') \<Longrightarrow> cl_topics c' = cl_topics c"
  shows "app_inv a'"
  using assms by (auto simp: app_request_def app_inv_def callbacks_of_def split: option.splits)

lemma client_subscribe_callbacks:
  assumes "client_subscribe t from c = Some (res, c')"
  shows "callbacks_of c' = (case res of
      Inl _ \<Rightarrow> callbacks_of c
    | Inr cid \<Rightarrow> (callbacks_of c)(t \<mapsto> (case callbacks_of c t of None \<Rightarrow> [] | Some cbs \<Rightarrow> cbs) @ [cid]))"
proof (cases "validate_topic t")
  case None
  then obtain cid frames c1 where c1: "client_register t from c = (cid, frames, c1)" "client_send_all frames c1 = Some c'" "res = Inr cid"
    using assms by (auto simp: client_subscribe_def split: prod.splits)
  have "callbacks_of c' = callbacks_of c1" using send_all_frame[OF c1(2)] by (intro callbacks_of_same) simp
  then show ?thesis using register_callbacks[OF c1(1)] c1(3) by simp
qed (use assms in \<open>auto simp: client_subscribe_def\<close>)

lemma remove_callback_callbacks:
  assumes "client_remove_callback t cid c = Some c'" "callbacks_of c t = Some [cid]"
  shows "callbacks_of c' = (callbacks_of c)(t := None)"
proof -
  obtain frames c1 where u: "client_unregister t cid c = (frames, c1)" "client_send_all frames c1 = Some c'"
    using assms(1) by (auto simp: client_remove_callback_def split: prod.splits)
  have "callbacks_of c' = callbacks_of c1" using send_all_frame[OF u(2)] by (intro callbacks_of_same) simp
  then show ?thesis using unregister_callbacks[OF u(1)] assms(2) by simp
qed

lemma app_inv_disconnect: "app_disconnect a = Some a' \<Longrightarrow> app_inv a' \<and> ap_client a' = None"
  by (auto simp: app_disconnect_def app_inv_def split: option.splits)

lemma app_inv_connect:
  assumes "app_inv a" "app_connect url token d a = Some (r, a')" "\<And>c. d = Inr c \<Longrightarrow> cl_topics c = fmempty"
  shows "app_inv a'"
proof -
  obtain a1 where a1: "app_inv a1" "ap_client a1 = None"
      "a' = (case d of Inl _ \<Rightarrow> a1 | Inr c \<Rightarrow> a1\<lparr>ap_client := Some c, ap_token := token, ap_base := ws_to_http url\<rparr>)"
    using assms(1,2) app_inv_disconnect[of a] by (auto simp: app_connect_def split: option.splits sum.splits if_splits)
  then show ?thesis using assms(3) by (cases d) (auto simp: app_inv_def callbacks_of_def)
qed

lemma app_inv_subscribe:
  assumes "app_inv a" "app_subscribe t from a = Some (r, a')"
  shows "app_inv a'"
proof (cases "app_check t a")
  case None
  then obtain c where c: "ap_client a = Some c" "fmlookup (ap_subs a) t = None"
    by (auto simp: app_check_def split: if_splits)
  then obtain res c' where s: "client_subscribe t (app_parse_from from) c = Some (res, c')"
    using None assms(2) by (auto simp: app_subscribe_def app_attach_def split: option.splits)
  have "callbacks_of c t = None" using assms(1) c by (simp add: app_inv_def)
  then show ?thesis
    using client_subscribe_callbacks[OF s] None assms c s
    by (auto simp: app_subscribe_def app_attach_def app_inv_def split: sum.splits)
qed (use assms in \<open>simp add: app_subscribe_def\<close>)

lemma app_inv_unsubscribe:
  assumes "app_inv a" "app_unsubscribe t a = Some a'"
  shows "app_inv a'"
proof (cases "ap_client a")
  case (Some c)
  show ?thesis
  proof (cases "fmlookup (ap_subs a) t")
    case s: (Some cid)
    then have "callbacks_of c t = Some [cid]" using assms(1) Some by (simp add: app_inv_def)
    from remove_callback_callbacks[OF _ this] show ?thesis
      using assms Some s by (auto simp: app_unsubscribe_def app_inv_def)
  next
    case None
    then show ?thesis using assms Some by (auto simp: app_unsubscribe_def app_inv_def)
  qed
qed (use assms in \<open>auto simp: app_unsubscribe_def app_inv_def split: option.splits\<close>)

lemma app_inv_step:
  assumes "app_step a a'" "app_inv a"
  shows "app_inv a'"
  using assms
proof (induction rule: app_step.induct)
  case (as_connect url token i m a r a')
  then show ?case by (auto intro!: app_inv_connect[of a] simp: with_reconnect_def client_new_def)
next
  case (as_dispatch a c f)
  then show ?case using app_inv_client dispatch_frame[of f c] by blast
next
  case (as_receive a c n r c')
  then have "cl_topics c' = cl_topics c" by (auto simp: client_receive_def split: option.splits)
  with as_receive show ?case using app_inv_client callbacks_of_same by blast
next
  case (as_run a c ev r r' c')
  then show ?case using app_inv_client callbacks_of_same run_step_frame by blast
qed (auto intro: app_inv_connect app_inv_subscribe app_inv_unsubscribe app_inv_request simp: app_inv_disconnect
      app_publish_def app_get_state_def app_publish_field_def client_publish_def client_get_state_def client_request_Some(5))

section \<open>Properties\<close>


definition first_client :: client where
  "first_client = with_reconnect (millis 100) (millis 30000) client_new"

definition demo_app :: app where
  "demo_app = \<lparr>ap_client = Some (first_client\<lparr>cl_send := [subscribe_frame ''int/hits'' Latest 0], cl_next_id := 1,
       cl_topics := fmupd ''int/hits'' \<lparr>ts_from = Latest, ts_callbacks = [1], ts_last_seen = 0\<rparr> fmempty\<rparr>),
     ap_subs = fmupd ''int/hits'' 1 fmempty, ap_base = ''http://h'', ap_token = []\<rparr>"

lemma client_subscribe_hits:
  assumes "length (cl_send c) < send_buf" "fmlookup (cl_topics c) ''int/hits'' = None"
  shows "client_subscribe ''int/hits'' Latest c = Some (Inr (cl_next_id c + 1), c\<lparr>cl_send := cl_send c @ [subscribe_frame ''int/hits'' Latest 0],
    cl_next_id := cl_next_id c + 1,
    cl_topics := fmupd ''int/hits'' \<lparr>ts_from = Latest, ts_callbacks = [cl_next_id c + 1], ts_last_seen = 0\<rparr> (cl_topics c)\<rparr>)"
  using assms valid_int_hits(1) by (simp add: client_subscribe_def client_register_def Let_def client_send_def)

lemma demo_app_reachable: "app_reachable demo_app"
proof -
  let ?a = "\<lparr>ap_client = Some first_client, ap_subs = fmempty, ap_base = ''http://h'', ap_token = []\<rparr>"
  have u: "ws_to_http ''ws://h/ws'' = ''http://h''" by code_simp
  have "app_connect ''ws://h/ws'' [] (Inr first_client) app_new = Some (None, ?a)"
    by (simp add: app_connect_def app_new_def u)
  then have "app_reachable ?a" unfolding first_client_def by (rule app_next[OF app_start as_connect])
  moreover have "app_subscribe ''int/hits'' ''latest'' ?a = Some (None, demo_app)"
    using client_subscribe_hits[of first_client]
    by (simp add: app_subscribe_def app_check_def app_attach_def app_parse_from_def demo_app_def first_client_def
        with_reconnect_def client_new_def send_buf_def)
  ultimately show ?thesis by (rule app_next[OF _ as_subscribe])
qed


text \<open>
  A count that is no number is taken as 0, which the memory store answers with the whole log, where
  the server itself takes such a seed as \<open>latest\<close>.
\<close>

lemma app_last_garbage:
  "app_parse_from ''last:x'' = LastN 0 \<and> parse_from ''last:x'' 0 = Latest
   \<and> parse_from (cf_from (subscribe_frame t (LastN 0) 0)) (cf_from_seq (subscribe_frame t (LastN 0) 0)) = LastN 0
   \<and> read_backfill mem_ops t (LastN 0) st = Inr (mem_log st t)"
proof -
  have "show_nat 0 = ''0''" by (simp add: show_nat.simps digit_char_def char_of_def bit_0)
  moreover have "app_parse_from ''last:x'' = LastN 0"
    by (simp add: app_parse_from_def sscanf_d_def is_blank_def is_digit_def digits_val_def)
  moreover have "parse_from ''last:0'' 0 = LastN 0" "parse_from ''last:x'' 0 = Latest"
    by (simp_all add: parse_from_def is_digit_def digit_val_def)
  ultimately show ?thesis
    by (simp add: subscribe_frame_def out_frame_def LastN_def read_backfill_def mem_latest_eq int_of_u64_def)
qed

text \<open>
  Two calls of \<open>Subscribe\<close> for one topic that both pass the check before either registers: the topic
  has two callbacks and the app one handle, and after \<open>Unsubscribe\<close> its events are still emitted.
\<close>

lemma app_subscribe_race:
  assumes "app_check ''int/hits'' a = None" "app_attach ''int/hits'' ''latest'' a = Some (None, a1)"
    and "app_attach ''int/hits'' ''latest'' a1 = Some (None, a2)" "app_unsubscribe ''int/hits'' a2 = Some a3"
    and "app_inv a" "ap_client a3 = Some c"
  shows "fmlookup (ap_subs a3) ''int/hits'' = None \<and> callbacks_of c ''int/hits'' \<noteq> None"
proof -
  obtain c0 where c0: "ap_client a = Some c0" "fmlookup (ap_subs a) ''int/hits'' = None"
    using assms(1) by (auto simp: app_check_def split: if_splits)
  then have n: "callbacks_of c0 ''int/hits'' = None" using assms(5) by (simp add: app_inv_def)
  obtain i c1 where c1: "client_subscribe ''int/hits'' Latest c0 = Some (Inr i, c1)" "ap_client a1 = Some c1"
    using assms(2) c0 by (auto simp: app_attach_def app_parse_from_def split: option.splits sum.splits)
  obtain j c2 where c2: "client_subscribe ''int/hits'' Latest c1 = Some (Inr j, c2)" "ap_client a2 = Some c2"
      "fmlookup (ap_subs a2) ''int/hits'' = Some j"
    using assms(3) c1(2) by (auto simp: app_attach_def app_parse_from_def split: option.splits sum.splits)
  have ids: "j = cl_next_id c1 + 1" "cl_next_id c1 = i"
    using c1(1) c2(1) send_all_frame
    by (auto simp: client_subscribe_def client_register_def Let_def split: prod.splits option.splits)
  have cb: "callbacks_of c2 ''int/hits'' = Some [i, j]"
    using client_subscribe_callbacks[OF c1(1)] client_subscribe_callbacks[OF c2(1)] n by simp
  have r: "client_remove_callback ''int/hits'' j c2 = Some c" "fmlookup (ap_subs a3) ''int/hits'' = None"
    using assms(4,6) c2(2,3) by (auto simp: app_unsubscribe_def)
  then obtain frames c4 where c4: "client_unregister ''int/hits'' j c2 = (frames, c4)" "client_send_all frames c4 = Some c"
    by (auto simp: client_remove_callback_def split: prod.splits)
  have "callbacks_of c = callbacks_of c4" using send_all_frame[OF c4(2)] by (intro callbacks_of_same) simp
  then show ?thesis using unregister_callbacks[OF c4(1)] cb ids r(2) by simp
qed

end
