(* ===== verification/AppHttp.thy ===== *)
theory AppHttp
  imports AppModel ServerModel
begin

text \<open>
  The desktop client over HTTP, \<open>app.go\<close>: the requests that the WebSocket protocol has no operation for, from the
  request through the server to what the user interface gets. A body comes in pieces, each with whether the read
  that gave it returned an error (at the end of the body, \<open>io.EOF\<close>). The JSON text of a value is \<open>text_of\<close>, and
  \<open>raw_of\<close> reads one. The main result is \<open>app_lists_topics\<close>; \<open>short_body_accepted\<close> shows what the read loop makes
  of a connection that breaks.
\<close>

section \<open>Transfer\<close>

text \<open>\<open>buf\<close> grows by what each read gives, until a read returns an error, whichever it is.\<close>

fun read_body :: "string \<Rightarrow> (string \<times> bool) list \<Rightarrow> string" where
  "read_body buf [] = buf"
| "read_body buf ((tmp, err) # reads) = (if err then buf @ tmp else read_body (buf @ tmp) reads)"

text \<open>\<open>httpGET\<close>: \<open>net\<close> is the round trip, with the URL and the \<open>Authorization\<close> header; it gives the status and the reads
  of the body. Of the status error only the fixed text is kept.\<close>

definition app_http_do ::
    "(string \<times> string option \<Rightarrow> gerr + nat \<times> (string \<times> bool) list) \<Rightarrow> string \<Rightarrow> app \<Rightarrow> gerr + string" where
  "app_http_do net path a =
     (case app_http_get path a of
        Inl err \<Rightarrow> Inl err
      | Inr req \<Rightarrow>
          (case net req of
             Inl err \<Rightarrow> Inl err
           | Inr (status, reads) \<Rightarrow> if 400 \<le> status then Inl (ErrMsg ''http '') else Inr (read_body [] reads)))"

section \<open>The requests\<close>

definition topics_dec :: "json \<Rightarrow> string list decoded" where
  "topics_dec = dec_struct (\<lambda>f. dec_list dec_string (f ''topics''))"

definition app_list_topics ::
    "(string \<Rightarrow> raw) \<Rightarrow> (string \<times> string option \<Rightarrow> gerr + nat \<times> (string \<times> bool) list) \<Rightarrow> app \<Rightarrow> gerr + string list" where
  "app_list_topics raw_of net a =
     (case app_http_do net ''/topics'' a of
        Inl err \<Rightarrow> Inl err
      | Inr body \<Rightarrow>
          (case raw_of body of
             RJson j \<Rightarrow> (case topics_dec j of (ts, True) \<Rightarrow> Inr ts | (_, False) \<Rightarrow> Inl unmarshal_error)
           | _ \<Rightarrow> Inl unmarshal_error))"

definition app_metrics ::
    "(string \<times> string option \<Rightarrow> gerr + nat \<times> (string \<times> bool) list) \<Rightarrow> app \<Rightarrow> gerr + string" where
  "app_metrics net a = app_http_do net ''/admin/metrics.json'' a"

section \<open>The server at the other end\<close>

text \<open>What the handler of \<open>/topics\<close> writes, and the status and text of an answer.\<close>

definition topics_enc :: "string list \<Rightarrow> json" where
  "topics_enc ts = JObj [(''topics'', JArr (map JStr ts))]"

definition answer_text :: "(json \<Rightarrow> string) \<Rightarrow> string list response \<Rightarrow> nat \<times> string" where
  "answer_text text_of r = (case r of HttpError status msg \<Rightarrow> (status, msg) | HttpOk ts \<Rightarrow> (200, text_of (topics_enc ts)))"

text \<open>The request the server sees: the path after the server's address, and the header.\<close>

definition wire_request :: "string \<Rightarrow> 'h \<Rightarrow> string \<times> string option \<Rightarrow> 'h http_request" where
  "wire_request base hook req =
     \<lparr>hq_method = ''GET'', hq_path = drop (length base) (fst req),
      hq_auth = \<lparr>aq_authorization = (case snd req of Some v \<Rightarrow> v | None \<Rightarrow> []), aq_access_token = []\<rparr>,
      hq_query = \<lambda>k. [], hq_body = RNil, hq_hook = hook\<rparr>"

definition topics_of :: "http_result response \<Rightarrow> string list response" where
  "topics_of r = (case r of HttpError status msg \<Rightarrow> HttpError status msg | HttpOk (ResTopics ts) \<Rightarrow> HttpOk ts | HttpOk _ \<Rightarrow> HttpOk [])"

text \<open>A body that arrives whole: its pieces make up the text, and only the last read returns an error.\<close>

definition whole :: "(string \<times> bool) list \<Rightarrow> string \<Rightarrow> bool" where
  "whole reads full \<longleftrightarrow> concat (map fst reads) = full \<and> reads \<noteq> [] \<and> snd (last reads) \<and> (\<forall>r \<in> set (butlast reads). \<not> snd r)"

lemma read_body_whole: "whole reads full \<Longrightarrow> read_body buf reads = buf @ full"
proof (induction reads arbitrary: buf full)
  case (Cons r reads)
  show ?case
  proof (cases "reads = []")
    case True
    then show ?thesis using Cons.prems by (cases r) (auto simp: whole_def)
  next
    case False
    then have "whole reads (concat (map fst reads))" "\<not> snd r" using Cons.prems by (auto simp: whole_def)
    then show ?thesis using Cons.IH[of "concat (map fst reads)"] Cons.prems by (cases r) (auto simp: whole_def)
  qed
qed (simp add: whole_def)

text \<open>A transfer that breaks off, with whatever error, is taken for a complete one.\<close>

lemma short_body_accepted:
  assumes "app_http_get path a = Inr req" "net req = Inr (200, [(part, True)])"
  shows "app_http_do net path a = Inr part"
  using assms by (simp add: app_http_do_def)

lemma topics_roundtrip: "topics_dec (topics_enc ts) = (ts, True)"
  by (induction ts) (simp_all add: topics_dec_def topics_enc_def codec_simps list_all_iff jfield_def)

lemma topics_route: "server_route ''GET'' ''/topics'' = EpTopics"
  by code_simp

text \<open>The desktop client's list of topics is the broker's: over a connection that delivers the answer whole, in
  any pieces, the request it makes reaches the topics handler and passes the middleware exactly when the token it
  connected with is the server's, and what the handler wrote is read back as the same list; with any other token
  it gets an error and no list.\<close>

lemma app_lists_topics:
  assumes "ap_base a \<noteq> []" "tok \<noteq> []" "broker_list_topics [] 0 b = Inr ts" "raw_of (text_of (topics_enc ts)) = RJson (topics_enc ts)"
    and "\<And>req. \<exists>reads status full. net req = Inr (status, reads) \<and> whole reads full
      \<and> (status, full) = answer_text text_of (topics_of (fst (server_serve (bearer_authenticate tok) now ids plugins gather others
            (wire_request (ap_base a) hook req) b)))"
  shows "app_list_topics raw_of net a = (if ap_token a = tok then Inr ts else Inl (ErrMsg ''http ''))"
proof -
  let ?req = "(ap_base a @ ''/topics'', if ap_token a = [] then None else Some (''Bearer '' @ ap_token a))"
  let ?q = "wire_request (ap_base a) hook ?req"
  have g: "app_http_get ''/topics'' a = Inr ?req" using assms(1) by (simp add: app_http_get_def)
  have cp: "cut_prefix (''Bearer '' @ v) ''Bearer '' = Some v" for v by (simp add: cut_prefix_Some)
  have s: "fst (server_serve (bearer_authenticate tok) now ids plugins gather others ?q b) =
      (if ap_token a = tok then HttpOk (ResTopics ts) else HttpError 401 ''unauthorized'')"
    using assms(2,3)
    by (auto simp: server_serve_def wire_request_def topics_route serve_endpoint_def http_topics_def atoi_def
        middleware_def bearer_authenticate_def Let_def cp[simplified])
  obtain reads status full where n: "net ?req = Inr (status, reads)" "whole reads full"
      "(status, full) = answer_text text_of (topics_of (fst (server_serve (bearer_authenticate tok) now ids plugins gather others ?q b)))"
    using assms(5)[of ?req] by blast
  show ?thesis
  proof (cases "ap_token a = tok")
    case True
    then have "status = 200" "full = text_of (topics_enc ts)" using n(3) s by (simp_all add: topics_of_def answer_text_def)
    then show ?thesis
      using True g n(1) read_body_whole[OF n(2), of "[]"] assms(4)
      by (simp add: app_list_topics_def app_http_do_def topics_roundtrip)
  next
    case False
    then have "status = 401" using n(3) s by (simp add: topics_of_def answer_text_def)
    then show ?thesis using False g n(1) by (simp add: app_list_topics_def app_http_do_def)
  qed
qed

end
