(* ===== verification/TestClient.thy ===== *)
theory TestClient
  imports ClientFields GoFlags
begin

text \<open>
  The command-line client, \<open>cmd/testclient/main.go\<close>: its commands and their flags, the canned lifecycles of
  \<open>simulate\<close>, the division of the \<open>fanout\<close> load over connections, and the loops that publish. A step that ends
  the process with an error or a panic is \<open>None\<close>; \<open>cli_main\<close> gives the exit code. Printing and sleeping are not
  modelled, and publishing is an argument of the loops. The main results: \<open>simulations_accepted\<close> (every canned event
  is one the broker accepts), \<open>simulate_complete\<close> (a canned lifecycle is published to its end) and
  \<open>fanout_conns_spec\<close>.
\<close>

section \<open>Subscribe and publish\<close>

definition cli_parse_from :: "string \<Rightarrow> from_spec" where
  "cli_parse_from s =
     (if s = [] \<or> s = ''latest'' then Latest
      else if prefix ''last:'' s then LastN (sscanf_d (drop 5 s))
      else if prefix ''seq:'' s then Seq (sscanf_d (drop 4 s))
      else Latest)"

definition cli_subscribe :: "string \<Rightarrow> string \<Rightarrow> (string \<times> from_spec) option" where
  "cli_subscribe topic from = (if topic = [] then None else Some (topic, cli_parse_from from))"

definition cli_publish :: "string \<Rightarrow> string \<Rightarrow> raw \<Rightarrow> event option" where
  "cli_publish topic typ payload =
     (if topic = [] \<or> typ = [] then None else Some (new_event topic typ [] payload 0))"

section \<open>Simulate\<close>

text \<open>One step: its type, its payload (\<open>None\<close> a nil map), the delay after it in milliseconds.\<close>

record simulate_step =
  si_type :: string
  si_payload :: "(string \<times> json) list option"
  si_delay :: nat

definition sim_step :: "string \<Rightarrow> (string \<times> json) list \<Rightarrow> nat \<Rightarrow> simulate_step" where
  "sim_step typ o1 ms = \<lparr>si_type = typ, si_payload = Some o1, si_delay = ms\<rparr>"

definition sim_bare :: "string \<Rightarrow> nat \<Rightarrow> simulate_step" where
  "sim_bare typ ms = \<lparr>si_type = typ, si_payload = None, si_delay = ms\<rparr>"

definition sim_pr :: "simulate_step list" where
  "sim_pr =
     [sim_step ''pr_opened'' [(''title'', JStr ''Add feature''), (''author'', JStr ''alice''), (''base'', JStr ''main''),
        (''head'', JStr ''abc123'')] 200,
      sim_step ''pr_review_requested'' [(''reviewer'', JStr ''bob'')] 200,
      sim_step ''check_run_completed'' [(''conclusion'', JStr ''success''), (''name'', JStr ''test'')] 400,
      sim_bare ''pr_commented'' 200,
      sim_step ''pr_reviewed'' [(''state'', JStr ''approved'')] 200,
      sim_bare ''pr_merged'' 200]"

definition sim_build :: "simulate_step list" where
  "sim_build =
     [sim_bare ''build_queued'' 100, sim_bare ''build_started'' 200,
      sim_step ''step_started'' [(''step'', JStr ''compile'')] 200,
      sim_step ''step_finished'' [(''step'', JStr ''compile''), (''status'', JStr ''success'')] 500,
      sim_step ''step_started'' [(''step'', JStr ''test'')] 200,
      sim_step ''step_finished'' [(''step'', JStr ''test''), (''status'', JStr ''success'')] 500,
      sim_step ''build_finished'' [(''status'', JStr ''success'')] 200]"

definition sim_deploy :: "simulate_step list" where
  "sim_deploy =
     [sim_step ''deploy_started'' [(''version'', JStr ''v42''), (''env'', JStr ''prod''), (''service'', JStr ''api'')] 200,
      sim_bare ''health_check_pass'' 500,
      sim_step ''deploy_finished'' [(''status'', JStr ''success'')] 200]"

definition sim_job :: "simulate_step list" where
  "sim_job =
     [sim_step ''job_started'' [(''name'', JStr ''reindex'')] 100,
      sim_step ''job_progress'' [(''percent'', JNum 25 0)] 300,
      sim_step ''job_log'' [(''line'', JStr ''processing shard 1'')] 100,
      sim_step ''job_progress'' [(''percent'', JNum 50 0)] 300,
      sim_step ''job_log'' [(''line'', JStr ''processing shard 2'')] 100,
      sim_step ''job_progress'' [(''percent'', JNum 75 0)] 300,
      sim_step ''job_progress'' [(''percent'', JNum 100 0)] 300,
      sim_bare ''job_finished'' 200]"

definition sim_chat :: "simulate_step list" where
  "sim_chat =
     [sim_step ''user_joined'' [(''user'', JStr ''alice'')] 100,
      sim_step ''user_joined'' [(''user'', JStr ''bob'')] 100,
      sim_step ''msg_posted'' [(''id'', JStr ''m1''), (''user'', JStr ''alice''), (''text'', JStr ''hey team'')] 300,
      sim_step ''msg_posted'' [(''id'', JStr ''m2''), (''user'', JStr ''bob''), (''text'', JStr ''hi'')] 300,
      sim_step ''msg_edited'' [(''id'', JStr ''m1''), (''text'', JStr ''hey team!'')] 300]"

definition simulations :: "string \<Rightarrow> simulate_step list option" where
  "simulations = map_of [(''pr'', sim_pr), (''build'', sim_build), (''deploy'', sim_deploy), (''job'', sim_job),
     (''chat'', sim_chat)]"

definition default_sim_topics :: "string \<Rightarrow> string option" where
  "default_sim_topics = map_of [(''pr'', ''pr/octo/hello/1''), (''build'', ''build/ci/42''), (''deploy'', ''deploy/prod/api''),
     (''job'', ''job/reindex-1''), (''chat'', ''chat/general'')]"

text \<open>\<open>json.Marshal\<close> of a map: \<open>null\<close> when nil, else its keys sorted.\<close>

definition marshal_map :: "(string \<times> json) list option \<Rightarrow> raw" where
  "marshal_map m = RJson (case m of None \<Rightarrow> JNull | Some o1 \<Rightarrow> JObj (fm_items (fm_of_items o1)))"

text \<open>\<open>runSimulate\<close>: the events it publishes, in order.\<close>

definition run_simulate :: "string \<Rightarrow> string \<Rightarrow> event list option" where
  "run_simulate kind topic =
     (case simulations kind of
        None \<Rightarrow> None
      | Some steps \<Rightarrow>
          (let tp = (if topic = [] then (case default_sim_topics kind of Some t \<Rightarrow> t | None \<Rightarrow> []) else topic)
           in Some (map (\<lambda>s. new_event tp (si_type s) [] (marshal_map (si_payload s)) 0) steps)))"

section \<open>Fanout\<close>

text \<open>The subscribers of each connection: 20, and what is left for the last.\<close>

definition per_conn :: int where
  "per_conn = 20"

definition conn_size :: "int \<Rightarrow> int \<Rightarrow> int \<Rightarrow> int" where
  "conn_size subs conns i = (if i = conns - 1 then subs - i * per_conn else per_conn)"

definition fanout_conns :: "int \<Rightarrow> int list option" where
  "fanout_conns subs =
     (if subs < 0 then None
      else (let conns = (subs + per_conn - 1) sdiv per_conn in Some (map (conn_size subs conns) [0 .. conns - 1])))"

text \<open>The period of the publishing ticker; a zero rate divides by zero, and a period of zero or less
  is refused by \<open>time.NewTicker\<close>, both by a panic.\<close>

definition fanout_period :: "int \<Rightarrow> int option" where
  "fanout_period rate =
     (if rate = 0 then None
      else (let d = 1000000000 sdiv rate in if d \<le> 0 then None else Some d))"

section \<open>The command line\<close>

text \<open>The flags of each command, with their defaults; reading them fills in what was given.\<close>

definition subscribe_flags :: "string \<Rightarrow> flag_value option" where
  "subscribe_flags = map_of [(''url'', FvString ''ws://localhost:8080/ws''), (''token'', FvString []), (''topic'', FvString []),
     (''from'', FvString ''latest'')]"

definition publish_flags :: "string \<Rightarrow> flag_value option" where
  "publish_flags = map_of [(''url'', FvString ''ws://localhost:8080/ws''), (''token'', FvString []), (''topic'', FvString []),
     (''type'', FvString []), (''payload'', FvString [])]"

definition simulate_flags :: "string \<Rightarrow> flag_value option" where
  "simulate_flags = map_of [(''url'', FvString ''ws://localhost:8080/ws''), (''token'', FvString []), (''kind'', FvString []),
     (''topic'', FvString [])]"

definition fanout_flags :: "string \<Rightarrow> flag_value option" where
  "fanout_flags = map_of [(''url'', FvString ''ws://localhost:8080/ws''), (''token'', FvString []), (''topic'', FvString ''chat/load''),
     (''subs'', FvInt 100), (''rate'', FvInt 50), (''duration'', FvDuration (word_of_int (15 * 1000000000)))]"

definition string_flag :: "(string \<Rightarrow> flag_value option) \<Rightarrow> string \<Rightarrow> string" where
  "string_flag m name = (case m name of Some (FvString v) \<Rightarrow> v | _ \<Rightarrow> [])"

definition int_flag :: "(string \<Rightarrow> flag_value option) \<Rightarrow> string \<Rightarrow> int" where
  "int_flag m name = (case m name of Some (FvInt v) \<Rightarrow> v | _ \<Rightarrow> 0)"

definition duration_flag :: "(string \<Rightarrow> flag_value option) \<Rightarrow> string \<Rightarrow> i64" where
  "duration_flag m name = (case m name of Some (FvDuration v) \<Rightarrow> v | _ \<Rightarrow> 0)"

text \<open>What a command is about to do once its flags are read: the address and token to dial with, and the rest.\<close>

datatype cli_command =
    CmdSubscribe string string string from_spec
  | CmdPublish string string event
  | CmdSimulate string string "event list"
  | CmdFanout string string string int int i64

text \<open>\<open>flag.ExitOnError\<close> ends the process with 2, or 0 when help was asked for; \<open>log.Fatal\<close> with 1.\<close>

definition cli_flags ::
    "(string \<Rightarrow> int option) \<Rightarrow> (string \<Rightarrow> i64 option) \<Rightarrow> (string \<Rightarrow> flag_value option) \<Rightarrow> string list
     \<Rightarrow> nat + (string \<Rightarrow> flag_value option)" where
  "cli_flags ints durations defaults args =
     (case parse_flags (typed_reader ints durations defaults) (\<lambda>name v m. m(name \<mapsto> v)) args defaults of
        Inl err \<Rightarrow> Inl (if err = help_requested then 0 else 2)
      | Inr m \<Rightarrow> Inr m)"

definition or_fatal :: "'a option \<Rightarrow> nat + 'a" where
  "or_fatal r = (case r of None \<Rightarrow> Inl 1 | Some x \<Rightarrow> Inr x)"

text \<open>\<open>raw_of\<close> reads the payload's text as JSON, which \<open>Publish\<close> does when it marshals the frame.\<close>

definition cli_main ::
    "(string \<Rightarrow> int option) \<Rightarrow> (string \<Rightarrow> i64 option) \<Rightarrow> (string \<Rightarrow> raw) \<Rightarrow> string list \<Rightarrow> nat + cli_command" where
  "cli_main ints durations raw_of args =
     (case args of
        [] \<Rightarrow> Inl 2
      | cmd # rest \<Rightarrow>
          if cmd = ''subscribe'' then
            (case cli_flags ints durations subscribe_flags rest of
               Inl code \<Rightarrow> Inl code
             | Inr m \<Rightarrow> map_sum id (\<lambda>(topic, from). CmdSubscribe (string_flag m ''url'') (string_flag m ''token'') topic from)
                 (or_fatal (cli_subscribe (string_flag m ''topic'') (string_flag m ''from''))))
          else if cmd = ''publish'' then
            (case cli_flags ints durations publish_flags rest of
               Inl code \<Rightarrow> Inl code
             | Inr m \<Rightarrow> map_sum id (CmdPublish (string_flag m ''url'') (string_flag m ''token''))
                 (or_fatal (cli_publish (string_flag m ''topic'') (string_flag m ''type'') (raw_of (string_flag m ''payload'')))))
          else if cmd = ''simulate'' then
            (case cli_flags ints durations simulate_flags rest of
               Inl code \<Rightarrow> Inl code
             | Inr m \<Rightarrow> map_sum id (CmdSimulate (string_flag m ''url'') (string_flag m ''token''))
                 (or_fatal (run_simulate (string_flag m ''kind'') (string_flag m ''topic''))))
          else if cmd = ''fanout'' then
            (case cli_flags ints durations fanout_flags rest of
               Inl code \<Rightarrow> Inl code
             | Inr m \<Rightarrow> Inr (CmdFanout (string_flag m ''url'') (string_flag m ''token'') (string_flag m ''topic'')
                 (int_flag m ''subs'') (int_flag m ''rate'') (duration_flag m ''duration'')))
          else Inl 2)"

section \<open>The publishing loops\<close>

text \<open>\<open>runSimulate\<close>: the numbers it prints, and whether it came to its end; it stops at the first error.\<close>

fun simulate_loop :: "(event \<Rightarrow> 's \<Rightarrow> (gerr + nat) \<times> 's) \<Rightarrow> event list \<Rightarrow> 's \<Rightarrow> (nat list \<times> bool) \<times> 's" where
  "simulate_loop publish [] s = (([], True), s)"
| "simulate_loop publish (e # es) s =
     (case publish e s of
        (Inl err, s1) \<Rightarrow> (([], False), s1)
      | (Inr n, s1) \<Rightarrow> (let ((ns, ok), s2) = simulate_loop publish es s1 in ((n # ns, ok), s2)))"

text \<open>\<open>runFanout\<close>: the ticks before its context is done; the events counted are those that were accepted.\<close>

definition load_event :: "string \<Rightarrow> event" where
  "load_event topic = new_event topic ''msg_posted'' [] (RJson (JObj [(''user'', JStr ''loadgen''), (''text'', JStr ''tick'')])) 0"

fun fanout_loop :: "(event \<Rightarrow> 's \<Rightarrow> (gerr + nat) \<times> 's) \<Rightarrow> string \<Rightarrow> nat \<Rightarrow> i64 \<Rightarrow> 's \<Rightarrow> i64 \<times> 's" where
  "fanout_loop publish topic 0 sent s = (sent, s)"
| "fanout_loop publish topic (Suc n) sent s =
     (case publish (load_event topic) s of
        (Inl err, s1) \<Rightarrow> fanout_loop publish topic n sent s1
      | (Inr _, s1) \<Rightarrow> fanout_loop publish topic n (sent + 1) s1)"

text \<open>What it prints at the end: sent, received, expected.\<close>

definition fanout_report :: "i64 \<Rightarrow> i64 \<Rightarrow> i64 \<Rightarrow> i64 \<times> i64 \<times> i64" where
  "fanout_report sent received subs = (sent, received, sent * subs)"

section \<open>What the commands do\<close>

lemma cli_defaults:
  "cli_main ints durations raw_of [] = Inl 2"
  "cli_main ints durations raw_of [''subscribe'', ''--topic'', ''int/hits''] =
     Inr (CmdSubscribe ''ws://localhost:8080/ws'' [] ''int/hits'' Latest)"
  "cli_main ints durations raw_of [''subscribe''] = Inl 1"
  "cli_main ints durations raw_of [''simulate'', ''-kind=no''] = Inl 1"
  "cli_main ints durations raw_of [''publish'', ''--help''] = Inl 0"
  "cli_main ints durations raw_of [''publish'', ''--kind'', ''pr''] = Inl 2"
  by (simp_all add: cli_main_def cli_flags_def typed_reader_def strip_dashes_def flag_name_def Let_def subscribe_flags_def
      publish_flags_def simulate_flags_def string_flag_def cli_subscribe_def cli_parse_from_def or_fatal_def run_simulate_def
      simulations_def help_requested_def)

text \<open>Every event of a canned lifecycle is one the broker accepts, on its default topic and on any valid one.\<close>

lemma simulations_accepted:
  assumes "run_simulate kind topic = Some es" "topic = [] \<or> validate_topic topic = None"
  shows "\<forall>e \<in> set es. validate_topic (ev_topic e) = None \<and> ev_type e \<noteq> []"
proof -
  have v: "validate_topic ''pr/octo/hello/1'' = None" "validate_topic ''build/ci/42'' = None"
    "validate_topic ''deploy/prod/api'' = None" "validate_topic ''job/reindex-1'' = None" "validate_topic ''chat/general'' = None"
    by code_simp+
  have "kind \<in> {''pr'', ''build'', ''deploy'', ''job'', ''chat''}"
    using assms(1) by (auto simp: run_simulate_def simulations_def split: option.splits if_splits)
  then show ?thesis
    using assms v
    by (auto simp: run_simulate_def simulations_def default_sim_topics_def new_event_def Let_def sim_pr_def sim_build_def
        sim_deploy_def sim_job_def sim_chat_def sim_step_def sim_bare_def)
qed

lemma fanout_sizes:
  assumes "0 < conns" "subs = 20 * (conns - 1) + k"
  shows "map (conn_size subs conns) [0 .. conns - 1] = replicate (nat (conns - 1)) 20 @ [k]"
proof -
  have "[0 .. conns - 1] = [0 .. conns - 2] @ [conns - 1]" using assms(1) upto_rec2[of 0 "conns - 1"] by simp
  moreover have "map (conn_size subs conns) [0 .. conns - 2] = map (\<lambda>_. 20) [0 .. conns - 2]"
    by (rule map_cong) (auto simp: conn_size_def per_conn_def)
  ultimately show ?thesis
    using assms by (simp add: map_replicate_const conn_size_def per_conn_def)
qed

text \<open>The load's subscribers are divided over the connections without a rest: as few connections as 20
  to each allow, none of them empty.\<close>

lemma fanout_conns_spec:
  assumes "0 \<le> subs"
  shows "\<exists>ns. fanout_conns subs = Some ns \<and> sum_list ns = subs \<and> (\<forall>n \<in> set ns. 1 \<le> n \<and> n \<le> 20)
    \<and> int (length ns) = (subs + 19) div 20"
proof -
  define conns where "conns = (subs + 19) div 20"
  have f: "fanout_conns subs = Some (map (conn_size subs conns) [0 .. conns - 1])"
    using assms by (simp add: fanout_conns_def Let_def per_conn_def conns_def signed_divide_int_def sgn_if add.commute)
  show ?thesis
  proof (cases "subs = 0")
    case True
    then show ?thesis using f by (simp add: conns_def)
  next
    case False
    define k where "k = subs - 20 * (conns - 1)"
    have c: "0 < conns" "1 \<le> k" "k \<le> 20" using assms False unfolding k_def conns_def by presburger+
    have m: "map (conn_size subs conns) [0 .. conns - 1] = replicate (nat (conns - 1)) 20 @ [k]"
      by (rule fanout_sizes) (use c in \<open>simp_all add: k_def\<close>)
    show ?thesis
      unfolding f m using c by (auto simp: sum_list_replicate k_def conns_def[symmetric])
  qed
qed

text \<open>The load runs only for rates from 1 to a thousand million a second.\<close>

lemma fanout_period_some: "fanout_period rate \<noteq> None \<longleftrightarrow> 1 \<le> rate \<and> rate \<le> 1000000000"
proof (cases "0 < rate")
  case True
  then have "1000000000 sdiv rate = 1000000000 div rate" by (simp add: signed_divide_int_def)
  moreover have "1000000000 div rate \<le> 0 \<longleftrightarrow> 1000000000 < rate"
    using True pos_imp_zdiv_pos_iff[of rate 1000000000] by auto
  ultimately show ?thesis using True by (auto simp: fanout_period_def Let_def)
next
  case False
  then have "1000000000 sdiv rate \<le> 0"
    using pos_imp_zdiv_nonneg_iff[of "- rate" 1000000000] by (auto simp: signed_divide_int_def sgn_if)
  then show ?thesis using False by (simp add: fanout_period_def Let_def)
qed

text \<open>Published to a broker on the memory store, a canned lifecycle comes to its end and is numbered without a gap.\<close>

lemma simulate_numbers:
  assumes "broker_reachable (memory_broker reg ttl) b" "\<forall>e \<in> set es. validate_topic (ev_topic e) = None \<and> ev_type e \<noteq> [] \<and> ev_topic e = t"
  shows "\<exists>b'. simulate_loop (\<lambda>e. broker_publish now rid e ''ws'') es b =
      (([Suc (length (mem_log (br_store b) t)) ..< Suc (length (mem_log (br_store b) t) + length es)], True), b')"
  using assms
proof (induction es arbitrary: b)
  case (Cons e es)
  obtain n b1 where p: "broker_publish now rid e ''ws'' b = (Inr n, b1)" "n = Suc (length (mem_log (br_store b) t))"
      "mem_log (br_store b1) = (mem_log (br_store b))(t := mem_log (br_store b) t @ [stamp_event now rid n e])"
    using broker_publish_ok[OF Cons.prems(1), of e now rid "''ws''"] Cons.prems(2) by auto
  have "broker_reachable (memory_broker reg ttl) b1" using broker_reachable_publish[OF Cons.prems(1), of now rid e "''ws''"] p(1) by simp
  from Cons.IH[OF this] obtain b' where "simulate_loop (\<lambda>e. broker_publish now rid e ''ws'') es b1 =
      (([Suc (length (mem_log (br_store b1) t)) ..< Suc (length (mem_log (br_store b1) t) + length es)], True), b')"
    using Cons.prems(2) by auto
  then show ?case using p by (simp add: upt_conv_Cons del: upt_Suc)
qed simp

lemma run_simulate_topic:
  "run_simulate kind topic = Some es \<Longrightarrow> \<exists>t. \<forall>e \<in> set es. ev_topic e = t"
  by (auto simp: run_simulate_def Let_def new_event_def split: option.splits)

lemma simulate_complete:
  assumes "broker_reachable (memory_broker reg ttl) b" "run_simulate kind topic = Some es" "topic = [] \<or> validate_topic topic = None"
  shows "\<exists>n b'. simulate_loop (\<lambda>e. broker_publish now rid e ''ws'') es b = (([Suc n ..< Suc (n + length es)], True), b')"
  using simulate_numbers[OF assms(1)] simulations_accepted[OF assms(2,3)] run_simulate_topic[OF assms(2)] by metis

text \<open>Every tick of the load is accepted on a valid topic, so what it expects is the product of the two counts.\<close>

lemma fanout_all_accepted:
  assumes "broker_reachable (memory_broker reg ttl) b" "validate_topic topic = None"
  shows "fst (fanout_loop (\<lambda>e. broker_publish now rid e ''ws'') topic n sent b) = sent + of_nat n"
  using assms(1)
proof (induction n arbitrary: b sent)
  case (Suc n)
  obtain k b1 where p: "broker_publish now rid (load_event topic) ''ws'' b = (Inr k, b1)"
    using broker_publish_ok[OF Suc.prems, of "load_event topic" now rid "''ws''"] assms(2) by (auto simp: load_event_def new_event_def)
  have "broker_reachable (memory_broker reg ttl) b1"
    using broker_reachable_publish[OF Suc.prems, of now rid "load_event topic" "''ws''"] p by simp
  from Suc.IH[OF this, of "sent + 1"] show ?case using p by (simp add: add.assoc)
qed simp

end
